(* ===== verification/Redis_Prelude.thy ===== *)
theory Redis_Prelude
  imports Main "HOL-Library.Word" "HOL-Library.Monad_Syntax"
begin

unbundle bit_operations_syntax

text \<open>
  The shared layer of the development: bytes and byte buffers with checked
  access, the byte order of the host, the byte representation of integers, and
  the list, option and word lemmas that the component theories use.

  A C object that lives in allocated memory is a list of bytes. An access
  outside of it is undefined behaviour in C; here it is the value \<^term>\<open>None\<close>, so
  that a statement \<open>f x = Some y\<close> about a modelled function says at once that
  the function makes no access out of bounds, that its loops end, and that its
  result is \<open>y\<close>.
\<close>

section \<open>Types and rule collections\<close>

type_synonym byte = "8 word"
type_synonym buf = "byte list"

named_theorems buf_simps \<open>equations for checked access to byte buffers\<close>
named_theorems enc_simps \<open>equations between integers and their byte representation\<close>

text \<open>
  What the model needs to know about the machine: whether it stores integers
  with the most significant byte first, and what \<open>zmalloc\<close> and \<open>zrealloc\<close>
  leave in the bytes that they add to an allocation (C does not say).
\<close>

record host =
  big_endian :: bool
  fresh :: "nat \<Rightarrow> byte"

section \<open>Checked access to byte buffers\<close>

definition load_bytes :: "'a list \<Rightarrow> nat \<Rightarrow> nat \<Rightarrow> 'a list option" where
  "load_bytes b off n = (if off + n \<le> length b then Some (take n (drop off b)) else None)"

definition store_bytes :: "'a list \<Rightarrow> nat \<Rightarrow> 'a list \<Rightarrow> 'a list option" where
  "store_bytes b off xs =
     (if off + length xs \<le> length b
      then Some (take off b @ xs @ drop (off + length xs) b) else None)"

definition nth_opt :: "'a list \<Rightarrow> nat \<Rightarrow> 'a option" where
  "nth_opt xs i = (if i < length xs then Some (xs ! i) else None)"

definition upd_opt :: "'a list \<Rightarrow> nat \<Rightarrow> 'a \<Rightarrow> 'a list option" where
  "upd_opt xs i v = (if i < length xs then Some (xs[i := v]) else None)"

text \<open>
  \<open>memmove\<close> within one object reads all its bytes before it writes any, so that
  overlapping regions are copied correctly.
\<close>

definition memmove :: "'a list \<Rightarrow> nat \<Rightarrow> nat \<Rightarrow> nat \<Rightarrow> 'a list option" where
  "memmove b dst src n = do { xs \<leftarrow> load_bytes b src n; store_bytes b dst xs }"

definition realloc :: "host \<Rightarrow> buf \<Rightarrow> nat \<Rightarrow> buf" where
  "realloc h b n = take n b @ map (fresh h) [length b..<n]"

lemma load_bytes_Some [buf_simps]:
  "off + n \<le> length b \<Longrightarrow> load_bytes b off n = Some (take n (drop off b))"
  by (simp add: load_bytes_def)

lemma store_bytes_Some [buf_simps]:
  "off + length xs \<le> length b \<Longrightarrow>
    store_bytes b off xs = Some (take off b @ xs @ drop (off + length xs) b)"
  by (simp add: store_bytes_def)

lemma store_bytes_None:
  "length b < off + length xs \<Longrightarrow> store_bytes b off xs = None"
  by (simp add: store_bytes_def)

lemma length_store_bytes:
  "store_bytes b off xs = Some b' \<Longrightarrow> length b' = length b"
  by (auto simp: store_bytes_def split: if_splits)

lemma nth_opt_Some [buf_simps]: "i < length xs \<Longrightarrow> nth_opt xs i = Some (xs ! i)"
  by (simp add: nth_opt_def)

lemma upd_opt_Some [buf_simps]: "i < length xs \<Longrightarrow> upd_opt xs i v = Some (xs[i := v])"
  by (simp add: upd_opt_def)

lemma memmove_Some [buf_simps]:
  "src + n \<le> length b \<Longrightarrow> dst + n \<le> length b \<Longrightarrow>
    memmove b dst src n = Some (take dst b @ take n (drop src b) @ drop (dst + n) b)"
  by (simp add: memmove_def load_bytes_def store_bytes_def)

lemma length_realloc [simp]: "length (realloc h b n) = n"
  by (simp add: realloc_def)

lemma take_realloc: "m \<le> n \<Longrightarrow> m \<le> length b \<Longrightarrow> take m (realloc h b n) = take m b"
  by (simp add: realloc_def min_def)

lemma realloc_shrink: "n \<le> length b \<Longrightarrow> realloc h b n = take n b"
  by (simp add: realloc_def)

section \<open>Integers as bytes\<close>

text \<open>
  \<open>le_enc n v\<close> is the little-endian two's complement representation of \<open>v\<close> in
  \<open>n\<close> bytes, \<open>le_dec\<close> reads such bytes as an unsigned integer and \<open>le_sdec\<close> as a
  signed one.
\<close>

fun le_enc :: "nat \<Rightarrow> int \<Rightarrow> buf" where
  "le_enc 0 v = []"
| "le_enc (Suc n) v = word_of_int v # le_enc n (v div 256)"

fun le_dec :: "buf \<Rightarrow> int" where
  "le_dec [] = 0"
| "le_dec (b # bs) = uint b + 256 * le_dec bs"

definition le_sdec :: "buf \<Rightarrow> int" where
  "le_sdec bs = (let m = 256 ^ length bs; v = le_dec bs in if 2 * v < m then v else v - m)"

lemma length_le_enc [simp]: "length (le_enc n v) = n"
  by (induction n arbitrary: v) auto

lemma le_dec_nonneg: "0 \<le> le_dec bs"
  by (induction bs) auto

lemma le_dec_less: "le_dec bs < 256 ^ length bs"
proof (induction bs)
  case Nil
  show ?case by simp
next
  case (Cons b bs)
  have "uint b < 256" using uint_lt2p [of b] by simp
  with Cons show ?case by simp
qed

lemma mod_mult_split: "0 < b \<Longrightarrow> 0 < c \<Longrightarrow> (a::int) mod (b * c) = a mod b + b * (a div b mod c)"
  by (simp add: zmod_zmult2_eq)

lemma le_dec_enc [enc_simps]: "le_dec (le_enc n v) = v mod 256 ^ n"
proof (induction n arbitrary: v)
  case 0
  show ?case by simp
next
  case (Suc n)
  have "uint (word_of_int v :: byte) = v mod 256"
    by (simp add: uint_word_of_int)
  then show ?case
    using mod_mult_split [of 256 "256 ^ n" v] Suc by simp
qed

lemma le_enc_dec [enc_simps]: "le_enc (length bs) (le_dec bs) = bs"
proof (induction bs)
  case Nil
  show ?case by simp
next
  case (Cons b bs)
  have r: "0 \<le> uint b" "uint b < 256" using uint_lt2p [of b] by auto
  then have "(uint b + 256 * le_dec bs) div 256 = le_dec bs" by simp
  moreover have "(word_of_int (uint b + 256 * le_dec bs) :: byte) = b"
  proof -
    have z: "(256 :: byte) = 0" by simp
    have "(word_of_int (uint b + 256 * le_dec bs) :: byte) = b + 256 * word_of_int (le_dec bs)"
      by simp
    also have "\<dots> = b" by (subst z) simp
    finally show ?thesis .
  qed
  ultimately show ?case using Cons by simp
qed

lemma le_enc_cong: "v mod 256 ^ n = w mod 256 ^ n \<Longrightarrow> le_enc n v = le_enc n w"
  by (metis le_dec_enc le_enc_dec length_le_enc)

lemma le_sdec_enc [enc_simps]:
  assumes n: "0 < n" and lo: "- (256 ^ n) \<le> 2 * v" and hi: "2 * v < 256 ^ n"
  shows "le_sdec (le_enc n v) = v"
proof (cases "0 \<le> v")
  case True
  then have "v mod 256 ^ n = v"
    using hi by (intro mod_pos_pos_trivial) auto
  with hi show ?thesis by (simp add: le_sdec_def le_dec_enc)
next
  case False
  have "v mod 256 ^ n = (v + 256 ^ n) mod 256 ^ n" by simp
  also have "\<dots> = v + 256 ^ n"
    using False lo by (intro mod_pos_pos_trivial) auto
  finally show ?thesis using lo by (simp add: le_sdec_def le_dec_enc)
qed

lemma le_enc_sdec [enc_simps]: "le_enc (length bs) (le_sdec bs) = bs"
proof -
  have "le_sdec bs mod 256 ^ length bs = le_dec bs mod 256 ^ length bs"
    by (auto simp: le_sdec_def Let_def)
  then show ?thesis using le_enc_cong le_enc_dec by metis
qed

lemma le_sdec_bounds:
  "- (256 ^ length bs) \<le> 2 * le_sdec bs" "2 * le_sdec bs < 256 ^ length bs"
  using le_dec_less [of bs] le_dec_nonneg [of bs] by (auto simp: le_sdec_def Let_def)

text \<open>An integer variable as it lies in the memory of the host, and how it is read back.\<close>

definition native_bytes :: "host \<Rightarrow> nat \<Rightarrow> int \<Rightarrow> buf" where
  "native_bytes h n v = (if big_endian h then rev (le_enc n v) else le_enc n v)"

definition native_val :: "host \<Rightarrow> buf \<Rightarrow> int" where
  "native_val h bs = le_dec (if big_endian h then rev bs else bs)"

definition native_sval :: "host \<Rightarrow> buf \<Rightarrow> int" where
  "native_sval h bs = le_sdec (if big_endian h then rev bs else bs)"

lemma length_native_bytes [simp]: "length (native_bytes h n v) = n"
  by (simp add: native_bytes_def)

lemma native_val_bytes [enc_simps]: "native_val h (native_bytes h n v) = v mod 256 ^ n"
  by (simp add: native_val_def native_bytes_def le_dec_enc)

section \<open>Lists\<close>

lemma take_drop_eq_nth_cons: "i < length xs \<Longrightarrow> drop i xs = xs ! i # drop (Suc i) xs"
  by (simp add: Cons_nth_drop_Suc)

lemma list_update_take_drop: "i < length xs \<Longrightarrow> xs[i := v] = take i xs @ v # drop (Suc i) xs"
  by (rule upd_conv_take_nth_drop)

text \<open>Inserting and deleting at a position, the list operations that the array code implements.\<close>

definition ins_at :: "nat \<Rightarrow> 'a \<Rightarrow> 'a list \<Rightarrow> 'a list" where
  "ins_at i x xs = take i xs @ x # drop i xs"

definition del_at :: "nat \<Rightarrow> 'a list \<Rightarrow> 'a list" where
  "del_at i xs = take i xs @ drop (Suc i) xs"

lemma set_ins_at [simp]: "set (ins_at i x xs) = insert x (set xs)"
  by (simp add: ins_at_def)
     (metis Un_commute append_take_drop_id set_append)

lemma length_ins_at [simp]: "length (ins_at i x xs) = Suc (length xs)"
  by (simp add: ins_at_def min_def)

lemma length_del_at [simp]: "i < length xs \<Longrightarrow> length (del_at i xs) = length xs - 1"
  by (simp add: del_at_def)

lemma set_del_at:
  assumes "distinct xs" and "i < length xs"
  shows "set (del_at i xs) = set xs - {xs ! i}"
proof -
  have "xs = take i xs @ xs ! i # drop (Suc i) xs"
    using assms(2) by (rule id_take_nth_drop)
  with assms(1) show ?thesis
    by (simp add: del_at_def) (metis Diff_insert_absorb Un_insert_right
        distinct.simps(2) distinct_append list.simps(15) not_distinct_conv_prefix set_append Un_iff)
qed

end
