(* ===== verification/Endianconv.thy ===== *)
theory Endianconv
  imports Redis_Prelude
begin

text \<open>
  \<^verbatim>\<open>endianconv.c\<close> and \<^verbatim>\<open>endianconv.h\<close>: reversing the bytes of an integer
  in memory, and the variants that do so on big-endian hosts only. The
  functions take the buffer and the offset that the C pointer stands for.
\<close>

section \<open>Definitions\<close>

text \<open>\<open>t = x[i]; x[i] = x[j]; x[j] = t;\<close>\<close>

definition swap_bytes :: "buf \<Rightarrow> nat \<Rightarrow> nat \<Rightarrow> buf option" where
  "swap_bytes x i j = do {
     t \<leftarrow> nth_opt x i;
     u \<leftarrow> nth_opt x j;
     x \<leftarrow> upd_opt x i u;
     upd_opt x j t }"

definition memrev16 :: "buf \<Rightarrow> nat \<Rightarrow> buf option" where
  "memrev16 x p = swap_bytes x p (p + 1)"

definition memrev32 :: "buf \<Rightarrow> nat \<Rightarrow> buf option" where
  "memrev32 x p = do {
     x \<leftarrow> swap_bytes x p (p + 3);
     swap_bytes x (p + 1) (p + 2) }"

definition memrev64 :: "buf \<Rightarrow> nat \<Rightarrow> buf option" where
  "memrev64 x p = do {
     x \<leftarrow> swap_bytes x p (p + 7);
     x \<leftarrow> swap_bytes x (p + 1) (p + 6);
     x \<leftarrow> swap_bytes x (p + 2) (p + 5);
     swap_bytes x (p + 3) (p + 4) }"

text \<open>
  \<open>memrev16(&v)\<close> on a local variable works on the bytes that the host uses for \<open>v\<close>;
  these are as many as the function touches.
\<close>

definition intrev16 :: "host \<Rightarrow> 16 word \<Rightarrow> 16 word" where
  "intrev16 h v = word_of_int (native_val h (the (memrev16 (native_bytes h 2 (uint v)) 0)))"

definition intrev32 :: "host \<Rightarrow> 32 word \<Rightarrow> 32 word" where
  "intrev32 h v = word_of_int (native_val h (the (memrev32 (native_bytes h 4 (uint v)) 0)))"

definition intrev64 :: "host \<Rightarrow> 64 word \<Rightarrow> 64 word" where
  "intrev64 h v = word_of_int (native_val h (the (memrev64 (native_bytes h 8 (uint v)) 0)))"

definition memrev16ifbe :: "host \<Rightarrow> buf \<Rightarrow> nat \<Rightarrow> buf option" where
  "memrev16ifbe h x p = (if big_endian h then memrev16 x p else Some x)"

definition memrev32ifbe :: "host \<Rightarrow> buf \<Rightarrow> nat \<Rightarrow> buf option" where
  "memrev32ifbe h x p = (if big_endian h then memrev32 x p else Some x)"

definition memrev64ifbe :: "host \<Rightarrow> buf \<Rightarrow> nat \<Rightarrow> buf option" where
  "memrev64ifbe h x p = (if big_endian h then memrev64 x p else Some x)"

definition intrev16ifbe :: "host \<Rightarrow> 16 word \<Rightarrow> 16 word" where
  "intrev16ifbe h v = (if big_endian h then intrev16 h v else v)"

definition intrev32ifbe :: "host \<Rightarrow> 32 word \<Rightarrow> 32 word" where
  "intrev32ifbe h v = (if big_endian h then intrev32 h v else v)"

definition intrev64ifbe :: "host \<Rightarrow> 64 word \<Rightarrow> 64 word" where
  "intrev64ifbe h v = (if big_endian h then intrev64 h v else v)"

definition htonu64 :: "host \<Rightarrow> 64 word \<Rightarrow> 64 word" where
  "htonu64 h v = (if big_endian h then v else intrev64 h v)"

definition ntohu64 :: "host \<Rightarrow> 64 word \<Rightarrow> 64 word" where
  "ntohu64 h v = (if big_endian h then v else intrev64 h v)"

section \<open>Reversal of bytes in memory\<close>

lemma nth_opt_append: "nth_opt (xs @ ys) (length xs + k) = nth_opt ys k"
  by (simp add: nth_opt_def nth_append)

lemma upd_opt_append: "upd_opt (xs @ ys) (length xs + k) v = map_option ((@) xs) (upd_opt ys k v)"
  by (simp add: upd_opt_def list_update_append)

lemma swap_bytes_append:
  "swap_bytes (xs @ ys) (length xs + i) (length xs + j) = map_option ((@) xs) (swap_bytes ys i j)"
proof -
  have "upd_opt (xs @ ys) (length xs) v = map_option ((@) xs) (upd_opt ys 0 v)" for v
    using upd_opt_append [of xs ys 0] by simp
  then show ?thesis
    by (simp add: swap_bytes_def nth_opt_append upd_opt_append nth_opt_def upd_opt_def
        list_update_append)
qed

lemma drop_eq_8:
  assumes "p + 8 \<le> length b"
  obtains a0 a1 a2 a3 a4 a5 a6 a7 r where "drop p b = [a0, a1, a2, a3, a4, a5, a6, a7] @ r"
proof -
  have "8 \<le> length (drop p b)" using assms by simp
  then show ?thesis
    using that by (auto simp: numeral_eq_Suc Suc_le_length_iff simp del: length_drop)
qed

lemma drop_eq_4:
  assumes "p + 4 \<le> length b"
  obtains a0 a1 a2 a3 r where "drop p b = [a0, a1, a2, a3] @ r"
proof -
  have "4 \<le> length (drop p b)" using assms by simp
  then show ?thesis
    using that by (auto simp: numeral_eq_Suc Suc_le_length_iff simp del: length_drop)
qed

lemma drop_eq_2:
  assumes "p + 2 \<le> length b"
  obtains a0 a1 r where "drop p b = [a0, a1] @ r"
proof -
  have "2 \<le> length (drop p b)" using assms by simp
  then show ?thesis
    using that by (auto simp: numeral_eq_Suc Suc_le_length_iff simp del: length_drop)
qed

lemmas swap_eval = swap_bytes_def nth_opt_def upd_opt_def

lemma swap_bytes_drop:
  assumes "p \<le> length b"
  shows "swap_bytes b (p + i) (p + j) = map_option ((@) (take p b)) (swap_bytes (drop p b) i j)"
proof -
  have "length (take p b) = p" using assms by simp
  then show ?thesis using swap_bytes_append [of "take p b" "drop p b" i j] by simp
qed

lemma drop_more: "drop p b = xs @ r \<Longrightarrow> drop (p + length xs) b = r"
  by (metis append_eq_conv_conj drop_drop add.commute)

lemma memrev16_rev [buf_simps]:
  assumes "p + 2 \<le> length b"
  shows "memrev16 b p = Some (take p b @ rev (take 2 (drop p b)) @ drop (p + 2) b)"
proof -
  from assms obtain a0 a1 r where d: "drop p b = [a0, a1] @ r" by (rule drop_eq_2)
  have "drop (p + 2) b = r" using drop_more [OF d] by (simp add: eval_nat_numeral)
  moreover have "p \<le> length b" using assms by simp
  ultimately show ?thesis
    using swap_bytes_drop [of p b 0 1] d
    by (simp add: memrev16_def swap_eval)
qed

lemma memrev32_rev [buf_simps]:
  assumes "p + 4 \<le> length b"
  shows "memrev32 b p = Some (take p b @ rev (take 4 (drop p b)) @ drop (p + 4) b)"
proof -
  from assms obtain a0 a1 a2 a3 r where d: "drop p b = [a0, a1, a2, a3] @ r" by (rule drop_eq_4)
  have r: "drop (p + 4) b = r" using drop_more [OF d] by (simp add: eval_nat_numeral)
  have p: "p \<le> length b" "length (take p b) = p" using assms by auto
  have "swap_bytes b p (p + 3) = Some (take p b @ [a3, a1, a2, a0] @ r)"
    using swap_bytes_drop [OF p(1), of 0 3] d by (simp add: swap_eval)
  moreover have "swap_bytes (take p b @ [a3, a1, a2, a0] @ r) (p + 1) (p + 2)
      = Some (take p b @ [a3, a2, a1, a0] @ r)"
    using swap_bytes_append [of "take p b" "[a3, a1, a2, a0] @ r" 1 2] p by (simp add: swap_eval)
  ultimately show ?thesis using d r by (simp add: memrev32_def)
qed

lemma memrev64_rev [buf_simps]:
  assumes "p + 8 \<le> length b"
  shows "memrev64 b p = Some (take p b @ rev (take 8 (drop p b)) @ drop (p + 8) b)"
proof -
  from assms obtain a0 a1 a2 a3 a4 a5 a6 a7 r
    where d: "drop p b = [a0, a1, a2, a3, a4, a5, a6, a7] @ r" by (rule drop_eq_8)
  have r: "drop (p + 8) b = r" using drop_more [OF d] by (simp add: eval_nat_numeral)
  have p: "p \<le> length b" "length (take p b) = p" using assms by auto
  note sw = swap_bytes_append [of "take p b", unfolded p(2)]
  have "swap_bytes b p (p + 7) = Some (take p b @ [a7, a1, a2, a3, a4, a5, a6, a0] @ r)"
    using swap_bytes_drop [OF p(1), of 0 7] d by (simp add: swap_eval)
  moreover have "swap_bytes (take p b @ [a7, a1, a2, a3, a4, a5, a6, a0] @ r) (p + 1) (p + 6)
      = Some (take p b @ [a7, a6, a2, a3, a4, a5, a1, a0] @ r)"
    using sw [of "[a7, a1, a2, a3, a4, a5, a6, a0] @ r" 1 6] by (simp add: swap_eval)
  moreover have "swap_bytes (take p b @ [a7, a6, a2, a3, a4, a5, a1, a0] @ r) (p + 2) (p + 5)
      = Some (take p b @ [a7, a6, a5, a3, a4, a2, a1, a0] @ r)"
    using sw [of "[a7, a6, a2, a3, a4, a5, a1, a0] @ r" 2 5] by (simp add: swap_eval)
  moreover have "swap_bytes (take p b @ [a7, a6, a5, a3, a4, a2, a1, a0] @ r) (p + 3) (p + 4)
      = Some (take p b @ [a7, a6, a5, a4, a3, a2, a1, a0] @ r)"
    using sw [of "[a7, a6, a5, a3, a4, a2, a1, a0] @ r" 3 4] by (simp add: swap_eval)
  ultimately show ?thesis using d r by (simp add: memrev64_def)
qed

section \<open>Reversal of integer values\<close>

text \<open>The result does not depend on how the host stores integers.\<close>

lemma intrev16_rev: "intrev16 h v = word_of_int (le_dec (rev (le_enc 2 (uint v))))"
  by (simp add: intrev16_def memrev16_rev native_bytes_def native_val_def)

lemma intrev32_rev: "intrev32 h v = word_of_int (le_dec (rev (le_enc 4 (uint v))))"
  by (simp add: intrev32_def memrev32_rev native_bytes_def native_val_def)

lemma intrev64_rev: "intrev64 h v = word_of_int (le_dec (rev (le_enc 8 (uint v))))"
  by (simp add: intrev64_def memrev64_rev native_bytes_def native_val_def)

lemma le_enc_rev_rev: "le_enc n (le_dec (rev (le_enc n v))) = rev (le_enc n v)"
  using le_enc_dec [of "rev (le_enc n v)"] by simp

lemma le_dec_rev_less: "le_dec (rev (le_enc n v)) < 256 ^ n"
  using le_dec_less [of "rev (le_enc n v)"] by simp

lemma word_mod_uint: "word_of_int (uint v mod 2 ^ LENGTH('a)) = (v :: 'a::len word)"
  using uint_lt2p [of v] by (simp add: mod_pos_pos_trivial)

lemma intrev16_invol [simp]: "intrev16 h (intrev16 h v) = v"
proof -
  let ?r = "le_dec (rev (le_enc 2 (uint v)))"
  have "uint (word_of_int ?r :: 16 word) = ?r"
    using le_dec_nonneg le_dec_rev_less [of 2 "uint v"]
    by (intro word_of_int_inverse) auto
  then show ?thesis using word_mod_uint [of v] by (simp add: intrev16_rev le_enc_rev_rev le_dec_enc)
qed

lemma intrev32_invol [simp]: "intrev32 h (intrev32 h v) = v"
proof -
  let ?r = "le_dec (rev (le_enc 4 (uint v)))"
  have "uint (word_of_int ?r :: 32 word) = ?r"
    using le_dec_nonneg le_dec_rev_less [of 4 "uint v"]
    by (intro word_of_int_inverse) auto
  then show ?thesis using word_mod_uint [of v] by (simp add: intrev32_rev le_enc_rev_rev le_dec_enc)
qed

lemma intrev64_invol [simp]: "intrev64 h (intrev64 h v) = v"
proof -
  let ?r = "le_dec (rev (le_enc 8 (uint v)))"
  have "uint (word_of_int ?r :: 64 word) = ?r"
    using le_dec_nonneg le_dec_rev_less [of 8 "uint v"]
    by (intro word_of_int_inverse) auto
  then show ?thesis using word_mod_uint [of v] by (simp add: intrev64_rev le_enc_rev_rev le_dec_enc)
qed

lemma intrev32ifbe_invol [simp]: "intrev32ifbe h (intrev32ifbe h v) = v"
  by (simp add: intrev32ifbe_def)

text \<open>
  A 32 bit variable that holds a converted value has the little-endian bytes of
  that value on every host.
\<close>

lemma native_bytes_intrev32ifbe [enc_simps]:
  "native_bytes h 4 (uint (intrev32ifbe h v)) = le_enc 4 (uint v)"
proof (cases "big_endian h")
  case True
  let ?r = "le_dec (rev (le_enc 4 (uint v)))"
  have "uint (word_of_int ?r :: 32 word) = ?r"
    using le_dec_nonneg le_dec_rev_less [of 4 "uint v"]
    by (intro word_of_int_inverse) auto
  with True show ?thesis
    by (simp add: native_bytes_def intrev32ifbe_def intrev32_rev le_enc_rev_rev)
next
  case False
  then show ?thesis by (simp add: native_bytes_def intrev32ifbe_def)
qed

end
