(* ===== verification/Int_Set_Spec.thy ===== *)
theory Int_Set_Spec
  imports Redis_Prelude
begin

text \<open>
  What a client of a set of integers may rely on: the contract that the
  integer sets of \<^verbatim>\<open>intset.c\<close> fulfil and that the set type of
  \<^verbatim>\<open>t_set.c\<close> uses. The operations are partial functions, since a call that
  breaks the preconditions has undefined behaviour.
\<close>

text \<open>Adding several values in order, and how many of them were new.\<close>

fun add_all :: "('s \<Rightarrow> int \<Rightarrow> ('s \<times> bool) option) \<Rightarrow> 's \<Rightarrow> int list \<Rightarrow> ('s \<times> nat) option" where
  "add_all add s [] = Some (s, 0)"
| "add_all add s (v # vs) = do {
     (s, new) \<leftarrow> add s v;
     (s, n) \<leftarrow> add_all add s vs;
     Some (s, (if new then Suc n else n)) }"

locale int_set_spec =
  fixes inv :: "'s \<Rightarrow> bool" and elems :: "'s \<Rightarrow> int list" and dom :: "int \<Rightarrow> bool"
    and cap :: nat
    and new :: 's
    and add :: "'s \<Rightarrow> int \<Rightarrow> ('s \<times> bool) option"
    and remove :: "'s \<Rightarrow> int \<Rightarrow> ('s \<times> bool) option"
    and find :: "'s \<Rightarrow> int \<Rightarrow> bool option"
  assumes inv_sorted: "inv s \<Longrightarrow> sorted_wrt (<) (elems s)"
    and new_inv: "inv new" and new_elems: "elems new = []"
    and add_spec: "inv s \<Longrightarrow> length (elems s) < cap \<Longrightarrow> dom v \<Longrightarrow>
      \<exists>s'. add s v = Some (s', v \<notin> set (elems s)) \<and> inv s' \<and> set (elems s') = insert v (set (elems s))"
    and remove_spec: "inv s \<Longrightarrow> length (elems s) \<le> cap \<Longrightarrow> dom v \<Longrightarrow>
      \<exists>s'. remove s v = Some (s', v \<in> set (elems s)) \<and> inv s' \<and> set (elems s') = set (elems s) - {v}"
    and find_spec: "inv s \<Longrightarrow> length (elems s) \<le> cap \<Longrightarrow> dom v \<Longrightarrow> find s v = Some (v \<in> set (elems s))"
begin

lemma elems_sorted_list: "inv s \<Longrightarrow> elems s = sorted_list_of_set (set (elems s))"
  by (metis inv_sorted sorted_list_of_set.idem_if_sorted_distinct strict_sorted_iff)

lemma length_elems: "inv s \<Longrightarrow> length (elems s) = card (set (elems s))"
  by (metis inv_sorted distinct_card strict_sorted_iff)

lemma add_all_spec:
  assumes "inv s" and "length (elems s) + length vs \<le> cap" and "list_all dom vs"
  shows "\<exists>s'. add_all add s vs = Some (s', card (set vs - set (elems s))) \<and> inv s' \<and>
    set (elems s') = set (elems s) \<union> set vs"
  using assms
proof (induction vs arbitrary: s)
  case Nil
  then show ?case by simp
next
  case (Cons v vs)
  then obtain s1 where s1: "add s v = Some (s1, v \<notin> set (elems s))" "inv s1"
    "set (elems s1) = insert v (set (elems s))"
    using add_spec [of s v] by auto
  have "length (elems s1) \<le> Suc (length (elems s))"
    using length_elems [OF s1(2)] length_elems [OF Cons.prems(1)] s1(3)
    by (simp add: card_insert_le_m1 card_insert_if)
  then have "length (elems s1) + length vs \<le> cap" "list_all dom vs" using Cons.prems by auto
  then obtain s2 where s2: "add_all add s1 vs = Some (s2, card (set vs - set (elems s1)))"
    "inv s2" "set (elems s2) = set (elems s1) \<union> set vs"
    using Cons.IH [OF s1(2)] by blast
  have "set (v # vs) - set (elems s) =
      (if v \<in> set (elems s) then set vs - set (elems s1) else insert v (set vs - set (elems s1)))"
    using s1(3) by auto
  moreover have "v \<notin> set vs - set (elems s1)" using s1(3) by simp
  ultimately have "card (set (v # vs) - set (elems s)) =
      (if v \<in> set (elems s) then card (set vs - set (elems s1)) else Suc (card (set vs - set (elems s1))))"
    by simp
  with s1 s2 show ?case by auto
qed

corollary add_all_new:
  assumes "length vs \<le> cap" and "list_all dom vs"
  shows "\<exists>s'. add_all add new vs = Some (s', card (set vs)) \<and> inv s' \<and>
    elems s' = sorted_list_of_set (set vs)"
proof -
  obtain s' where s': "add_all add new vs = Some (s', card (set vs - set (elems new)))" "inv s'"
    "set (elems s') = set (elems new) \<union> set vs"
    using add_all_spec [OF new_inv, of vs] assms by (auto simp: new_elems)
  then have "elems s' = sorted_list_of_set (set vs)"
    using elems_sorted_list [OF s'(2)] by (simp add: new_elems)
  with s' show ?thesis by (simp add: new_elems)
qed

lemma remove_find:
  assumes "inv s" and "length (elems s) \<le> cap" and "dom v" and "dom w"
  shows "\<exists>s' b. remove s v = Some (s', b) \<and> find s' w = Some (w \<in> set (elems s) \<and> w \<noteq> v)"
proof -
  obtain s' where s': "remove s v = Some (s', v \<in> set (elems s))" "inv s'"
    "set (elems s') = set (elems s) - {v}"
    using remove_spec assms by blast
  have "length (elems s') \<le> length (elems s)"
    using length_elems [OF s'(2)] length_elems [OF assms(1)] s'(3) by (simp add: card_Diff1_le)
  then have "find s' w = Some (w \<in> set (elems s'))"
    using find_spec s'(2) assms by simp
  with s' show ?thesis by auto
qed

end

end
