(* ===== verification/Intset.thy ===== *)
theory Intset
  imports Endianconv Int_Set_Spec
begin

text \<open>
  \<^verbatim>\<open>intset.c\<close>: a set of integers as a sorted packed array, whose elements
  take 2, 4 or 8 bytes. The struct has the fields \<open>encoding\<close> and \<open>length\<close> as
  they lie in memory (little-endian on every host) and the bytes of
  \<open>contents\<close>. The theory proves that each operation implements the same
  operation on the sorted list of the elements, with every access in bounds
  and every loop ending, on little- and on big-endian hosts.
\<close>

section \<open>Definitions\<close>

record intset =
  is_encoding :: "32 word"
  is_length :: "32 word"
  is_contents :: buf

abbreviation INTSET_ENC_INT16 :: nat where "INTSET_ENC_INT16 \<equiv> 2"
abbreviation INTSET_ENC_INT32 :: nat where "INTSET_ENC_INT32 \<equiv> 4"
abbreviation INTSET_ENC_INT64 :: nat where "INTSET_ENC_INT64 \<equiv> 8"

definition intsetValueEncoding :: "int \<Rightarrow> nat" where
  "intsetValueEncoding v =
     (if v < - (2 ^ 31) \<or> v > 2 ^ 31 - 1 then INTSET_ENC_INT64
      else if v < - (2 ^ 15) \<or> v > 2 ^ 15 - 1 then INTSET_ENC_INT32
      else INTSET_ENC_INT16)"

text \<open>
  \<open>((int64_t*)is->contents)+pos\<close> is the byte offset \<open>8 * pos\<close>; a negative position is
  outside of the object.
\<close>

definition intsetGetEncoded :: "host \<Rightarrow> intset \<Rightarrow> int \<Rightarrow> nat \<Rightarrow> int option" where
  "intsetGetEncoded h s pos enc =
     (if pos < 0 then None
      else if enc = INTSET_ENC_INT64 then do {
        v64 \<leftarrow> load_bytes (is_contents s) (nat pos * 8) 8;
        v64 \<leftarrow> memrev64ifbe h v64 0;
        Some (native_sval h v64) }
      else if enc = INTSET_ENC_INT32 then do {
        v32 \<leftarrow> load_bytes (is_contents s) (nat pos * 4) 4;
        v32 \<leftarrow> memrev32ifbe h v32 0;
        Some (native_sval h v32) }
      else do {
        v16 \<leftarrow> load_bytes (is_contents s) (nat pos * 2) 2;
        v16 \<leftarrow> memrev16ifbe h v16 0;
        Some (native_sval h v16) })"

definition intsetGet_priv :: "host \<Rightarrow> intset \<Rightarrow> int \<Rightarrow> int option" where
  "intsetGet_priv h s pos =
     intsetGetEncoded h s pos (unat (intrev32ifbe h (is_encoding s)) mod 256)"

definition intsetSet :: "host \<Rightarrow> intset \<Rightarrow> int \<Rightarrow> int \<Rightarrow> intset option" where
  "intsetSet h s pos value =
     (let encoding = unat (intrev32ifbe h (is_encoding s)) in
      if pos < 0 then None
      else if encoding = INTSET_ENC_INT64 then do {
        b \<leftarrow> store_bytes (is_contents s) (nat pos * 8) (native_bytes h 8 value);
        b \<leftarrow> memrev64ifbe h b (nat pos * 8);
        Some (s\<lparr>is_contents := b\<rparr>) }
      else if encoding = INTSET_ENC_INT32 then do {
        b \<leftarrow> store_bytes (is_contents s) (nat pos * 4) (native_bytes h 4 value);
        b \<leftarrow> memrev32ifbe h b (nat pos * 4);
        Some (s\<lparr>is_contents := b\<rparr>) }
      else do {
        b \<leftarrow> store_bytes (is_contents s) (nat pos * 2) (native_bytes h 2 value);
        b \<leftarrow> memrev16ifbe h b (nat pos * 2);
        Some (s\<lparr>is_contents := b\<rparr>) })"

definition intsetNew :: "host \<Rightarrow> intset" where
  "intsetNew h = \<lparr>is_encoding = intrev32ifbe h 2, is_length = 0, is_contents = []\<rparr>"

text \<open>The size is computed in 32 bits and wraps around.\<close>

definition intsetResize :: "host \<Rightarrow> intset \<Rightarrow> 32 word \<Rightarrow> intset" where
  "intsetResize h s len =
     (let size = len * intrev32ifbe h (is_encoding s)
      in s\<lparr>is_contents := realloc h (is_contents s) (unat size)\<rparr>)"

text \<open>The loop of \<open>intsetSearch\<close>; the result holds the final \<open>min\<close>, \<open>mid\<close> and \<open>cur\<close>.\<close>

partial_function (option) intsetSearch_loop ::
  "host \<Rightarrow> intset \<Rightarrow> int \<Rightarrow> int \<Rightarrow> int \<Rightarrow> int \<Rightarrow> int \<Rightarrow> (int \<times> int \<times> int) option" where
  "intsetSearch_loop h s value mn mx mid cur =
     (if mx \<ge> mn then
        (let mid = (mn mod 2 ^ 32 + mx mod 2 ^ 32) mod 2 ^ 32 div 2 in
         Option.bind (intsetGet_priv h s mid) (\<lambda>cur.
           if value > cur then intsetSearch_loop h s value (mid + 1) mx mid cur
           else if value < cur then intsetSearch_loop h s value mn (mid - 1) mid cur
           else Some (mn, mid, cur)))
      else Some (mn, mid, cur))"

definition intsetSearch :: "host \<Rightarrow> intset \<Rightarrow> int \<Rightarrow> (bool \<times> 32 word) option" where
  "intsetSearch h s value =
     (let len = intrev32ifbe h (is_length s); mx = sint (len - 1) in
      if len = 0 then Some (False, 0)
      else do {
        vmax \<leftarrow> intsetGet_priv h s mx;
        if value > vmax then Some (False, len)
        else do {
          v0 \<leftarrow> intsetGet_priv h s 0;
          if value < v0 then Some (False, 0)
          else do {
            (mn, mid, cur) \<leftarrow> intsetSearch_loop h s value 0 mx (-1) (-1);
            if value = cur then Some (True, word_of_int mid)
            else Some (False, word_of_int mn) } } })"

text \<open>\<open>while(length--) _intsetSet(is,length+prepend,_intsetGetEncoded(is,length,curenc));\<close>\<close>

fun intsetUpgrade_loop :: "host \<Rightarrow> intset \<Rightarrow> nat \<Rightarrow> int \<Rightarrow> nat \<Rightarrow> intset option" where
  "intsetUpgrade_loop h s 0 prepend curenc = Some s"
| "intsetUpgrade_loop h s (Suc n) prepend curenc = do {
     v \<leftarrow> intsetGetEncoded h s (int n) curenc;
     s \<leftarrow> intsetSet h s (int n + prepend) v;
     intsetUpgrade_loop h s n prepend curenc }"

text \<open>
  The loop counter is a signed \<open>int\<close>: a length beyond \<open>INT_MAX\<close> becomes negative and
  the first iteration reads outside of the object.
\<close>

definition intsetUpgradeAndAdd :: "host \<Rightarrow> intset \<Rightarrow> int \<Rightarrow> intset option" where
  "intsetUpgradeAndAdd h s value =
     (let curenc = unat (intrev32ifbe h (is_encoding s)) mod 256;
          newenc = intsetValueEncoding value;
          len = sint (intrev32ifbe h (is_length s));
          prepend = (if value < 0 then 1 else 0 :: int);
          s = s\<lparr>is_encoding := intrev32ifbe h (of_nat newenc)\<rparr>;
          s = intsetResize h s (intrev32ifbe h (is_length s) + 1)
      in if len < 0 then None
      else do {
        s \<leftarrow> intsetUpgrade_loop h s (nat len) prepend curenc;
        s \<leftarrow> (if prepend \<noteq> 0 then intsetSet h s 0 value
              else intsetSet h s (sint (intrev32ifbe h (is_length s))) value);
        Some (s\<lparr>is_length := intrev32ifbe h (intrev32ifbe h (is_length s) + 1)\<rparr>) })"

definition intsetMoveTail :: "host \<Rightarrow> intset \<Rightarrow> 32 word \<Rightarrow> 32 word \<Rightarrow> intset option" where
  "intsetMoveTail h s from to =
     (let bytes = intrev32ifbe h (is_length s) - from;
          encoding = unat (intrev32ifbe h (is_encoding s));
          (src, dst, bytes) =
            (if encoding = INTSET_ENC_INT64 then (unat from * 8, unat to * 8, bytes * 8)
             else if encoding = INTSET_ENC_INT32 then (unat from * 4, unat to * 4, bytes * 4)
             else (unat from * 2, unat to * 2, bytes * 2))
      in do {
        b \<leftarrow> memmove (is_contents s) dst src (unat bytes);
        Some (s\<lparr>is_contents := b\<rparr>) })"

text \<open>The second component is what \<open>*success\<close> is set to.\<close>

definition intsetAdd :: "host \<Rightarrow> intset \<Rightarrow> int \<Rightarrow> (intset \<times> bool) option" where
  "intsetAdd h s value =
     (let valenc = intsetValueEncoding value in
      if valenc > unat (intrev32ifbe h (is_encoding s))
      then do { s \<leftarrow> intsetUpgradeAndAdd h s value; Some (s, True) }
      else do {
        (found, pos) \<leftarrow> intsetSearch h s value;
        if found then Some (s, False)
        else do {
          s \<leftarrow> Some (intsetResize h s (intrev32ifbe h (is_length s) + 1));
          s \<leftarrow> (if pos < intrev32ifbe h (is_length s)
                then intsetMoveTail h s pos (pos + 1) else Some s);
          s \<leftarrow> intsetSet h s (sint pos) value;
          Some (s\<lparr>is_length := intrev32ifbe h (intrev32ifbe h (is_length s) + 1)\<rparr>, True) } })"

definition intsetRemove :: "host \<Rightarrow> intset \<Rightarrow> int \<Rightarrow> (intset \<times> bool) option" where
  "intsetRemove h s value =
     (let valenc = intsetValueEncoding value in
      if valenc \<le> unat (intrev32ifbe h (is_encoding s)) then do {
        (found, pos) \<leftarrow> intsetSearch h s value;
        if found then do {
          len \<leftarrow> Some (intrev32ifbe h (is_length s));
          s \<leftarrow> (if pos < len - 1 then intsetMoveTail h s (pos + 1) pos else Some s);
          s \<leftarrow> Some (intsetResize h s (len - 1));
          Some (s\<lparr>is_length := intrev32ifbe h (len - 1)\<rparr>, True) }
        else Some (s, False) }
      else Some (s, False))"

definition intsetFind :: "host \<Rightarrow> intset \<Rightarrow> int \<Rightarrow> bool option" where
  "intsetFind h s value =
     (let valenc = intsetValueEncoding value in
      if valenc \<le> unat (intrev32ifbe h (is_encoding s))
      then map_option fst (intsetSearch h s value)
      else Some False)"

text \<open>\<open>r\<close> is the result of \<open>rand()\<close>; the remainder by a length of 0 is undefined.\<close>

definition intsetRandom :: "host \<Rightarrow> intset \<Rightarrow> nat \<Rightarrow> int option" where
  "intsetRandom h s r =
     (let len = intrev32ifbe h (is_length s) in
      if len = 0 then None else intsetGet_priv h s (int (r mod unat len)))"

text \<open>\<open>None\<close> outside is undefined behaviour; the inner option is the value with return code 1, or 0.\<close>

definition intsetGet :: "host \<Rightarrow> intset \<Rightarrow> 32 word \<Rightarrow> int option option" where
  "intsetGet h s pos =
     (if pos < intrev32ifbe h (is_length s)
      then map_option Some (intsetGet_priv h s (sint pos)) else Some None)"

definition intsetLen :: "host \<Rightarrow> intset \<Rightarrow> 32 word" where
  "intsetLen h s = intrev32ifbe h (is_length s)"

text \<open>\<open>sizeof(intset)\<close> is 8; the product is computed in 32 bits.\<close>

definition intsetBlobLen :: "host \<Rightarrow> intset \<Rightarrow> nat" where
  "intsetBlobLen h s = 8 + unat (intrev32ifbe h (is_length s) * intrev32ifbe h (is_encoding s))"

section \<open>Packed arrays\<close>

text \<open>\<open>pack e xs\<close> are the bytes of an array of integers with \<open>e\<close> bytes each.\<close>

definition pack :: "nat \<Rightarrow> int list \<Rightarrow> buf" where
  "pack e xs = concat (map (le_enc e) xs)"

definition fits :: "nat \<Rightarrow> int \<Rightarrow> bool" where
  "fits e v \<longleftrightarrow> - (256 ^ e) \<le> 2 * v \<and> 2 * v < 256 ^ e"

lemma length_pack [simp]: "length (pack e xs) = e * length xs"
  by (induction xs) (auto simp: pack_def)

lemma pack_Nil [simp]: "pack e [] = []"
  by (simp add: pack_def)

lemma pack_Cons [simp]: "pack e (x # xs) = le_enc e x @ pack e xs"
  by (simp add: pack_def)

lemma pack_append [simp]: "pack e (xs @ ys) = pack e xs @ pack e ys"
  by (simp add: pack_def)

lemma take_pack: "take (i * e) (pack e xs) = pack e (take i xs)"
proof (induction xs arbitrary: i)
  case (Cons x xs)
  then show ?case by (cases i) (auto simp: add.commute)
qed simp

lemma drop_pack: "drop (i * e) (pack e xs) = pack e (drop i xs)"
proof (induction xs arbitrary: i)
  case (Cons x xs)
  then show ?case by (cases i) (auto simp: add.commute)
qed simp

lemma slot_pack: "i < length xs \<Longrightarrow> take e (drop (i * e) (pack e xs)) = le_enc e (xs ! i)"
  by (simp add: drop_pack take_drop_eq_nth_cons)

lemma drop_pack_Suc: "drop (i * e + e) (pack e xs) = pack e (drop (Suc i) xs)"
  using drop_pack [of "Suc i" e xs] by (simp add: add.commute)

lemma slot_le: "i < n \<Longrightarrow> i * e + e \<le> e * (n::nat)"
proof -
  assume "i < n"
  then have "Suc i * e \<le> n * e" by (intro mult_le_mono1) simp
  then show ?thesis by (simp add: mult.commute add.commute)
qed

lemma store_pack:
  assumes "i < length xs"
  shows "store_bytes (pack e xs) (i * e) (le_enc e v) = Some (pack e (xs[i := v]))"
proof -
  have "i * e + e \<le> e * length xs" using assms by (rule slot_le)
  then show ?thesis
    using assms by (simp add: store_bytes_def take_pack drop_pack_Suc list_update_take_drop)
qed

lemma memmove_pack:
  assumes "src + n \<le> length xs" and "dst + n \<le> length xs"
  shows "memmove (pack e xs) (dst * e) (src * e) (n * e) =
    Some (pack e (take dst xs @ take n (drop src xs) @ drop (dst + n) xs))"
proof -
  have "src * e + n * e \<le> e * length xs" "dst * e + n * e \<le> e * length xs"
    using assms mult_le_mono1 [of _ "length xs" e]
    by (metis add_mult_distrib mult.commute)+
  moreover have "drop (dst * e + n * e) (pack e xs) = pack e (drop (dst + n) xs)"
    using drop_pack [of "dst + n" e xs] by (simp add: add_mult_distrib)
  ultimately show ?thesis
    by (simp add: memmove_Some take_pack drop_pack)
qed

text \<open>The bytes that a reallocation adds are some integer, so the buffer stays a packed array.\<close>

lemma realloc_pack_grow:
  obtains j where "realloc h (pack e xs) (e * Suc (length xs)) = pack e (xs @ [j])"
proof
  let ?t = "map (fresh h) [e * length xs..<e * Suc (length xs)]"
  have "length ?t = e" by simp
  then have "le_enc e (le_sdec ?t) = ?t" using le_enc_sdec [of ?t] by simp
  then show "realloc h (pack e xs) (e * Suc (length xs)) = pack e (xs @ [le_sdec ?t])"
    by (simp add: realloc_def)
qed

lemma realloc_pack_shrink:
  assumes "n \<le> length xs"
  shows "realloc h (pack e xs) (e * n) = pack e (take n xs)"
  using assms take_pack [of n e xs] by (simp add: realloc_shrink mult.commute)

lemma le_sdec_fits: "0 < e \<Longrightarrow> fits e v \<Longrightarrow> le_sdec (le_enc e v) = v"
  by (simp add: fits_def le_sdec_enc)

lemma fits_mono: "fits e v \<Longrightarrow> e \<le> e' \<Longrightarrow> fits e' v"
proof -
  assume a: "fits e v" "e \<le> e'"
  have "(256::int) ^ e \<le> 256 ^ e'" using a(2) by (intro power_increasing) auto
  moreover have "- (256 ^ e) \<le> 2 * v" "2 * v < 256 ^ e" using a(1) by (auto simp: fits_def)
  ultimately show ?thesis unfolding fits_def by linarith
qed

lemma fits_valueEncoding:
  "- (2 ^ 63) \<le> v \<Longrightarrow> v < 2 ^ 63 \<Longrightarrow> e \<in> {2, 4, 8} \<Longrightarrow> fits e v \<longleftrightarrow> intsetValueEncoding v \<le> e"
  by (auto simp: fits_def intsetValueEncoding_def)

lemma valueEncoding_cases: "intsetValueEncoding v \<in> {2, 4, 8}"
  by (simp add: intsetValueEncoding_def)

section \<open>Well-formed integer sets\<close>

abbreviation enc_of :: "host \<Rightarrow> intset \<Rightarrow> nat" where
  "enc_of h s \<equiv> unat (intrev32ifbe h (is_encoding s))"

abbreviation len_of :: "host \<Rightarrow> intset \<Rightarrow> nat" where
  "len_of h s \<equiv> unat (intrev32ifbe h (is_length s))"

fun unpack :: "nat \<Rightarrow> nat \<Rightarrow> buf \<Rightarrow> int list" where
  "unpack e 0 b = []"
| "unpack e (Suc n) b = le_sdec (take e b) # unpack e n (drop e b)"

definition intset_list :: "host \<Rightarrow> intset \<Rightarrow> int list" where
  "intset_list h s = unpack (enc_of h s) (len_of h s) (is_contents s)"

definition intset_wf :: "host \<Rightarrow> intset \<Rightarrow> bool" where
  "intset_wf h s \<longleftrightarrow>
     enc_of h s \<in> {2, 4, 8} \<and>
     length (is_contents s) = enc_of h s * len_of h s \<and>
     sorted_wrt (<) (intset_list h s)"

text \<open>
  The representation relation behind it: the struct has encoding \<open>e\<close> and its
  contents are the array of the integers \<open>xs\<close>, of which the first \<open>length\<close>
  ones are the elements.
\<close>

definition intset_rep :: "host \<Rightarrow> intset \<Rightarrow> nat \<Rightarrow> int list \<Rightarrow> bool" where
  "intset_rep h s e xs \<longleftrightarrow>
     enc_of h s = e \<and> e \<in> {2, 4, 8} \<and> is_contents s = pack e xs"

lemma unpack_pack: "0 < e \<Longrightarrow> list_all (fits e) xs \<Longrightarrow> unpack e (length xs) (pack e xs @ r) = xs"
  by (induction xs) (auto simp: le_sdec_fits)

lemma pack_unpack: "length b = e * n \<Longrightarrow> pack e (unpack e n b) = b"
proof (induction n arbitrary: b)
  case (Suc n)
  have "le_enc e (le_sdec (take e b)) = take e b"
    using Suc.prems le_enc_sdec [of "take e b"] by simp
  with Suc show ?case by simp
qed simp

lemma length_unpack [simp]: "length (unpack e n b) = n"
  by (induction n arbitrary: b) auto

lemma unpack_fits: "length b = e * n \<Longrightarrow> list_all (fits e) (unpack e n b)"
proof (induction n arbitrary: b)
  case (Suc n)
  have "length (take e b) = e" using Suc.prems by simp
  then have "fits e (le_sdec (take e b))"
    using le_sdec_bounds [of "take e b"] by (simp add: fits_def)
  with Suc show ?case by simp
qed simp

lemma intset_wfE:
  assumes "intset_wf h s"
  obtains "intset_rep h s (enc_of h s) (intset_list h s)" "list_all (fits (enc_of h s)) (intset_list h s)"
    "sorted_wrt (<) (intset_list h s)" "len_of h s = length (intset_list h s)"
proof -
  have w: "enc_of h s \<in> {2, 4, 8}" "length (is_contents s) = enc_of h s * len_of h s"
    "sorted_wrt (<) (intset_list h s)"
    using assms unfolding intset_wf_def by blast+
  have "is_contents s = pack (enc_of h s) (intset_list h s)"
    unfolding intset_list_def using pack_unpack [OF w(2)] by (rule sym)
  moreover have "list_all (fits (enc_of h s)) (intset_list h s)"
    unfolding intset_list_def using w(2) by (rule unpack_fits)
  moreover have "len_of h s = length (intset_list h s)"
    by (simp add: intset_list_def)
  ultimately show thesis using that w unfolding intset_rep_def by blast
qed

lemma intset_wfI:
  assumes "intset_rep h s e xs" and "list_all (fits e) xs" and "sorted_wrt (<) xs"
    and "len_of h s = length xs"
  shows "intset_wf h s" and "intset_list h s = xs"
proof -
  have e: "enc_of h s = e" "0 < e" "is_contents s = pack e xs" "e \<in> {2, 4, 8}"
    using assms(1) by (auto simp: intset_rep_def)
  then show l: "intset_list h s = xs"
    using unpack_pack [of e xs "[]"] assms(2,4) by (simp add: intset_list_def)
  show "intset_wf h s"
    using e l assms(3,4) by (simp add: intset_wf_def)
qed

section \<open>Reading and writing elements\<close>

lemma native_sval_rev: "native_sval h (if big_endian h then rev bs else bs) = le_sdec bs"
  by (simp add: native_sval_def)

lemma intsetGetEncoded_slot:
  assumes "e \<in> {2, 4, 8}" and "n * e + e \<le> length (is_contents s)"
  shows "intsetGetEncoded h s (int n) e = Some (le_sdec (take e (drop (n * e) (is_contents s))))"
  using assms
  by (auto simp: intsetGetEncoded_def load_bytes_def memrev16ifbe_def memrev32ifbe_def
      memrev64ifbe_def memrev16_rev memrev32_rev memrev64_rev native_sval_def)

lemma store_native:
  assumes "e \<in> {2, 4, 8}" and "n * e + e \<le> length b"
  shows "do { b \<leftarrow> store_bytes b (n * e) (native_bytes h e v);
      (if e = 8 then memrev64ifbe h b (n * e) else if e = 4 then memrev32ifbe h b (n * e)
       else memrev16ifbe h b (n * e)) } = store_bytes b (n * e) (le_enc e v)"
  using assms
  by (auto simp: store_bytes_def memrev16ifbe_def memrev32ifbe_def
      memrev64ifbe_def memrev16_rev memrev32_rev memrev64_rev native_bytes_def min_def)

lemma intsetSet_store:
  assumes e: "enc_of h s = e" "e \<in> {2, 4, 8}" and n: "n * e + e \<le> length (is_contents s)"
  shows "intsetSet h s (int n) v =
    map_option (\<lambda>b. s\<lparr>is_contents := b\<rparr>) (store_bytes (is_contents s) (n * e) (le_enc e v))"
proof -
  have "intsetSet h s (int n) v =
    map_option (\<lambda>b. s\<lparr>is_contents := b\<rparr>)
      (do { b \<leftarrow> store_bytes (is_contents s) (n * e) (native_bytes h e v);
        (if e = 8 then memrev64ifbe h b (n * e) else if e = 4 then memrev32ifbe h b (n * e)
         else memrev16ifbe h b (n * e)) })"
    using e by (auto simp: intsetSet_def Let_def map_option_case split: bind_splits option.splits)
  then show ?thesis by (simp only: store_native [OF e(2) n])
qed

lemma intsetGet_rep:
  assumes "intset_rep h s e xs" and "i < length xs" and "fits e (xs ! i)"
  shows "intsetGet_priv h s (int i) = Some (xs ! i)"
proof -
  from assms(1) have e: "enc_of h s = e" "e \<in> {2, 4, 8}" "is_contents s = pack e xs"
    by (auto simp: intset_rep_def)
  moreover have "e mod 256 = e" "0 < e" using e(2) by auto
  ultimately show ?thesis
    using assms(2,3) slot_le [of i "length xs" e]
    by (simp add: intsetGet_priv_def intsetGetEncoded_slot slot_pack le_sdec_fits)
qed

lemma intsetSet_rep:
  assumes "intset_rep h s e xs" and "i < length xs"
  shows "intsetSet h s (int i) v = Some (s\<lparr>is_contents := pack e (xs[i := v])\<rparr>)"
proof -
  from assms(1) have e: "enc_of h s = e" "e \<in> {2, 4, 8}" "is_contents s = pack e xs"
    by (auto simp: intset_rep_def)
  have "i * e + e \<le> length (is_contents s)"
    using e(3) slot_le [OF assms(2), of e] by simp
  then show ?thesis
    using e(3) store_pack [OF assms(2)] by (simp add: intsetSet_store [OF e(1,2)])
qed

section \<open>Binary search\<close>

text \<open>
  What the loop returns: either the position of the value, or the position before
  which all elements are smaller and from which on all are greater.
\<close>

definition search_ok :: "int list \<Rightarrow> int \<Rightarrow> int \<times> int \<times> int \<Rightarrow> bool" where
  "search_ok xs v r = (case r of (mn, mid, cur) \<Rightarrow>
     if cur = v then 0 \<le> mid \<and> nat mid < length xs \<and> xs ! nat mid = v
     else 0 \<le> mn \<and> nat mn \<le> length xs \<and> (\<forall>x \<in> set (take (nat mn) xs). x < v) \<and>
       (\<forall>x \<in> set (drop (nat mn) xs). v < x))"

lemma mid_eq:
  assumes "0 \<le> mn" and "mn \<le> mx" and "mx < 2 ^ 31"
  shows "(mn mod 2 ^ 32 + mx mod 2 ^ 32) mod 2 ^ 32 div 2 = (mn + mx) div (2::int)"
  using assms by (simp add: mod_pos_pos_trivial)

lemma less_before: "sorted_wrt (<) xs \<Longrightarrow> i < length xs \<Longrightarrow> \<forall>x \<in> set (take i xs). x < xs ! i"
  for xs :: "int list"
  by (metis in_set_conv_nth length_take min.absorb4 nth_take sorted_wrt_nth_less)

lemma greater_after: "sorted_wrt (<) xs \<Longrightarrow> i < length xs \<Longrightarrow> \<forall>x \<in> set (drop (Suc i) xs). xs ! i < x"
  for xs :: "int list"
  by (metis id_take_nth_drop sorted_wrt_append sorted_wrt.simps(2))

lemma less_before_Suc:
  fixes xs :: "int list"
  assumes "sorted_wrt (<) xs" "i < length xs" "xs ! i < v"
  shows "\<forall>x \<in> set (take (Suc i) xs). x < v"
  using less_before [OF assms(1,2)] assms(2,3) by (auto simp: take_Suc_conv_app_nth)

lemma greater_after_eq:
  fixes xs :: "int list"
  assumes "sorted_wrt (<) xs" "i < length xs" "v < xs ! i"
  shows "\<forall>x \<in> set (drop i xs). v < x"
  using greater_after [OF assms(1,2)] assms(2,3) by (auto simp: take_drop_eq_nth_cons)

lemma intsetSearch_loop_correct:
  assumes rep: "intset_rep h s e xs" and fit: "list_all (fits e) xs"
    and srt: "sorted_wrt (<) xs" and len: "length xs < 2 ^ 31"
    and bnd: "0 \<le> mn" "mn \<le> mx + 1" "mx < int (length xs)"
    and lo: "\<forall>x \<in> set (take (nat mn) xs). x < v"
    and hi: "\<forall>x \<in> set (drop (nat (mx + 1)) xs). v < x"
    and cur: "mx < mn \<Longrightarrow> cur \<noteq> v"
  shows "\<exists>r. intsetSearch_loop h s v mn mx mid cur = Some r \<and> search_ok xs v r"
  using bnd lo hi cur
proof (induction "nat (mx - mn + 1)" arbitrary: mn mx mid cur rule: less_induct)
  case less
  show ?case
  proof (cases "mn \<le> mx")
    case False
    then have "nat mn = nat (mx + 1)" using less.prems by simp
    with False less.prems show ?thesis
      by (subst intsetSearch_loop.simps) (auto simp: search_ok_def)
  next
    case True
    define m where "m = (mn + mx) div 2"
    have m: "mn \<le> m" "m \<le> mx" "0 \<le> m" "nat m < length xs"
      using True less.prems unfolding m_def by auto
    have mx31: "mx < 2 ^ 31" using less.prems len by simp
    have get: "intsetGet_priv h s m = Some (xs ! nat m)"
      using intsetGet_rep [OF rep m(4)] fit m by (simp add: list_all_length)
    have step: "intsetSearch_loop h s v mn mx mid cur =
      (if v > xs ! nat m then intsetSearch_loop h s v (m + 1) mx m (xs ! nat m)
       else if v < xs ! nat m then intsetSearch_loop h s v mn (m - 1) m (xs ! nat m)
       else Some (mn, m, xs ! nat m))"
      by (subst intsetSearch_loop.simps)
         (simp add: True mid_eq [OF less.prems(1) True mx31, folded m_def] get del: power_numeral)
    consider "v > xs ! nat m" | "v < xs ! nat m" | "v = xs ! nat m" by linarith
    then show ?thesis
    proof cases
      case 1
      have "nat (m + 1) = Suc (nat m)" using m by simp
      then have "\<forall>x \<in> set (take (nat (m + 1)) xs). x < v"
        using less_before_Suc [OF srt m(4)] 1 by simp
      then have "\<exists>r. intsetSearch_loop h s v (m + 1) mx m (xs ! nat m) = Some r \<and> search_ok xs v r"
        using less.prems m 1 by (intro less.hyps) auto
      with 1 step show ?thesis by simp
    next
      case 2
      then have "\<forall>x \<in> set (drop (nat (m - 1 + 1)) xs). v < x"
        using greater_after_eq [OF srt m(4)] by simp
      then have "\<exists>r. intsetSearch_loop h s v mn (m - 1) m (xs ! nat m) = Some r \<and> search_ok xs v r"
        using less.prems m 2 by (intro less.hyps) auto
      with 2 step show ?thesis by simp
    next
      case 3
      with step m show ?thesis by (simp add: search_ok_def)
    qed
  qed
qed

text \<open>The position where a sorted list holds a value, or where it has to be inserted.\<close>

definition spos :: "int list \<Rightarrow> int \<Rightarrow> nat" where
  "spos xs v = length (takeWhile (\<lambda>x. x < v) xs)"

lemma sposI:
  assumes "p \<le> length xs" and "\<forall>x \<in> set (take p xs). x < v"
    and "p < length xs \<Longrightarrow> v \<le> xs ! p"
  shows "spos xs v = p"
proof (cases "p < length xs")
  case True
  then have "xs = take p xs @ xs ! p # drop (Suc p) xs" by (rule id_take_nth_drop)
  then have "takeWhile (\<lambda>x. x < v) xs = take p xs"
    using assms True by (metis linorder_not_less takeWhile_append2 takeWhile.simps(2) append_Nil2)
  then show ?thesis using assms(1) by (simp add: spos_def)
next
  case False
  with assms(1) have "p = length xs" by simp
  with assms(2) have "takeWhile (\<lambda>x. x < v) xs = xs" by simp
  then have "length (takeWhile (\<lambda>x. x < v) xs) = length xs" by (rule arg_cong)
  then show ?thesis using \<open>p = length xs\<close> unfolding spos_def by (rule trans [OF _ sym])
qed

lemma spos_le: "spos xs v \<le> length xs"
  by (simp add: spos_def length_takeWhile_le)

lemma le_last: "sorted_wrt (<) xs \<Longrightarrow> x \<in> set xs \<Longrightarrow> x \<le> last xs"
  for xs :: "int list"
  by (induction xs) (auto dest: last_in_set intro: less_imp_le)

lemma sint_small:
  assumes "unat w < 2 ^ 31"
  shows "sint (w :: 32 word) = int (unat w)"
proof -
  have "int (unat w) < int (2 ^ 31)" using assms by (simp only: of_nat_less_iff)
  then have "uint w < 2 ^ 31" by simp
  moreover have "- (2 ^ 31) \<le> uint w" by (rule order_trans [of _ 0]) auto
  ultimately have "signed_take_bit 31 (uint w) = uint w"
    by (intro signed_take_bit_int_eq_self)
  then show ?thesis by (simp add: sint_uint)
qed

lemma sint_len_minus:
  fixes w :: "32 word"
  assumes "0 < unat w" and "unat w < 2 ^ 31"
  shows "sint (w - 1) = int (unat w) - 1"
proof -
  have "w \<noteq> 0" using assms(1) by auto
  then have u: "unat (w - 1) = unat w - 1" by (simp add: unat_minus_one)
  then have "unat (w - 1) < 2 ^ 31" using assms by simp
  then have "sint (w - 1) = int (unat (w - 1))" by (rule sint_small)
  with u assms(1) show ?thesis by simp
qed

lemma intsetSearch_correct:
  assumes rep: "intset_rep h s e xs" and fit: "list_all (fits e) xs"
    and srt: "sorted_wrt (<) xs" and len: "len_of h s = length xs" "length xs < 2 ^ 31"
  shows "intsetSearch h s v = Some (v \<in> set xs, of_nat (spos xs v))"
proof (cases "xs = []")
  case True
  with len have "intrev32ifbe h (is_length s) = 0" by (simp add: unat_eq_zero)
  with True show ?thesis by (simp add: intsetSearch_def spos_def)
next
  case False
  define L where "L = intrev32ifbe h (is_length s)"
  note len = len [folded L_def]
  note def = intsetSearch_def [of h s v, folded L_def, unfolded Let_def]
  have ne: "L \<noteq> 0" and pos: "0 < unat L" using False len by auto
  have mx: "sint (L - 1) = int (length xs - 1)"
    using sint_len_minus [OF pos] len False by (simp add: of_nat_diff Suc_leI)
  have lst: "intsetGet_priv h s (sint (L - 1)) = Some (last xs)"
    unfolding mx using intsetGet_rep [OF rep, of "length xs - 1"] fit False
    by (simp add: list_all_length last_conv_nth)
  have fst': "intsetGet_priv h s 0 = Some (hd xs)"
    using intsetGet_rep [OF rep, of 0] fit False by (simp add: list_all_length hd_conv_nth)
  have max_last: "\<forall>x \<in> set xs. x \<le> last xs"
    using le_last [OF srt] by blast
  show ?thesis
  proof (cases "v > last xs")
    case True
    then have "v \<notin> set xs" "spos xs v = length xs"
      using max_last by (fastforce, intro sposI) (auto dest: in_set_takeD)
    moreover have "of_nat (unat L) = L" by simp
    moreover have "intsetSearch h s v = Some (False, L)"
      using True ne by (simp add: def lst)
    ultimately show ?thesis unfolding len(1) by simp
  next
    case F1: False
    show ?thesis
    proof (cases "v < hd xs")
      case True
      have "\<forall>x \<in> set xs. hd xs \<le> x" using srt False by (cases xs) auto
      then have "v \<notin> set xs" "spos xs v = 0"
        using True False by (fastforce, intro sposI) (auto simp: hd_conv_nth)
      with True F1 ne show ?thesis
        by (simp add: def lst fst')
    next
      case F2: False
      obtain mn mid cur where r: "intsetSearch_loop h s v 0 (sint (L - 1)) (-1) (-1) = Some (mn, mid, cur)"
        and ok: "search_ok xs v (mn, mid, cur)"
        unfolding mx using intsetSearch_loop_correct [OF rep fit srt len(2), of 0 "int (length xs - 1)" v "-1" "-1"] False
        by (auto simp: Suc_nat_eq_nat_zadd1)
      have s: "intsetSearch h s v = (if v = cur then Some (True, word_of_int mid) else Some (False, word_of_int mn))"
        using F1 F2 ne by (simp add: def lst fst' r)
      show ?thesis
      proof (cases "cur = v")
        case True
        with ok have m: "0 \<le> mid" "nat mid < length xs" "xs ! nat mid = v"
          by (auto simp: search_ok_def)
        then have "spos xs v = nat mid"
          using less_before [OF srt m(2)] by (intro sposI) auto
        with s m True show ?thesis by (auto simp: in_set_conv_nth)
      next
        case F3: False
        with ok have m: "0 \<le> mn" "nat mn \<le> length xs" "\<forall>x \<in> set (take (nat mn) xs). x < v"
          "\<forall>x \<in> set (drop (nat mn) xs). v < x" by (auto simp: search_ok_def)
        have "nat mn < length xs \<Longrightarrow> v \<le> xs ! nat mn"
          using m(4) by (simp add: take_drop_eq_nth_cons)
        then have "spos xs v = nat mn" using m by (intro sposI) auto
        moreover have "v \<notin> set xs"
          using m(3,4) by (metis append_take_drop_id less_irrefl set_append Un_iff)
        ultimately show ?thesis using s m F3 by simp
      qed
    qed
  qed
qed

section \<open>Sorted insertion and deletion\<close>

lemma take_spos: "take (spos xs v) xs = takeWhile (\<lambda>x. x < v) xs"
  by (metis spos_def takeWhile_eq_take)

lemma drop_spos: "drop (spos xs v) xs = dropWhile (\<lambda>x. x < v) xs"
  by (metis spos_def dropWhile_eq_drop)

lemma sorted_dropWhile_ge:
  fixes xs :: "int list"
  shows "sorted_wrt (<) xs \<Longrightarrow> x \<in> set (dropWhile (\<lambda>x. x < v) xs) \<Longrightarrow> v \<le> x"
  by (induction xs) (auto split: if_splits)

lemma sorted_ins_spos:
  assumes "sorted_wrt (<) xs" and "v \<notin> set xs"
  shows "sorted_wrt (<) (ins_at (spos xs v) v xs)"
proof -
  have "sorted_wrt (<) (takeWhile (\<lambda>x. x < v) xs @ dropWhile (\<lambda>x. x < v) xs)"
    using assms(1) by simp
  moreover have "\<forall>x \<in> set (takeWhile (\<lambda>x. x < v) xs). x < v"
    by (auto dest: set_takeWhileD)
  moreover have "\<forall>x \<in> set (dropWhile (\<lambda>x. x < v) xs). v < x"
    using sorted_dropWhile_ge [OF assms(1)] assms(2)
    by (metis order.not_eq_order_implies_strict set_dropWhileD)
  ultimately show ?thesis
    unfolding ins_at_def take_spos drop_spos
    by (auto simp: sorted_wrt_append intro: less_trans [of _ v])
qed

lemma spos_nth: "sorted_wrt (<) xs \<Longrightarrow> v \<in> set xs \<Longrightarrow> spos xs v < length xs \<and> xs ! spos xs v = v"
proof -
  assume srt: "sorted_wrt (<) xs" and "v \<in> set xs"
  then obtain i where i: "i < length xs" "xs ! i = v" by (auto simp: in_set_conv_nth)
  then have "spos xs v = i" using less_before [OF srt i(1)] by (intro sposI) auto
  with i show ?thesis by simp
qed

lemma sorted_del_at: "sorted_wrt (<) xs \<Longrightarrow> sorted_wrt (<) (del_at i xs)"
  for xs :: "int list"
proof -
  assume a: "sorted_wrt (<) xs"
  then have "sorted_wrt (<) (take i xs @ drop i xs)" by simp
  then have "\<forall>x \<in> set (take i xs). \<forall>y \<in> set (drop i xs). x < y"
    unfolding sorted_wrt_append by blast
  moreover have "set (drop (Suc i) xs) \<subseteq> set (drop i xs)" by (simp add: set_drop_subset_set_drop)
  ultimately show ?thesis
    using a unfolding del_at_def sorted_wrt_append by (auto simp: sorted_wrt_take sorted_wrt_drop)
qed

text \<open>A value that needs a wider encoding lies outside of the range of all elements.\<close>

lemma ins_at_extreme:
  assumes "list_all (fits e) xs" and "\<not> fits e v"
  shows "ins_at (spos xs v) v xs = (if v < 0 then v # xs else xs @ [v])" and "v \<notin> set xs"
proof -
  have b: "- (256 ^ e) \<le> 2 * x" "2 * x < 256 ^ e" if "x \<in> set xs" for x
    using assms(1) that by (auto simp: list_all_iff fits_def)
  show "v \<notin> set xs" using assms by (auto simp: list_all_iff)
  have p: "(0::int) < 256 ^ e" by simp
  show "ins_at (spos xs v) v xs = (if v < 0 then v # xs else xs @ [v])"
  proof (cases "v < 0")
    case True
    then have "2 * v < - (256 ^ e)" using assms(2) p unfolding fits_def by linarith
    then have "v \<le> x" if "x \<in> set xs" for x using b(1) [OF that] by linarith
    then have "spos xs v = 0" by (intro sposI) auto
    with True show ?thesis by (simp add: ins_at_def)
  next
    case False
    then have "256 ^ e \<le> 2 * v" using assms(2) p unfolding fits_def by linarith
    then have "x < v" if "x \<in> set xs" for x using b(2) [OF that] by linarith
    then have "spos xs v = length xs" by (intro sposI) auto
    with False show ?thesis by (simp add: ins_at_def)
  qed
qed

section \<open>Upgrading the encoding\<close>

text \<open>
  The loop copies from the back: the elements below \<open>n\<close> are still in the old
  encoding at the front of the buffer, and from slot \<open>n + prepend\<close> of the new
  encoding on the elements from \<open>n\<close> on are in place.
\<close>

lemma intsetUpgrade_loop_correct:
  assumes "enc_of h s = e" "e \<in> {2, 4, 8}" and "c \<in> {2, 4, 8}" "c \<le> e"
    and "list_all (fits c) xs" and "p \<in> {0, 1}" and "n \<le> length xs"
    and "length (is_contents s) = e * Suc (length xs)"
    and "take (n * c) (is_contents s) = pack c (take n xs)"
    and "drop ((n + p) * e) (is_contents s) = pack e (drop n xs) @ t"
  shows "\<exists>b. intsetUpgrade_loop h s n (int p) c = Some (s\<lparr>is_contents := b\<rparr>) \<and>
    length b = e * Suc (length xs) \<and> drop (p * e) b = pack e xs @ t"
  using assms
proof (induction n arbitrary: s)
  case 0
  then show ?case by (intro exI [of _ "is_contents s"]) auto
next
  case (Suc n)
  let ?b = "is_contents s"
  have n: "n < length xs" using Suc.prems by simp
  have le1: "n * c + c \<le> length ?b"
  proof -
    have "n * c + c \<le> c * length xs" using n by (rule slot_le)
    also have "\<dots> \<le> e * Suc (length xs)" using Suc.prems(4) by (intro mult_le_mono) auto
    finally show ?thesis using Suc.prems by simp
  qed
  have le2: "(n + p) * e + e \<le> length ?b"
    using slot_le [of "n + p" "Suc (length xs)" e] n Suc.prems by auto
  have "take c (drop (n * c) ?b) = take c (drop (n * c) (take (Suc n * c) ?b))"
    by (simp add: drop_take)
  also have "\<dots> = le_enc c (xs ! n)"
    using Suc.prems(9) n slot_pack [of n "take (Suc n) xs" c] by simp
  finally have "intsetGetEncoded h s (int n) c = Some (xs ! n)"
    using Suc.prems n
    by (simp only: intsetGetEncoded_slot [OF Suc.prems(3) le1])
       (auto simp: le_sdec_fits list_all_length)
  moreover define b where "b = take ((n + p) * e) ?b @ le_enc e (xs ! n) @ drop ((n + p) * e + e) ?b"
  have "intsetSet h s (int (n + p)) (xs ! n) = Some (s\<lparr>is_contents := b\<rparr>)"
    unfolding intsetSet_store [OF Suc.prems(1,2) le2] b_def
    using store_bytes_Some [of "(n + p) * e" "le_enc e (xs ! n)" ?b] le2 by simp
  moreover have "\<exists>b'. intsetUpgrade_loop h (s\<lparr>is_contents := b\<rparr>) n (int p) c =
      Some (s\<lparr>is_contents := b\<rparr>\<lparr>is_contents := b'\<rparr>) \<and>
    length b' = e * Suc (length xs) \<and> drop (p * e) b' = pack e xs @ t"
  proof (rule Suc.IH)
    have "n * c \<le> (n + p) * e" using Suc.prems(4) by (intro mult_le_mono) auto
    moreover have "take (n * c) ?b = pack c (take n xs)"
    proof -
      have "take (n * c) ?b = take (n * c) (take (Suc n * c) ?b)" by simp
      also have "\<dots> = pack c (take n xs)"
        using Suc.prems(9) take_pack [of n c "take (Suc n) xs"] by (simp add: min_def)
      finally show ?thesis .
    qed
    ultimately show "take (n * c) (is_contents (s\<lparr>is_contents := b\<rparr>)) = pack c (take n xs)"
      using le2 by (simp add: b_def min_def)
    show "length (is_contents (s\<lparr>is_contents := b\<rparr>)) = e * Suc (length xs)"
      using le2 Suc.prems(8) by (simp add: b_def min_def)
    have "drop ((n + p) * e + e) ?b = pack e (drop (Suc n) xs) @ t"
      using Suc.prems(10) by (simp add: add.commute)
    then show "drop ((n + p) * e) (is_contents (s\<lparr>is_contents := b\<rparr>)) = pack e (drop n xs) @ t"
      using le2 n by (simp add: b_def min_def take_drop_eq_nth_cons)
  qed (use Suc.prems in auto)
  ultimately show ?case by (simp add: of_nat_add)
qed

section \<open>The operations\<close>

abbreviation int64 :: "int \<Rightarrow> bool" where
  "int64 v \<equiv> - (2 ^ 63) \<le> v \<and> v < 2 ^ 63"

text \<open>There is room for one more element: the size of the array stays below \<open>2 ^ 32\<close>.\<close>

definition intset_room :: "host \<Rightarrow> intset \<Rightarrow> bool" where
  "intset_room h s \<longleftrightarrow> (len_of h s + 1) * 8 < 2 ^ 32"

lemma intsetResize_rep:
  assumes "intset_rep h s e xs" and "unat w = n" and "n * 8 < 2 ^ 32"
  shows "intsetResize h s w = s\<lparr>is_contents := realloc h (pack e xs) (e * n)\<rparr>"
proof -
  from assms(1) have e: "enc_of h s = e" "e \<in> {2, 4, 8}" "is_contents s = pack e xs"
    by (auto simp: intset_rep_def)
  have "n * e \<le> n * 8" using e(2) by (intro mult_le_mono) auto
  then have "n * e < 2 ^ 32" using assms(3) by (rule le_less_trans)
  then have "unat w * enc_of h s < 2 ^ LENGTH(32)" using assms(2) e(1) by simp
  then have "unat (w * intrev32ifbe h (is_encoding s)) = n * e"
    unfolding unat_mult_lem using e(1) assms(2) by simp
  then show ?thesis using e(3) by (simp add: intsetResize_def Let_def mult.commute)
qed

lemma unat_Suc_word: "Suc (unat w) < 2 ^ 32 \<Longrightarrow> unat (w + 1 :: 32 word) = Suc (unat w)"
  using unat_add_lem [of w 1] by simp

lemma unat_of_nat32: "n < 2 ^ 32 \<Longrightarrow> unat (of_nat n :: 32 word) = n"
  by (simp add: unat_of_nat)

lemma sint_of_nat32:
  assumes "n < 2 ^ 31"
  shows "sint (of_nat n :: 32 word) = int n"
proof -
  have "unat (of_nat n :: 32 word) = n" using assms by (intro unat_of_nat32) simp
  then show ?thesis using sint_small [of "of_nat n"] assms by (simp only:)
qed

lemma intsetUpgradeAndAdd_correct:
  assumes rep: "intset_rep h s c xs" and fit: "list_all (fits c) xs" and len: "len_of h s = length xs"
    and room: "intset_room h s" and nofit: "\<not> fits c v" and v: "int64 v"
  shows "intsetUpgradeAndAdd h s v = Some \<lparr>
      is_encoding = intrev32ifbe h (of_nat (intsetValueEncoding v)),
      is_length = intrev32ifbe h (of_nat (Suc (length xs))),
      is_contents = pack (intsetValueEncoding v) (ins_at (spos xs v) v xs)\<rparr>"
proof -
  define e where "e = intsetValueEncoding v"
  define s1 where "s1 = s\<lparr>is_encoding := intrev32ifbe h (of_nat e)\<rparr>"
  define L where "L = intrev32ifbe h (is_length s)"
  define p where "p = (if v < 0 then 1 else 0 :: nat)"
  have c: "enc_of h s = c" "c \<in> {2, 4, 8}" "is_contents s = pack c xs"
    using rep by (auto simp: intset_rep_def)
  have e: "e \<in> {2, 4, 8}" "c \<le> e" "unat (of_nat e :: 32 word) = e" "c mod 256 = c"
    using fits_valueEncoding [of v c] v c(2) nofit valueEncoding_cases [of v]
    by (auto simp: e_def)
  have n: "length xs < 2 ^ 29" "unat L = length xs"
    using room len by (simp_all add: intset_room_def L_def)
  have Leq: "L = of_nat (length xs)" unfolding n(2) [symmetric] by simp
  have lenL: "unat (L + 1) = Suc (length xs)" using unat_Suc_word [of L] n by simp
  have sL: "sint L = int (length xs)" using sint_small [of L] n by simp
  let ?b = "realloc h (pack c xs) (e * Suc (length xs))"
  have res: "intsetResize h s1 (L + 1) = s1\<lparr>is_contents := ?b\<rparr>"
  proof -
    have "Suc (length xs) * e \<le> Suc (length xs) * 8" using e(1) by (intro mult_le_mono) auto
    also have "\<dots> < 2 ^ 32" using room len by (simp add: intset_room_def)
    finally have "unat ((L + 1) * of_nat e) = Suc (length xs) * e"
      using unat_mult_lem [of "L + 1" "of_nat e"] lenL e(3) by simp
    then show ?thesis using c(3) by (simp add: intsetResize_def s1_def Let_def mult.commute)
  qed
  have up: "\<exists>b. intsetUpgrade_loop h (s1\<lparr>is_contents := ?b\<rparr>) (length xs) (int p) c =
      Some (s1\<lparr>is_contents := ?b\<rparr>\<lparr>is_contents := b\<rparr>) \<and>
    length b = e * Suc (length xs) \<and>
    drop (p * e) b = pack e xs @ drop ((length xs + p) * e) ?b"
  proof (rule intsetUpgrade_loop_correct)
    have "length xs * c \<le> e * Suc (length xs)"
      unfolding mult.commute [of e] using e(2) by (intro mult_le_mono) auto
    then show "take (length xs * c) (is_contents (s1\<lparr>is_contents := ?b\<rparr>)) = pack c (take (length xs) xs)"
      using take_realloc [of "length xs * c" "e * Suc (length xs)" "pack c xs" h]
      by (simp add: mult.commute)
  qed (use e c fit p_def s1_def in auto)
  obtain b where up: "intsetUpgrade_loop h (s1\<lparr>is_contents := ?b\<rparr>) (length xs) (int p) c = Some (s1\<lparr>is_contents := b\<rparr>)"
    and lb: "length b = e * Suc (length xs)" and db: "drop (p * e) b = pack e xs @ drop ((length xs + p) * e) ?b"
    using up by auto
  have e1: "enc_of h (s1\<lparr>is_contents := b\<rparr>) = e" using e by (simp add: s1_def)
  have fin: "(if v < 0 then intsetSet h (s1\<lparr>is_contents := b\<rparr>) 0 v
      else intsetSet h (s1\<lparr>is_contents := b\<rparr>) (int (length xs)) v)
    = Some (s1\<lparr>is_contents := pack e (if v < 0 then v # xs else xs @ [v])\<rparr>)"
  proof (cases "v < 0")
    case True
    have "intsetSet h (s1\<lparr>is_contents := b\<rparr>) (int 0) v =
        map_option (\<lambda>b'. s1\<lparr>is_contents := b\<rparr>\<lparr>is_contents := b'\<rparr>) (store_bytes b (0 * e) (le_enc e v))"
      by (subst intsetSet_store [OF e1 e(1)]) (simp_all add: lb)
    moreover have "drop e b = pack e xs" using db True by (simp add: p_def add.commute)
    ultimately show ?thesis using True lb by (simp add: store_bytes_def)
  next
    case False
    have le: "length xs * e + e \<le> length b" using lb by (simp add: mult.commute add.commute)
    have "intsetSet h (s1\<lparr>is_contents := b\<rparr>) (int (length xs)) v =
        map_option (\<lambda>b'. s1\<lparr>is_contents := b\<rparr>\<lparr>is_contents := b'\<rparr>) (store_bytes b (length xs * e) (le_enc e v))"
      by (subst intsetSet_store [OF e1 e(1)]) (use le in simp_all)
    moreover have "take (length xs * e) b = pack e xs"
      using db False by (simp add: p_def mult.commute)
    moreover have "drop (length xs * e + e) b = []" using lb by (simp add: mult.commute add.commute)
    ultimately show ?thesis using False le by (simp add: store_bytes_def)
  qed
  have pp: "(if v < 0 then 1 else 0 :: int) = int p" by (simp add: p_def)
  have "intsetUpgradeAndAdd h s v =
    Some (s1\<lparr>is_contents := pack e (if v < 0 then v # xs else xs @ [v]),
      is_length := intrev32ifbe h (L + 1)\<rparr>)"
    using fin up res sL e(4)
    by (simp add: intsetUpgradeAndAdd_def Let_def c(1) pp flip: e_def L_def s1_def)
       (auto simp: p_def s1_def sL simp flip: L_def split: if_splits)
  moreover have "L + 1 = of_nat (Suc (length xs))" using Leq by simp
  ultimately show ?thesis
    using ins_at_extreme(1) [OF fit nofit] by (simp add: s1_def e_def)
qed

lemma intsetMoveTail_rep:
  assumes rep: "intset_rep h s e ys" and n: "len_of h s = n" "n * 8 < 2 ^ 32" and "unat from \<le> n"
    and "n \<le> length ys" and "unat to + (n - unat from) \<le> length ys"
  shows "intsetMoveTail h s from to = Some (s\<lparr>is_contents := pack e
    (take (unat to) ys @ take (n - unat from) (drop (unat from) ys) @
     drop (unat to + (n - unat from)) ys)\<rparr>)"
proof -
  define L where "L = intrev32ifbe h (is_length s)"
  define k where "k = n - unat from"
  have e: "enc_of h s = e" "e \<in> {2, 4, 8}" "is_contents s = pack e ys"
    using rep by (auto simp: intset_rep_def)
  have L: "unat L = n" using n(1) by (simp add: L_def)
  have "from \<le> L" using assms(4) L by (simp add: word_le_nat_alt)
  then have k: "unat (L - from) = k" using L by (simp add: unat_sub k_def)
  have "unat ((L - from) * of_nat e) = k * e"
  proof -
    have "k * e \<le> n * 8" using e(2) unfolding k_def by (intro mult_le_mono) auto
    then have "k * e < 2 ^ 32" using n(2) by (rule le_less_trans)
    moreover have "unat (of_nat e :: 32 word) = e" using e(2) by auto
    ultimately show ?thesis using unat_mult_lem [of "L - from" "of_nat e"] k by simp
  qed
  moreover have "memmove (pack e ys) (unat to * e) (unat from * e) (k * e) =
      Some (pack e (take (unat to) ys @ take k (drop (unat from) ys) @ drop (unat to + k) ys))"
    using assms(4-6) by (intro memmove_pack) (auto simp: k_def)
  moreover have "intsetMoveTail h s from to =
      map_option (\<lambda>b. s\<lparr>is_contents := b\<rparr>)
        (memmove (pack e ys) (unat to * e) (unat from * e) (unat ((L - from) * of_nat e)))"
    using e(2) unfolding intsetMoveTail_def Let_def e(1) e(3) L_def [symmetric]
    by (auto simp: map_conv_bind_option comp_def)
  ultimately show ?thesis by (simp add: k_def)
qed

lemma map_eq_ins_at: "p \<le> length xs \<Longrightarrow> (take (Suc p) (xs @ [j]) @ drop p xs)[p := v] = ins_at p v xs"
  by (cases "p = length xs")
     (auto simp: ins_at_def list_update_append take_Suc_conv_app_nth min_def)

lemma take_del_at: "p < length xs \<Longrightarrow> take (length xs - 1) (take p xs @ drop (Suc p) xs @ r) = del_at p xs"
proof -
  assume "p < length xs"
  then have "length (del_at p xs) = length xs - 1" by simp
  moreover have "take p xs @ drop (Suc p) xs @ r = del_at p xs @ r" by (simp add: del_at_def)
  ultimately show ?thesis by (metis append_eq_conv_conj)
qed

lemma intset_rep_contents: "intset_rep h s e xs \<Longrightarrow> intset_rep h (s\<lparr>is_contents := pack e ys\<rparr>) e ys"
  by (simp add: intset_rep_def)

text \<open>What \<open>intsetAdd\<close> does on a well-formed set: nothing, or a sorted insertion.\<close>

lemma intsetAdd_new:
  assumes wf: "intset_wf h s" and room: "intset_room h s" and v: "int64 v"
    and new: "v \<notin> set (intset_list h s)"
  shows "\<exists>s'. intsetAdd h s v = Some (s', True) \<and> intset_wf h s' \<and>
    intset_list h s' = ins_at (spos (intset_list h s) v) v (intset_list h s) \<and>
    enc_of h s' = max (enc_of h s) (intsetValueEncoding v)"
proof -
  define xs where "xs = intset_list h s"
  define e where "e = enc_of h s"
  define L where "L = intrev32ifbe h (is_length s)"
  have rep: "intset_rep h s e xs" and fit: "list_all (fits e) xs" and srt: "sorted_wrt (<) xs"
    and len: "len_of h s = length xs"
    using wf by (auto elim: intset_wfE simp: xs_def e_def)
  have e: "e \<in> {2, 4, 8}" "enc_of h s = e" "is_contents s = pack e xs"
    using rep by (auto simp: intset_rep_def)
  have n: "Suc (length xs) * 8 < 2 ^ 32" "unat L = length xs" "unat (L + 1) = Suc (length xs)"
    using room len unat_Suc_word [of L] by (simp_all add: intset_room_def L_def)
  have Leq: "L = of_nat (length xs)" unfolding n(2) [symmetric] by simp
  let ?ys = "ins_at (spos xs v) v xs"
  have srt': "sorted_wrt (<) ?ys" using sorted_ins_spos srt new by (simp add: xs_def)
  have "\<exists>s'. intsetAdd h s v = Some (s', True) \<and>
      intset_rep h s' (max e (intsetValueEncoding v)) ?ys \<and> len_of h s' = length ?ys"
  proof (cases "fits e v")
    case False
    then have gt: "e < intsetValueEncoding v" using fits_valueEncoding v e(1) by (metis linorder_not_less)
    let ?e = "intsetValueEncoding v"
    have c: "?e \<in> {2, 4, 8}" "unat (of_nat ?e :: 32 word) = ?e"
      using valueEncoding_cases [of v] by auto
    have "unat (of_nat (Suc (length xs)) :: 32 word) = Suc (length xs)"
      using n(1) by (intro unat_of_nat32) simp
    with c gt show ?thesis
      using intsetUpgradeAndAdd_correct [OF rep fit len room False v]
      by (simp add: intsetAdd_def e(2) intset_rep_def max_def del: of_nat_Suc)
  next
    case True
    then have le: "intsetValueEncoding v \<le> e" using fits_valueEncoding v e(1) by metis
    define p where "p = spos xs v"
    have p: "p \<le> length xs" using spos_le by (simp add: p_def)
    have up: "unat (of_nat p :: 32 word) = p" "sint (of_nat p :: 32 word) = int p"
      "p < length xs \<Longrightarrow> unat (of_nat p + 1 :: 32 word) = Suc p"
      using unat_of_nat32 [of p] sint_of_nat32 [of p] unat_Suc_word [of "of_nat p"] p n(1) by auto
    have srch: "intsetSearch h s v = Some (False, of_nat p)"
      using intsetSearch_correct [OF rep fit srt len] n(1) new by (simp add: p_def xs_def)
    obtain j where j: "realloc h (pack e xs) (e * Suc (length xs)) = pack e (xs @ [j])"
      by (rule realloc_pack_grow)
    define s1 where "s1 = s\<lparr>is_contents := pack e (xs @ [j])\<rparr>"
    have L1: "intrev32ifbe h (is_length s1) = L" by (simp add: s1_def L_def)
    have r1: "intset_rep h s1 e (xs @ [j])" unfolding s1_def using rep by (rule intset_rep_contents)
    have res: "intsetResize h s (L + 1) = s1"
      using intsetResize_rep [OF rep n(3,1)] j by (simp add: s1_def)
    define ys where "ys = take (Suc p) (xs @ [j]) @ drop p xs"
    have mv: "(if of_nat p < L then intsetMoveTail h s1 (of_nat p) (of_nat p + 1) else Some s1)
        = Some (s1\<lparr>is_contents := pack e ys\<rparr>)"
    proof (cases "p < length xs")
      case True
      then have "(of_nat p :: 32 word) < L" using up(1) n(2) by (simp add: word_less_nat_alt)
      moreover have "intsetMoveTail h s1 (of_nat p) (of_nat p + 1) = Some (s1\<lparr>is_contents := pack e ys\<rparr>)"
        using intsetMoveTail_rep [OF r1, of "length xs" "of_nat p" "of_nat p + 1"] up(1,3) True n(1) len
        by (simp add: ys_def s1_def)
      ultimately show ?thesis by simp
    next
      case False
      then have "p = length xs" using p by simp
      moreover from this have "\<not> (of_nat p :: 32 word) < L" using up(1) n(2) by (simp add: word_less_nat_alt)
      ultimately show ?thesis by (simp add: ys_def s1_def)
    qed
    have "intset_rep h (s1\<lparr>is_contents := pack e ys\<rparr>) e ys" using r1 by (rule intset_rep_contents)
    moreover have "p < length ys" using p by (simp add: ys_def)
    ultimately have set: "intsetSet h (s1\<lparr>is_contents := pack e ys\<rparr>) (int p) v
        = Some (s1\<lparr>is_contents := pack e (ys[p := v])\<rparr>)"
      using intsetSet_rep by fastforce
    have "ys[p := v] = ?ys" using map_eq_ins_at [OF p] by (simp add: ys_def p_def)
    then have "intsetAdd h s v = Some (s1\<lparr>is_contents := pack e ?ys, is_length := intrev32ifbe h (L + 1)\<rparr>, True)"
      using le L1 by (simp add: intsetAdd_def e(2) srch res mv set up(2) L_def [symmetric])
    with le n(3) show ?thesis
      using e by (auto simp: intset_rep_def s1_def max_def)
  qed
  then obtain s' where s': "intsetAdd h s v = Some (s', True)"
    "intset_rep h s' (max e (intsetValueEncoding v)) ?ys" "len_of h s' = length ?ys" by blast
  have "fits (intsetValueEncoding v) v" using fits_valueEncoding v valueEncoding_cases by blast
  then have "list_all (fits (max e (intsetValueEncoding v))) ?ys"
    using fit fits_mono by (auto simp: list_all_iff)
  with s' srt' intset_wfI have "intset_wf h s'" "intset_list h s' = ?ys" by blast+
  with s' show ?thesis by (auto simp: xs_def e_def intset_rep_def)
qed

lemma intset_search_wf:
  assumes "intset_wf h s" and "len_of h s < 2 ^ 31"
  shows "intsetSearch h s v = Some (v \<in> set (intset_list h s), of_nat (spos (intset_list h s) v))"
  using assms by (elim intset_wfE) (simp add: intsetSearch_correct)

lemma intset_wf_fits: "intset_wf h s \<Longrightarrow> v \<in> set (intset_list h s) \<Longrightarrow> fits (enc_of h s) v"
  by (elim intset_wfE) (simp add: list_all_iff)

lemma intset_wf_enc: "intset_wf h s \<Longrightarrow> enc_of h s \<in> {2, 4, 8}"
  by (simp add: intset_wf_def)

lemma intset_not_member:
  assumes "intset_wf h s" and "int64 v" and "\<not> intsetValueEncoding v \<le> enc_of h s"
  shows "v \<notin> set (intset_list h s)"
  using assms intset_wf_fits fits_valueEncoding intset_wf_enc by blast

lemma intsetAdd_old:
  assumes wf: "intset_wf h s" and room: "intset_room h s" and v: "int64 v"
    and old: "v \<in> set (intset_list h s)"
  shows "intsetAdd h s v = Some (s, False)"
proof -
  have "intsetValueEncoding v \<le> enc_of h s"
    using intset_not_member [OF wf v] old by blast
  moreover have "len_of h s < 2 ^ 31" using room by (simp add: intset_room_def)
  ultimately show ?thesis
    using intset_search_wf [OF wf] old by (simp add: intsetAdd_def)
qed

lemma intsetRemove_correct:
  assumes wf: "intset_wf h s" and room: "len_of h s * 8 < 2 ^ 32" and v: "int64 v"
  shows "\<exists>s'. intsetRemove h s v = Some (s', v \<in> set (intset_list h s)) \<and> intset_wf h s' \<and>
    intset_list h s' = (if v \<in> set (intset_list h s)
      then del_at (spos (intset_list h s) v) (intset_list h s) else intset_list h s) \<and>
    enc_of h s' = enc_of h s"
proof (cases "v \<in> set (intset_list h s)")
  case False
  moreover have "len_of h s < 2 ^ 31" using room by simp
  ultimately show ?thesis
    using wf intset_search_wf [OF wf, of v] by (simp add: intsetRemove_def)
next
  case True
  define xs where "xs = intset_list h s"
  define e where "e = enc_of h s"
  define L where "L = intrev32ifbe h (is_length s)"
  define p where "p = spos xs v"
  have rep: "intset_rep h s e xs" and fit: "list_all (fits e) xs" and srt: "sorted_wrt (<) xs"
    and len: "len_of h s = length xs"
    using wf by (auto elim: intset_wfE simp: xs_def e_def)
  have n: "length xs * 8 < 2 ^ 32" "unat L = length xs" using room len by (simp_all add: L_def)
  have p: "p < length xs" "xs ! p = v" using spos_nth [OF srt] True by (auto simp: p_def xs_def)
  have ne: "L \<noteq> 0" using p(1) n(2) by auto
  then have L1: "unat (L - 1) = length xs - 1" using n(2) by (simp add: unat_minus_one)
  have up: "unat (of_nat p :: 32 word) = p" "unat (of_nat p + 1 :: 32 word) = Suc p"
    using unat_of_nat32 [of p] unat_Suc_word [of "of_nat p"] p n(1) by auto
  have enc: "intsetValueEncoding v \<le> enc_of h s"
    using intset_not_member [OF wf v] True by blast
  have srch: "intsetSearch h s v = Some (True, of_nat p)"
    using intset_search_wf [OF wf, of v] True n len by (simp add: p_def xs_def)
  have mv: "\<exists>r. (if of_nat p < L - 1 then intsetMoveTail h s (of_nat p + 1) (of_nat p) else Some s)
      = Some (s\<lparr>is_contents := pack e (take p xs @ drop (Suc p) xs @ r)\<rparr>) \<and> length r = 1"
  proof (cases "p < length xs - 1")
    case True
    then have "(of_nat p :: 32 word) < L - 1" using up(1) L1 by (simp add: word_less_nat_alt)
    moreover have "intsetMoveTail h s (of_nat p + 1) (of_nat p) =
        Some (s\<lparr>is_contents := pack e (take p xs @ drop (Suc p) xs @ drop (length xs - 1) xs)\<rparr>)"
      using intsetMoveTail_rep [OF rep len n(1), of "of_nat p + 1" "of_nat p"] up True by simp
    ultimately show ?thesis using p(1) by auto
  next
    case False
    then have "p = length xs - 1" using p(1) by simp
    moreover from this have "\<not> (of_nat p :: 32 word) < L - 1" using up(1) L1 by (simp add: word_less_nat_alt)
    moreover have "s = s\<lparr>is_contents := pack e xs\<rparr>" using rep by (simp add: intset_rep_def)
    moreover have "xs = take p xs @ drop (Suc p) xs @ [v]"
      using \<open>p = length xs - 1\<close> p by (metis One_nat_def Suc_pred append_Nil drop_all id_take_nth_drop
          length_greater_0_conv less_nat_zero_code list.size(3) order_refl)
    ultimately show ?thesis by (metis length_Cons list.size(3) One_nat_def)
  qed
  then obtain r where mv: "(if of_nat p < L - 1 then intsetMoveTail h s (of_nat p + 1) (of_nat p) else Some s)
      = Some (s\<lparr>is_contents := pack e (take p xs @ drop (Suc p) xs @ r)\<rparr>)" and lr: "length r = 1" by blast
  define s1 where "s1 = s\<lparr>is_contents := pack e (take p xs @ drop (Suc p) xs @ r)\<rparr>"
  let ?zs = "take p xs @ drop (Suc p) xs @ r"
  have "intset_rep h s1 e ?zs"
    unfolding s1_def using rep by (rule intset_rep_contents)
  moreover have "(length xs - 1) * 8 < 2 ^ 32" using n(1) by simp
  ultimately have "intsetResize h s1 (L - 1) = s1\<lparr>is_contents := realloc h (pack e ?zs) (e * (length xs - 1))\<rparr>"
    by (rule intsetResize_rep [OF _ L1])
  also have "realloc h (pack e ?zs) (e * (length xs - 1)) = pack e (del_at p xs)"
    using p(1) by (subst realloc_pack_shrink) (simp_all only: take_del_at [OF p(1)], simp)
  finally have res: "intsetResize h s1 (L - 1) = s1\<lparr>is_contents := pack e (del_at p xs)\<rparr>" .
  define s2 where "s2 = s1\<lparr>is_contents := pack e (del_at p xs), is_length := intrev32ifbe h (L - 1)\<rparr>"
  have rm: "intsetRemove h s v = Some (s2, True)"
    using enc by (simp add: intsetRemove_def srch mv [folded s1_def] res s2_def L_def [symmetric])
  have "intset_rep h s2 e (del_at p xs)" using rep by (simp add: intset_rep_def s2_def s1_def)
  moreover have "list_all (fits e) (del_at p xs)"
    using fit by (auto simp: list_all_iff del_at_def dest: in_set_takeD in_set_dropD)
  moreover have "len_of h s2 = length (del_at p xs)" using L1 p(1) by (simp add: s2_def)
  ultimately have "intset_wf h s2" "intset_list h s2 = del_at p xs"
    using sorted_del_at [OF srt] by (auto intro: intset_wfI)
  with rm True show ?thesis by (simp add: p_def xs_def s2_def s1_def)
qed

section \<open>The contract of integer sets\<close>

text \<open>The largest number of elements for which all sizes stay below \<open>2 ^ 32\<close>.\<close>

definition intset_cap :: nat where
  "intset_cap = 2 ^ 29 - 1"

lemma intset_len: "length (intset_list h s) = len_of h s"
  by (simp add: intset_list_def)

lemma intset_cap_room: "length (intset_list h s) < intset_cap \<Longrightarrow> intset_room h s"
  by (simp add: intset_list_def intset_cap_def intset_room_def)

lemma intset_cap_len: "length (intset_list h s) \<le> intset_cap \<Longrightarrow> len_of h s * 8 < 2 ^ 32"
  by (simp add: intset_list_def intset_cap_def)

lemma intsetNew_wf: "intset_wf h (intsetNew h)" "intset_list h (intsetNew h) = []"
proof -
  have "intrev32ifbe h 0 = 0"
    by (simp add: intrev32ifbe_def intrev32_rev numeral_eq_Suc)
  then show "intset_wf h (intsetNew h)" "intset_list h (intsetNew h) = []"
    by (simp_all add: intset_wf_def intset_list_def intsetNew_def)
qed

lemma intsetFind_correct:
  assumes wf: "intset_wf h s" and room: "len_of h s * 8 < 2 ^ 32" and v: "int64 v"
  shows "intsetFind h s v = Some (v \<in> set (intset_list h s))"
proof -
  have "len_of h s < 2 ^ 31" using room by simp
  then show ?thesis
    using intset_search_wf [OF wf] intset_not_member [OF wf v] by (simp add: intsetFind_def Let_def)
qed

lemma intsetAdd_correct:
  assumes wf: "intset_wf h s" and room: "intset_room h s" and v: "int64 v"
  shows "\<exists>s'. intsetAdd h s v = Some (s', v \<notin> set (intset_list h s)) \<and> intset_wf h s' \<and>
    intset_list h s' = (if v \<in> set (intset_list h s) then intset_list h s
      else ins_at (spos (intset_list h s) v) v (intset_list h s)) \<and>
    enc_of h s' = max (enc_of h s) (intsetValueEncoding v)"
proof (cases "v \<in> set (intset_list h s)")
  case True
  then have "intsetValueEncoding v \<le> enc_of h s" using intset_not_member [OF wf v] by blast
  with True show ?thesis using intsetAdd_old [OF assms True] wf by (simp add: max_def)
next
  case False
  then show ?thesis using intsetAdd_new [OF assms False] by simp
qed

lemma intset_sorted: "intset_wf h s \<Longrightarrow> sorted_wrt (<) (intset_list h s)"
  by (simp add: intset_wf_def)

interpretation iset: int_set_spec "intset_wf h" "intset_list h" int64 intset_cap
  "intsetNew h" "intsetAdd h" "intsetRemove h" "intsetFind h" for h
proof
  fix s v assume "intset_wf h s" "length (intset_list h s) < intset_cap" "int64 v"
  then show "\<exists>s'. intsetAdd h s v = Some (s', v \<notin> set (intset_list h s)) \<and> intset_wf h s' \<and>
      set (intset_list h s') = insert v (set (intset_list h s))"
    using intsetAdd_correct [OF _ intset_cap_room] by (metis insert_absorb set_ins_at)
next
  fix s v assume a: "intset_wf h s" "length (intset_list h s) \<le> intset_cap" "int64 v"
  have "distinct (intset_list h s)"
    using intset_sorted [OF a(1)] strict_sorted_iff by blast
  then have "v \<in> set (intset_list h s) \<Longrightarrow>
      set (del_at (spos (intset_list h s) v) (intset_list h s)) = set (intset_list h s) - {v}"
    using spos_nth [OF intset_sorted [OF a(1)]] set_del_at by metis
  then show "\<exists>s'. intsetRemove h s v = Some (s', v \<in> set (intset_list h s)) \<and> intset_wf h s' \<and>
      set (intset_list h s') = set (intset_list h s) - {v}"
    using intsetRemove_correct [OF a(1) intset_cap_len [OF a(2)] a(3)] by auto
next
  fix s v assume "intset_wf h s" "length (intset_list h s) \<le> intset_cap" "int64 v"
  then show "intsetFind h s v = Some (v \<in> set (intset_list h s))"
    by (intro intsetFind_correct intset_cap_len) auto
qed (auto simp: intset_sorted intsetNew_wf)

section \<open>The serialised form\<close>

text \<open>
  Sets are written to disk as the bytes of the struct (\<open>intsetBlobLen\<close> bytes from
  its address).
\<close>

definition intset_blob :: "host \<Rightarrow> intset \<Rightarrow> buf" where
  "intset_blob h s =
     native_bytes h 4 (uint (is_encoding s)) @ native_bytes h 4 (uint (is_length s)) @ is_contents s"

lemma intset_blob_pack:
  assumes "intset_wf h s"
  shows "intset_blob h s = le_enc 4 (int (enc_of h s)) @ le_enc 4 (int (length (intset_list h s))) @
    pack (enc_of h s) (intset_list h s)"
proof -
  have n: "native_bytes h 4 (uint w) = le_enc 4 (int (unat (intrev32ifbe h w)))" for w
    using native_bytes_intrev32ifbe [of h "intrev32ifbe h w"] by simp
  have "is_contents s = pack (enc_of h s) (intset_list h s)"
    using assms by (auto elim: intset_wfE simp: intset_rep_def)
  then show ?thesis unfolding intset_blob_def intset_len by (simp only: n)
qed

lemma intset_add_all_host:
  assumes "intset_wf h s" "intset_wf h' s'" "intset_list h s = intset_list h' s'" "enc_of h s = enc_of h' s'"
    and "length (intset_list h s) + length vs \<le> intset_cap" and "list_all int64 vs"
  shows "\<exists>t t' n. add_all (intsetAdd h) s vs = Some (t, n) \<and> add_all (intsetAdd h') s' vs = Some (t', n) \<and>
    intset_wf h t \<and> intset_wf h' t' \<and> intset_list h t = intset_list h' t' \<and> enc_of h t = enc_of h' t'"
  using assms
proof (induction vs arbitrary: s s')
  case Nil
  then show ?case by auto
next
  case (Cons v vs)
  then have v: "int64 v" "intset_room h s" "intset_room h' s'"
    by (auto intro!: intset_cap_room)
  obtain t where t: "intsetAdd h s v = Some (t, v \<notin> set (intset_list h s))" "intset_wf h t"
    "intset_list h t = (if v \<in> set (intset_list h s) then intset_list h s
      else ins_at (spos (intset_list h s) v) v (intset_list h s))"
    "enc_of h t = max (enc_of h s) (intsetValueEncoding v)"
    using intsetAdd_correct [OF Cons.prems(1) v(2,1)] by blast
  obtain t' where t': "intsetAdd h' s' v = Some (t', v \<notin> set (intset_list h' s'))" "intset_wf h' t'"
    "intset_list h' t' = (if v \<in> set (intset_list h' s') then intset_list h' s'
      else ins_at (spos (intset_list h' s') v) v (intset_list h' s'))"
    "enc_of h' t' = max (enc_of h' s') (intsetValueEncoding v)"
    using intsetAdd_correct [OF Cons.prems(2) v(3,1)] by blast
  have eq: "intset_list h t = intset_list h' t'" "enc_of h t = enc_of h' t'"
    unfolding t t' Cons.prems(3,4) by auto
  have "length (intset_list h t) \<le> Suc (length (intset_list h s))" unfolding t(3) by simp
  then have "length (intset_list h t) + length vs \<le> intset_cap" "list_all int64 vs"
    using Cons.prems by auto
  then obtain u u' n where "add_all (intsetAdd h) t vs = Some (u, n)" "add_all (intsetAdd h') t' vs = Some (u', n)"
    "intset_wf h u" "intset_wf h' u'" "intset_list h u = intset_list h' u'" "enc_of h u = enc_of h' u'"
    using Cons.IH [OF t(2) t'(2) eq] by blast
  then show ?case using t(1) t'(1) Cons.prems(3) by simp
qed

section \<open>Properties\<close>

lemma room_intsetNew: "intset_room h (intsetNew h)"
  by (rule intset_cap_room) (simp add: intsetNew_wf intset_cap_def)

lemma enc_intsetNew: "enc_of h (intsetNew h) = 2"
  by (simp add: intsetNew_def)

text \<open>
  C1: \<open>intsetAdd\<close> on a well-formed set with room for one more element returns,
  without leaving the allocated memory, a well-formed set whose array is the
  sorted list of the old elements and the value; it reports whether the value was
  new, and it widens the encoding exactly to what the value needs.
\<close>

theorem intsetAdd_sorted_insert:
  assumes "intset_wf h s" and "intset_room h s" and "int64 v"
  shows "\<exists>s'. intsetAdd h s v = Some (s', v \<notin> set (intset_list h s)) \<and> intset_wf h s' \<and>
    intset_list h s' = sorted_list_of_set (insert v (set (intset_list h s))) \<and>
    enc_of h s' = max (enc_of h s) (intsetValueEncoding v)"
proof -
  obtain s' where s': "intsetAdd h s v = Some (s', v \<notin> set (intset_list h s))" "intset_wf h s'"
    "intset_list h s' = (if v \<in> set (intset_list h s) then intset_list h s
      else ins_at (spos (intset_list h s) v) v (intset_list h s))"
    "enc_of h s' = max (enc_of h s) (intsetValueEncoding v)"
    using intsetAdd_correct [OF assms] by blast
  have "set (intset_list h s') = insert v (set (intset_list h s))" unfolding s'(3) by auto
  then have "intset_list h s' = sorted_list_of_set (insert v (set (intset_list h s)))"
    using iset.elems_sorted_list [OF s'(2)] by simp
  with s' show ?thesis by blast
qed

theorem intsetAdd_sorted_insert_witness:
  "intset_wf \<lparr>big_endian = True, fresh = (\<lambda>_. 7)\<rparr> (intsetNew \<lparr>big_endian = True, fresh = (\<lambda>_. 7)\<rparr>) \<and>
   (\<exists>s'. intsetAdd \<lparr>big_endian = True, fresh = (\<lambda>_. 7)\<rparr>
       (intsetNew \<lparr>big_endian = True, fresh = (\<lambda>_. 7)\<rparr>) (- 70000) = Some (s', True) \<and>
     intset_list \<lparr>big_endian = True, fresh = (\<lambda>_. 7)\<rparr> s' = [- 70000] \<and>
     enc_of \<lparr>big_endian = True, fresh = (\<lambda>_. 7)\<rparr> s' = 4)"
  using intsetAdd_sorted_insert [of "\<lparr>big_endian = True, fresh = (\<lambda>_. 7)\<rparr>"
      "intsetNew \<lparr>big_endian = True, fresh = (\<lambda>_. 7)\<rparr>" "- 70000", OF intsetNew_wf(1) room_intsetNew]
  by (auto simp: intsetNew_wf enc_intsetNew intsetValueEncoding_def)

text \<open>
  C4: \<open>intsetRemove\<close> deletes exactly the given value: the result is well-formed,
  holds the sorted list of the remaining elements, keeps the encoding, and the
  success flag says whether the value was there.
\<close>

theorem intsetRemove_sorted_delete:
  assumes "intset_wf h s" and "len_of h s * 8 < 2 ^ 32" and "int64 v"
  shows "\<exists>s'. intsetRemove h s v = Some (s', v \<in> set (intset_list h s)) \<and> intset_wf h s' \<and>
    intset_list h s' = sorted_list_of_set (set (intset_list h s) - {v}) \<and>
    enc_of h s' = enc_of h s"
proof -
  obtain s' where s': "intsetRemove h s v = Some (s', v \<in> set (intset_list h s))" "intset_wf h s'"
    "enc_of h s' = enc_of h s"
    using intsetRemove_correct [OF assms] by blast
  have "length (intset_list h s) \<le> intset_cap"
    unfolding intset_len using assms(2) by (simp add: intset_cap_def)
  then have "set (intset_list h s') = set (intset_list h s) - {v}"
    using iset.remove_spec [OF assms(1) _ assms(3)] s'(1) by auto
  then have "intset_list h s' = sorted_list_of_set (set (intset_list h s) - {v})"
    using iset.elems_sorted_list [OF s'(2)] by simp
  with s' show ?thesis by blast
qed

theorem intsetRemove_sorted_delete_witness:
  "intset_wf \<lparr>big_endian = False, fresh = (\<lambda>_. 7)\<rparr>
     \<lparr>is_encoding = 2, is_length = 2, is_contents = [254, 255, 5, 0]\<rparr> \<and>
   (\<exists>s'. intsetRemove \<lparr>big_endian = False, fresh = (\<lambda>_. 7)\<rparr>
       \<lparr>is_encoding = 2, is_length = 2, is_contents = [254, 255, 5, 0]\<rparr> (- 2) = Some (s', True) \<and>
     intset_list \<lparr>big_endian = False, fresh = (\<lambda>_. 7)\<rparr> s' = [5])"
proof -
  let ?h = "\<lparr>big_endian = False, fresh = (\<lambda>_. 7)\<rparr>"
  let ?s = "\<lparr>is_encoding = 2, is_length = 2, is_contents = [254, 255, 5, 0]\<rparr>"
  have l: "intset_list ?h ?s = [-2, 5]"
    by (simp add: intset_list_def intrev32ifbe_def) code_simp
  have wf: "intset_wf ?h ?s"
    using l by (simp add: intset_wf_def intrev32ifbe_def)
  have len: "len_of ?h ?s * 8 < 2 ^ 32" by (simp add: intrev32ifbe_def)
  have "int64 (- 2)" by simp
  from intsetRemove_sorted_delete [OF wf len this] wf show ?thesis by (auto simp: l)
qed

text \<open>
  C5: Building a set from any sequence of values with \<open>intsetAdd\<close> counts the
  distinct values and leaves their sorted list, and \<open>intsetFind\<close> then answers
  membership; this is the contract of \<open>int_set_spec\<close> applied to \<open>intset.c\<close>.
\<close>

theorem intset_add_all_find:
  assumes "length vs \<le> intset_cap" and "list_all int64 vs" and "int64 w"
  shows "\<exists>s. add_all (intsetAdd h) (intsetNew h) vs = Some (s, card (set vs)) \<and>
    intset_list h s = sorted_list_of_set (set vs) \<and> intsetFind h s w = Some (w \<in> set vs)"
proof -
  obtain s where s: "add_all (intsetAdd h) (intsetNew h) vs = Some (s, card (set vs))" "intset_wf h s"
    "intset_list h s = sorted_list_of_set (set vs)"
    using iset.add_all_new [OF assms(1,2)] by blast
  have "length (intset_list h s) \<le> intset_cap"
    using s(3) assms(1) card_length [of vs] by simp
  then have "intsetFind h s w = Some (w \<in> set (intset_list h s))"
    using iset.find_spec [OF s(2) _ assms(3)] by blast
  with s show ?thesis by simp
qed

theorem intset_add_all_find_witness:
  "\<exists>s. add_all (intsetAdd \<lparr>big_endian = False, fresh = (\<lambda>_. 0)\<rparr>)
      (intsetNew \<lparr>big_endian = False, fresh = (\<lambda>_. 0)\<rparr>) [3, - 1, 3, 2 ^ 40] = Some (s, 3) \<and>
    intsetFind \<lparr>big_endian = False, fresh = (\<lambda>_. 0)\<rparr> s (- 1) = Some True"
proof -
  have "length [3, - 1, 3, 2 ^ 40 :: int] \<le> intset_cap" by (simp add: intset_cap_def)
  moreover have "card (set [3, - 1, 3, 2 ^ 40 :: int]) = 3" by code_simp
  ultimately show ?thesis
    using intset_add_all_find [of "[3, - 1, 3, 2 ^ 40]" "- 1" "\<lparr>big_endian = False, fresh = (\<lambda>_. 0)\<rparr>"]
    by (auto simp del: add_all.simps)
qed

text \<open>
  C6: The serialised form is portable: the same values added on any two hosts,
  little- or big-endian and whatever the allocator leaves in fresh memory, give
  structs whose bytes are identical.
\<close>

theorem intset_blob_portable:
  assumes "length vs \<le> intset_cap" and "list_all int64 vs"
  shows "\<exists>s s' n. add_all (intsetAdd h) (intsetNew h) vs = Some (s, n) \<and>
    add_all (intsetAdd h') (intsetNew h') vs = Some (s', n) \<and>
    intset_blob h s = intset_blob h' s' \<and> length (intset_blob h s) = intsetBlobLen h s"
proof -
  have "enc_of h (intsetNew h) = enc_of h' (intsetNew h')" by (simp only: enc_intsetNew)
  then obtain s s' n where s: "add_all (intsetAdd h) (intsetNew h) vs = Some (s, n)"
      "add_all (intsetAdd h') (intsetNew h') vs = Some (s', n)" "intset_wf h s" "intset_wf h' s'"
      "intset_list h s = intset_list h' s'" "enc_of h s = enc_of h' s'"
    using intset_add_all_host [of h "intsetNew h" h' "intsetNew h'" vs] assms by (auto simp: intsetNew_wf)
  then have "intset_blob h s = intset_blob h' s'"
    using intset_blob_pack [OF s(3)] intset_blob_pack [OF s(4)] by simp
  moreover have "length (intset_blob h s) = intsetBlobLen h s"
  proof -
    have "card (set vs) \<le> intset_cap" using assms(1) card_length [of vs] by simp
    then have "len_of h s \<le> intset_cap"
      using iset.add_all_new [OF assms, of h] s(1,3) by (auto simp flip: intset_len)
    moreover have "enc_of h s \<le> 8" using intset_wf_enc [OF s(3)] by auto
    ultimately have "len_of h s * enc_of h s \<le> intset_cap * 8" by (rule mult_le_mono)
    then have "len_of h s * enc_of h s < 2 ^ LENGTH(32)" by (simp add: intset_cap_def)
    then have "unat (intrev32ifbe h (is_length s) * intrev32ifbe h (is_encoding s)) = len_of h s * enc_of h s"
      unfolding unat_mult_lem .
    then show ?thesis
      using intset_blob_pack [OF s(3)] by (simp add: intsetBlobLen_def intset_len mult.commute)
  qed
  ultimately show ?thesis using s by blast
qed

theorem intset_blob_portable_witness:
  "\<exists>s s' n. add_all (intsetAdd \<lparr>big_endian = True, fresh = (\<lambda>_. 1)\<rparr>)
      (intsetNew \<lparr>big_endian = True, fresh = (\<lambda>_. 1)\<rparr>) [5, - 70000] = Some (s, n) \<and>
    add_all (intsetAdd \<lparr>big_endian = False, fresh = (\<lambda>_. 2)\<rparr>)
      (intsetNew \<lparr>big_endian = False, fresh = (\<lambda>_. 2)\<rparr>) [5, - 70000] = Some (s', n) \<and>
    intset_blob \<lparr>big_endian = True, fresh = (\<lambda>_. 1)\<rparr> s = intset_blob \<lparr>big_endian = False, fresh = (\<lambda>_. 2)\<rparr> s'"
proof -
  have "length [5, - 70000 :: int] \<le> intset_cap" by (simp add: intset_cap_def)
  from intset_blob_portable [OF this, of "\<lparr>big_endian = True, fresh = (\<lambda>_. 1)\<rparr>"
      "\<lparr>big_endian = False, fresh = (\<lambda>_. 2)\<rparr>"]
  show ?thesis by auto
qed

text \<open>
  C7: The bound on the number of elements is needed: \<open>intsetResize\<close> multiplies
  in 32 bits, so that adding to a set of \<open>2 ^ 29 - 1\<close> elements of 8 bytes
  allocates nothing at all and then writes outside of the allocation.
\<close>

theorem intsetAdd_overflow:
  assumes wf: "intset_wf h s" and n: "len_of h s = 2 ^ 29 - 1" and e: "enc_of h s = 8"
    and v: "int64 v" and new: "v \<notin> set (intset_list h s)"
  shows "intsetAdd h s v = None"
proof -
  define L where "L = intrev32ifbe h (is_length s)"
  define p where "p = spos (intset_list h s) v"
  have L: "unat L = 2 ^ 29 - 1" using n by (simp add: L_def)
  have p: "p \<le> 2 ^ 29 - 1" using spos_le [of "intset_list h s" v] n by (simp add: p_def intset_len)
  have up: "unat (of_nat p :: 32 word) = p" "sint (of_nat p :: 32 word) = int p"
    using unat_of_nat32 [of p] sint_of_nat32 [of p] p by auto
  have srch: "intsetSearch h s v = Some (False, of_nat p)"
    using intset_search_wf [OF wf, of v] n new by (simp add: p_def)
  define s1 where "s1 = s\<lparr>is_contents := []\<rparr>"
  have e8: "intrev32ifbe h (is_encoding s) = 8" using e by (metis of_nat_numeral of_nat_unat ucast_id)
  have res: "intsetResize h s (L + 1) = s1"
  proof -
    have "unat (L + 1) = 2 ^ 29" using unat_Suc_word [of L] L by simp
    then have "unat ((L + 1) * 8) = 0" unfolding unat_word_ariths(2) by simp
    then show ?thesis by (simp add: intsetResize_def e8 s1_def realloc_def)
  qed
  have enc1: "enc_of h s1 = 8" "intrev32ifbe h (is_length s1) = L" "is_contents s1 = []"
    using e by (simp_all add: s1_def L_def)
  have set_none: "intsetSet h s1 (int p) v = None"
    using enc1 by (simp add: intsetSet_def Let_def store_bytes_def)
  have mv_none: "intsetMoveTail h s1 (of_nat p) (of_nat p + 1) = None" if "of_nat p < L"
  proof -
    have "p < 2 ^ 29 - 1" using that up(1) L by (simp add: word_less_nat_alt)
    moreover have "unat (L - of_nat p) = 2 ^ 29 - 1 - p"
      using that L up(1) by (simp add: unat_sub order.strict_implies_order)
    moreover have "(2 ^ 29 - 1 - p) * 8 < (2 ^ 32 :: nat)" by simp
    ultimately have "unat ((L - of_nat p) * 8) = (2 ^ 29 - 1 - p) * 8"
      unfolding unat_word_ariths(2) by simp
    with \<open>p < 2 ^ 29 - 1\<close> show ?thesis
      using enc1 by (simp add: intsetMoveTail_def memmove_def load_bytes_def)
  qed
  have "intsetValueEncoding v \<le> 8" by (simp add: intsetValueEncoding_def)
  then show ?thesis
    using set_none mv_none enc1 e
    by (simp add: intsetAdd_def srch res up(2) L_def [symmetric])
qed

theorem intsetAdd_overflow_witness:
  "intset_wf \<lparr>big_endian = False, fresh = (\<lambda>_. 0)\<rparr>
     \<lparr>is_encoding = 8, is_length = 2 ^ 29 - 1, is_contents = pack 8 (map int [0..<2 ^ 29 - 1])\<rparr> \<and>
   intsetAdd \<lparr>big_endian = False, fresh = (\<lambda>_. 0)\<rparr>
     \<lparr>is_encoding = 8, is_length = 2 ^ 29 - 1, is_contents = pack 8 (map int [0..<2 ^ 29 - 1])\<rparr> (- 1) = None"
proof -
  define N :: nat where "N = 2 ^ 29 - 1"
  let ?h = "\<lparr>big_endian = False, fresh = (\<lambda>_. 0)\<rparr>"
  let ?s = "\<lparr>is_encoding = 8, is_length = 2 ^ 29 - 1, is_contents = pack 8 (map int [0..<N])\<rparr>"
  have len: "len_of ?h ?s = N" and enc: "enc_of ?h ?s = 8"
    by (simp_all add: intrev32ifbe_def N_def)
  have rep: "intset_rep ?h ?s 8 (map int [0..<N])" using enc by (simp add: intset_rep_def)
  have fit: "list_all (fits 8) (map int [0..<N])" by (auto simp: list_all_iff fits_def N_def)
  have srt: "sorted_wrt (<) (map int [0..<N])" by (simp add: sorted_wrt_map)
  have wf: "intset_wf ?h ?s" and l: "intset_list ?h ?s = map int [0..<N]"
    using intset_wfI [OF rep fit srt] len by simp_all
  have "- 1 \<notin> set (intset_list ?h ?s)" unfolding l by auto
  with intsetAdd_overflow [OF wf] len enc wf show ?thesis by (simp add: N_def)
qed

end
