(* ===== verification/Dict.thy ===== *)
theory Dict
  imports Redis_Prelude
begin

text \<open>
  \<^verbatim>\<open>dict.c\<close> and \<^verbatim>\<open>dict.h\<close>: hash tables with chaining and incremental
  rehashing. A dictionary has two tables; while it is rehashing, each operation
  first moves one bucket from the first table to the second. This theory holds the
  definitions, \<open>Dict_Correct\<close> the proofs, \<open>Dict_Scan\<close> the cursor of
  \<open>dictScan\<close>.

  A chain of entries linked by \<open>next\<close> is a list, a table is the list of its chains
  (\<open>NULL\<close> is the empty table, as allocated ones have at least four buckets). Keys and
  values are of any type: they stand for the \<open>void *\<close> pointers, compared for identity by
  equality. A pointer to an entry is the position of the entry: its table, its
  bucket and its place in the chain. Sizes and counts are natural numbers, with
  the wrap-around of \<open>unsigned long\<close> written out where a size is computed.
\<close>

section \<open>Data\<close>

record ('k, 'v) dictEntry =
  de_key :: 'k
  de_val :: 'v

type_synonym ('k, 'v) chain = "('k, 'v) dictEntry list"

text \<open>The callbacks that release keys and values have no effect on the dictionary.\<close>

record ('k, 'v) dictType =
  hashFunction :: "'k \<Rightarrow> 64 word"
  keyDup :: "('k \<Rightarrow> 'k) option"
  valDup :: "('v \<Rightarrow> 'v) option"
  keyCompare :: "('k \<Rightarrow> 'k \<Rightarrow> bool) option"

record ('k, 'v) dictht =
  ht_table :: "('k, 'v) chain list"
  ht_size :: nat
  ht_sizemask :: nat
  ht_used :: nat

record ('k, 'v) dict =
  d_type :: "('k, 'v) dictType"
  d_ht0 :: "('k, 'v) dictht"
  d_ht1 :: "('k, 'v) dictht"
  d_rehashidx :: int
  d_iterators :: nat

type_synonym entry_ref = "nat \<times> nat \<times> nat"

abbreviation DICT_HT_INITIAL_SIZE :: nat where "DICT_HT_INITIAL_SIZE \<equiv> 4"
abbreviation LONG_MAX :: nat where "LONG_MAX \<equiv> 2 ^ 63 - 1"
abbreviation dict_force_resize_ratio :: nat where "dict_force_resize_ratio \<equiv> 5"

section \<open>Macros\<close>

definition dictIsRehashing :: "('k, 'v) dict \<Rightarrow> bool" where
  "dictIsRehashing d \<longleftrightarrow> d_rehashidx d \<noteq> -1"

definition dictSize :: "('k, 'v) dict \<Rightarrow> nat" where
  "dictSize d = ht_used (d_ht0 d) + ht_used (d_ht1 d)"

definition dictSlots :: "('k, 'v) dict \<Rightarrow> nat" where
  "dictSlots d = ht_size (d_ht0 d) + ht_size (d_ht1 d)"

definition dictCompareKeys :: "('k, 'v) dictType \<Rightarrow> 'k \<Rightarrow> 'k \<Rightarrow> bool" where
  "dictCompareKeys t key1 key2 =
     (case keyCompare t of Some f \<Rightarrow> f key1 key2 | None \<Rightarrow> key1 = key2)"

text \<open>\<open>key==he->key || dictCompareKeys(d, key, he->key)\<close>\<close>

definition key_matches :: "('k, 'v) dictType \<Rightarrow> 'k \<Rightarrow> ('k, 'v) dictEntry \<Rightarrow> bool" where
  "key_matches t key he \<longleftrightarrow> key = de_key he \<or> dictCompareKeys t key (de_key he)"

definition dictKeyOf :: "('k, 'v) dictType \<Rightarrow> 'k \<Rightarrow> 'k" where
  "dictKeyOf t key = (case keyDup t of Some f \<Rightarrow> f key | None \<Rightarrow> key)"

definition dictValOf :: "('k, 'v) dictType \<Rightarrow> 'v \<Rightarrow> 'v" where
  "dictValOf t val = (case valDup t of Some f \<Rightarrow> f val | None \<Rightarrow> val)"

text \<open>\<open>hash & sizemask\<close>\<close>

definition bucket_index :: "64 word \<Rightarrow> nat \<Rightarrow> nat" where
  "bucket_index h sizemask = unat (h AND of_nat sizemask)"

definition ht_of :: "('k, 'v) dict \<Rightarrow> nat \<Rightarrow> ('k, 'v) dictht" where
  "ht_of d table = (if table = 0 then d_ht0 d else d_ht1 d)"

definition set_ht :: "('k, 'v) dict \<Rightarrow> nat \<Rightarrow> ('k, 'v) dictht \<Rightarrow> ('k, 'v) dict" where
  "set_ht d table ht = (if table = 0 then d\<lparr>d_ht0 := ht\<rparr> else d\<lparr>d_ht1 := ht\<rparr>)"

definition get_entry :: "('k, 'v) dict \<Rightarrow> entry_ref \<Rightarrow> ('k, 'v) dictEntry option" where
  "get_entry d r = (case r of (table, idx, pos) \<Rightarrow> do {
     c \<leftarrow> nth_opt (ht_table (ht_of d table)) idx;
     nth_opt c pos })"

definition dictSetVal :: "('k, 'v) dict \<Rightarrow> entry_ref \<Rightarrow> 'v \<Rightarrow> ('k, 'v) dict option" where
  "dictSetVal d r val = (case r of (table, idx, pos) \<Rightarrow> do {
     c \<leftarrow> nth_opt (ht_table (ht_of d table)) idx;
     e \<leftarrow> nth_opt c pos;
     c \<leftarrow> upd_opt c pos (e\<lparr>de_val := dictValOf (d_type d) val\<rparr>);
     t \<leftarrow> upd_opt (ht_table (ht_of d table)) idx c;
     Some (set_ht d table ((ht_of d table)\<lparr>ht_table := t\<rparr>)) })"

section \<open>Creation and resizing\<close>

definition dictReset :: "('k, 'v) dictht" where
  "dictReset = \<lparr>ht_table = [], ht_size = 0, ht_sizemask = 0, ht_used = 0\<rparr>"

definition dictCreate :: "('k, 'v) dictType \<Rightarrow> ('k, 'v) dict" where
  "dictCreate t = \<lparr>d_type = t, d_ht0 = dictReset, d_ht1 = dictReset, d_rehashidx = -1, d_iterators = 0\<rparr>"

partial_function (option) dictNextPower_loop :: "nat \<Rightarrow> nat \<Rightarrow> nat option" where
  "dictNextPower_loop sz i =
     (if i \<ge> sz then Some i else dictNextPower_loop sz (i * 2 mod 2 ^ 64))"

definition dictNextPower :: "nat \<Rightarrow> nat option" where
  "dictNextPower sz =
     (if sz \<ge> LONG_MAX then Some (LONG_MAX + 1)
      else dictNextPower_loop sz DICT_HT_INITIAL_SIZE)"

text \<open>The flag is the return code: \<open>True\<close> for \<open>DICT_OK\<close>, \<open>False\<close> for \<open>DICT_ERR\<close>.\<close>

definition dictExpand :: "('k, 'v) dict \<Rightarrow> nat \<Rightarrow> (('k, 'v) dict \<times> bool) option" where
  "dictExpand d sz =
     (if dictIsRehashing d \<or> ht_used (d_ht0 d) > sz then Some (d, False)
      else do {
        realsize \<leftarrow> dictNextPower sz;
        if realsize = ht_size (d_ht0 d) then Some (d, False)
        else do {
          n \<leftarrow> Some \<lparr>ht_table = replicate realsize [], ht_size = realsize,
            ht_sizemask = realsize - 1, ht_used = 0\<rparr>;
          if ht_table (d_ht0 d) = [] then Some (d\<lparr>d_ht0 := n\<rparr>, True)
          else Some (d\<lparr>d_ht1 := n, d_rehashidx := 0\<rparr>, True) } })"

text \<open>\<open>can_resize\<close> is the global \<open>dict_can_resize\<close>; \<open>int minimal\<close> narrows \<open>used\<close> to 32 bits.\<close>

definition dictResize :: "bool \<Rightarrow> ('k, 'v) dict \<Rightarrow> (('k, 'v) dict \<times> bool) option" where
  "dictResize can_resize d =
     (if \<not> can_resize \<or> dictIsRehashing d then Some (d, False)
      else (let minimal = sint (of_nat (ht_used (d_ht0 d)) :: 32 word);
                minimal = (if minimal < int DICT_HT_INITIAL_SIZE then int DICT_HT_INITIAL_SIZE else minimal)
            in dictExpand d (nat minimal)))"

definition dictExpandIfNeeded :: "bool \<Rightarrow> ('k, 'v) dict \<Rightarrow> (('k, 'v) dict \<times> bool) option" where
  "dictExpandIfNeeded can_resize d =
     (if dictIsRehashing d then Some (d, True)
      else if ht_size (d_ht0 d) = 0 then dictExpand d DICT_HT_INITIAL_SIZE
      else if ht_used (d_ht0 d) \<ge> ht_size (d_ht0 d) \<and>
        (can_resize \<or> ht_used (d_ht0 d) div ht_size (d_ht0 d) > dict_force_resize_ratio)
      then dictExpand d (ht_used (d_ht0 d) * 2 mod 2 ^ 64)
      else Some (d, True))"

section \<open>Incremental rehashing\<close>

text \<open>
  The inner loop of \<open>dictRehash\<close> that skips empty buckets. The flag says that
  the budget of empty visits ran out, on which \<open>dictRehash\<close> returns.
\<close>

function dictRehash_skip :: "('k, 'v) chain list \<Rightarrow> nat \<Rightarrow> int \<Rightarrow> (nat \<times> int \<times> bool) option" where
  "dictRehash_skip t i empty_visits =
     (if i < length t then
        (if t ! i \<noteq> [] then Some (i, empty_visits, False)
         else if empty_visits - 1 = 0 then Some (i + 1, 0, True)
         else dictRehash_skip t (i + 1) (empty_visits - 1))
      else None)"
  by pat_completeness auto
termination
  by (relation "measure (\<lambda>(t, i, ev). length t - i)") auto

declare dictRehash_skip.simps [simp del]

text \<open>Moving the entries of a bucket to the second table.\<close>

fun dictRehash_move :: "('k, 'v) dictType \<Rightarrow> ('k, 'v) chain \<Rightarrow> ('k, 'v) dictht \<Rightarrow> ('k, 'v) dictht
    \<Rightarrow> (('k, 'v) dictht \<times> ('k, 'v) dictht) option" where
  "dictRehash_move t [] h0 h1 = Some (h0, h1)"
| "dictRehash_move t (de # nextde) h0 h1 = do {
     h \<leftarrow> Some (bucket_index (hashFunction t (de_key de)) (ht_sizemask h1));
     c \<leftarrow> nth_opt (ht_table h1) h;
     t1 \<leftarrow> upd_opt (ht_table h1) h (de # c);
     dictRehash_move t nextde (h0\<lparr>ht_used := ht_used h0 - 1\<rparr>)
       (h1\<lparr>ht_table := t1, ht_used := ht_used h1 + 1\<rparr>) }"

fun dictRehash_loop :: "nat \<Rightarrow> ('k, 'v) dict \<Rightarrow> int \<Rightarrow> (('k, 'v) dict \<times> bool) option" where
  "dictRehash_loop 0 d empty_visits = Some (d, False)"
| "dictRehash_loop (Suc n) d empty_visits =
     (if ht_used (d_ht0 d) \<noteq> 0 then
        (if \<not> ht_size (d_ht0 d) > nat (d_rehashidx d) then None
         else do {
           (i, empty_visits, stop) \<leftarrow>
             dictRehash_skip (ht_table (d_ht0 d)) (nat (d_rehashidx d)) empty_visits;
           if stop then Some (d\<lparr>d_rehashidx := int i\<rparr>, True)
           else do {
             de \<leftarrow> nth_opt (ht_table (d_ht0 d)) i;
             (h0, h1) \<leftarrow> dictRehash_move (d_type d) de (d_ht0 d) (d_ht1 d);
             t0 \<leftarrow> upd_opt (ht_table h0) i [];
             dictRehash_loop n
               (d\<lparr>d_ht0 := h0\<lparr>ht_table := t0\<rparr>, d_ht1 := h1, d_rehashidx := int i + 1\<rparr>)
               empty_visits } })
      else Some (d, False))"

definition dictRehash :: "('k, 'v) dict \<Rightarrow> nat \<Rightarrow> (('k, 'v) dict \<times> bool) option" where
  "dictRehash d n =
     (if \<not> dictIsRehashing d then Some (d, False)
      else do {
        (d, stop) \<leftarrow> dictRehash_loop n d (int n * 10);
        if stop then Some (d, True)
        else if ht_used (d_ht0 d) = 0
        then Some (d\<lparr>d_ht0 := d_ht1 d, d_ht1 := dictReset, d_rehashidx := -1\<rparr>, False)
        else Some (d, True) })"

text \<open>
  The clock is read once at the start and once after each batch of 100 steps:
  \<open>elapsed\<close> lists the differences that these readings show. The loop ends when
  rehashing is complete or the time is up; a list that is too short is \<open>None\<close>.
\<close>

fun dictRehashMilliseconds_loop ::
  "('k, 'v) dict \<Rightarrow> int list \<Rightarrow> int \<Rightarrow> nat \<Rightarrow> (('k, 'v) dict \<times> nat) option" where
  "dictRehashMilliseconds_loop d elapsed ms rehashes = do {
     (d, more) \<leftarrow> dictRehash d 100;
     if more then
       (case elapsed of [] \<Rightarrow> None
        | e # es \<Rightarrow> if e > ms then Some (d, rehashes + 100)
            else dictRehashMilliseconds_loop d es ms (rehashes + 100))
     else Some (d, rehashes) }"

definition dictRehashMilliseconds :: "('k, 'v) dict \<Rightarrow> int list \<Rightarrow> int \<Rightarrow> (('k, 'v) dict \<times> nat) option" where
  "dictRehashMilliseconds d elapsed ms = dictRehashMilliseconds_loop d elapsed ms 0"

definition dictRehashStep :: "('k, 'v) dict \<Rightarrow> ('k, 'v) dict option" where
  "dictRehashStep d = (if d_iterators d = 0 then map_option fst (dictRehash d 1) else Some d)"

section \<open>Lookup, insertion and deletion\<close>

text \<open>\<open>while(he) { if (match) return he; he = he->next; }\<close> gives the place of the entry.\<close>

fun chain_find :: "('k, 'v) dictType \<Rightarrow> 'k \<Rightarrow> ('k, 'v) chain \<Rightarrow> nat option" where
  "chain_find t key [] = None"
| "chain_find t key (he # next) =
     (if key_matches t key he then Some 0 else map_option Suc (chain_find t key next))"

text \<open>
  The loop \<open>for (table = 0; table <= 1; table++)\<close> that \<open>dictFind\<close>,
  \<open>dictGenericDelete\<close> and \<open>_dictKeyIndex\<close> share: the position of a matching entry,
  and the bucket index in the table that was searched last.
\<close>

definition dict_search :: "('k, 'v) dict \<Rightarrow> 'k \<Rightarrow> 64 word \<Rightarrow> (entry_ref option \<times> nat) option" where
  "dict_search d key h = do {
     idx \<leftarrow> Some (bucket_index h (ht_sizemask (d_ht0 d)));
     c \<leftarrow> nth_opt (ht_table (d_ht0 d)) idx;
     case chain_find (d_type d) key c of
       Some p \<Rightarrow> Some (Some (0, idx, p), idx)
     | None \<Rightarrow>
         if \<not> dictIsRehashing d then Some (None, idx)
         else do {
           idx \<leftarrow> Some (bucket_index h (ht_sizemask (d_ht1 d)));
           c \<leftarrow> nth_opt (ht_table (d_ht1 d)) idx;
           case chain_find (d_type d) key c of
             Some p \<Rightarrow> Some (Some (1, idx, p), idx)
           | None \<Rightarrow> Some (None, idx) } }"

definition dictFind :: "('k, 'v) dict \<Rightarrow> 'k \<Rightarrow> (('k, 'v) dict \<times> entry_ref option) option" where
  "dictFind d key =
     (if ht_used (d_ht0 d) + ht_used (d_ht1 d) = 0 then Some (d, None)
      else do {
        d \<leftarrow> (if dictIsRehashing d then dictRehashStep d else Some d);
        (r, idx) \<leftarrow> dict_search d key (hashFunction (d_type d) key);
        Some (d, r) })"

definition dictFetchValue :: "('k, 'v) dict \<Rightarrow> 'k \<Rightarrow> (('k, 'v) dict \<times> 'v option) option" where
  "dictFetchValue d key = do {
     (d, r) \<leftarrow> dictFind d key;
     case r of None \<Rightarrow> Some (d, None)
     | Some r \<Rightarrow> do { e \<leftarrow> get_entry d r; Some (d, Some (de_val e)) } }"

text \<open>
  The result: the index of the slot, or \<open>None\<close> for -1, and the entry that
  \<open>*existing\<close> is set to.
\<close>

definition dictKeyIndex :: "bool \<Rightarrow> ('k, 'v) dict \<Rightarrow> 'k \<Rightarrow> 64 word
    \<Rightarrow> (('k, 'v) dict \<times> nat option \<times> entry_ref option) option" where
  "dictKeyIndex can_resize d key hash = do {
     (d, ok) \<leftarrow> dictExpandIfNeeded can_resize d;
     if \<not> ok then Some (d, None, None)
     else do {
       (r, idx) \<leftarrow> dict_search d key hash;
       case r of Some r \<Rightarrow> Some (d, None, Some r)
       | None \<Rightarrow> Some (d, Some idx, None) } }"

text \<open>
  The new entry is the head of its chain; its value is what the allocation held,
  \<open>junk\<close>, until the caller sets it. The result has the new entry and the existing one.
\<close>

definition dictAddRaw :: "bool \<Rightarrow> 'v \<Rightarrow> ('k, 'v) dict \<Rightarrow> 'k
    \<Rightarrow> (('k, 'v) dict \<times> entry_ref option \<times> entry_ref option) option" where
  "dictAddRaw can_resize junk d key = do {
     d \<leftarrow> (if dictIsRehashing d then dictRehashStep d else Some d);
     (d, index, existing) \<leftarrow> dictKeyIndex can_resize d key (hashFunction (d_type d) key);
     case index of None \<Rightarrow> Some (d, None, existing)
     | Some index \<Rightarrow> do {
         table \<leftarrow> Some (if dictIsRehashing d then 1 else 0);
         ht \<leftarrow> Some (ht_of d table);
         entry \<leftarrow> Some \<lparr>de_key = dictKeyOf (d_type d) key, de_val = junk\<rparr>;
         c \<leftarrow> nth_opt (ht_table ht) index;
         t \<leftarrow> upd_opt (ht_table ht) index (entry # c);
         Some (set_ht d table (ht\<lparr>ht_table := t, ht_used := ht_used ht + 1\<rparr>),
           Some (table, index, 0), existing) } }"

definition dictAdd :: "bool \<Rightarrow> 'v \<Rightarrow> ('k, 'v) dict \<Rightarrow> 'k \<Rightarrow> 'v \<Rightarrow> (('k, 'v) dict \<times> bool) option" where
  "dictAdd can_resize junk d key val = do {
     (d, entry, existing) \<leftarrow> dictAddRaw can_resize junk d key;
     case entry of None \<Rightarrow> Some (d, False)
     | Some r \<Rightarrow> do { d \<leftarrow> dictSetVal d r val; Some (d, True) } }"

text \<open>Dereferencing \<open>existing\<close> when it is \<open>NULL\<close> is undefined.\<close>

definition dictReplace :: "bool \<Rightarrow> 'v \<Rightarrow> ('k, 'v) dict \<Rightarrow> 'k \<Rightarrow> 'v \<Rightarrow> (('k, 'v) dict \<times> bool) option" where
  "dictReplace can_resize junk d key val = do {
     (d, entry, existing) \<leftarrow> dictAddRaw can_resize junk d key;
     case entry of Some r \<Rightarrow> do { d \<leftarrow> dictSetVal d r val; Some (d, True) }
     | None \<Rightarrow> do {
         r \<leftarrow> existing;
         d \<leftarrow> dictSetVal d r val;
         Some (d, False) } }"

definition dictAddOrFind :: "bool \<Rightarrow> 'v \<Rightarrow> ('k, 'v) dict \<Rightarrow> 'k
    \<Rightarrow> (('k, 'v) dict \<times> entry_ref option) option" where
  "dictAddOrFind can_resize junk d key = do {
     (d, entry, existing) \<leftarrow> dictAddRaw can_resize junk d key;
     Some (d, if entry \<noteq> None then entry else existing) }"

text \<open>The entry that was unlinked; whether it is also released does not change the dictionary.\<close>

definition dictGenericDelete :: "('k, 'v) dict \<Rightarrow> 'k \<Rightarrow> (('k, 'v) dict \<times> ('k, 'v) dictEntry option) option" where
  "dictGenericDelete d key =
     (if ht_used (d_ht0 d) = 0 \<and> ht_used (d_ht1 d) = 0 then Some (d, None)
      else do {
        d \<leftarrow> (if dictIsRehashing d then dictRehashStep d else Some d);
        (r, _) \<leftarrow> dict_search d key (hashFunction (d_type d) key);
        case r of None \<Rightarrow> Some (d, None)
        | Some (table, idx, pos) \<Rightarrow> do {
            ht \<leftarrow> Some (ht_of d table);
            c \<leftarrow> nth_opt (ht_table ht) idx;
            he \<leftarrow> nth_opt c pos;
            t \<leftarrow> upd_opt (ht_table ht) idx (del_at pos c);
            Some (set_ht d table (ht\<lparr>ht_table := t, ht_used := ht_used ht - 1\<rparr>), Some he) } })"

definition dictDelete :: "('k, 'v) dict \<Rightarrow> 'k \<Rightarrow> (('k, 'v) dict \<times> bool) option" where
  "dictDelete d key = map_option (apsnd (\<lambda>he. he \<noteq> None)) (dictGenericDelete d key)"

definition dictUnlink :: "('k, 'v) dict \<Rightarrow> 'k \<Rightarrow> (('k, 'v) dict \<times> ('k, 'v) dictEntry option) option" where
  "dictUnlink d key = dictGenericDelete d key"

section \<open>Clearing\<close>

text \<open>The loop of \<open>_dictClear\<close>; the list has the entries that it releases, in order.\<close>

function dictClear_loop :: "('k, 'v) dictht \<Rightarrow> nat \<Rightarrow> ('k, 'v) chain \<Rightarrow> ('k, 'v) chain option" where
  "dictClear_loop ht i freed =
     (if i < ht_size ht \<and> ht_used ht > 0 then
        (case nth_opt (ht_table ht) i of None \<Rightarrow> None
         | Some c \<Rightarrow> dictClear_loop (ht\<lparr>ht_used := ht_used ht - length c\<rparr>) (i + 1) (freed @ c))
      else Some freed)"
  by pat_completeness auto
termination
  by (relation "measure (\<lambda>(ht, i, freed). ht_size ht - i)") auto

declare dictClear_loop.simps [simp del]

definition dictClear :: "('k, 'v) dictht \<Rightarrow> (('k, 'v) dictht \<times> ('k, 'v) chain) option" where
  "dictClear ht = map_option (\<lambda>freed. (dictReset, freed)) (dictClear_loop ht 0 [])"

definition dictEmpty :: "('k, 'v) dict \<Rightarrow> (('k, 'v) dict \<times> ('k, 'v) chain) option" where
  "dictEmpty d = do {
     (h0, f0) \<leftarrow> dictClear (d_ht0 d);
     (h1, f1) \<leftarrow> dictClear (d_ht1 d);
     Some (d\<lparr>d_ht0 := h0, d_ht1 := h1, d_rehashidx := -1, d_iterators := 0\<rparr>, f0 @ f1) }"

text \<open>\<open>dictRelease\<close> also releases the struct itself; what is left are the entries it released.\<close>

definition dictRelease :: "('k, 'v) dict \<Rightarrow> ('k, 'v) chain option" where
  "dictRelease d = do {
     (_, f0) \<leftarrow> dictClear (d_ht0 d);
     (_, f1) \<leftarrow> dictClear (d_ht1 d);
     Some (f0 @ f1) }"

end
