(* ===== verification/Dict_Correct.thy ===== *)
theory Dict_Correct
  imports Dict "HOL-Library.Multiset"
begin

text \<open>
  Correctness of \<^verbatim>\<open>dict.c\<close>: the invariant of dictionaries (sizes are powers
  of two, every entry is in the bucket of its hash, the counters are right, the
  buckets below \<open>rehashidx\<close> are empty, no key occurs twice), its preservation by every
  operation, and the behaviour of the operations as those of a finite map, in
  every phase of an incremental rehash.
\<close>

section \<open>Entries, keys and the invariant\<close>

definition keq :: "('k, 'v) dictType \<Rightarrow> 'k \<Rightarrow> 'k \<Rightarrow> bool" where
  "keq t k k' \<longleftrightarrow> k = k' \<or> dictCompareKeys t k k'"

lemma key_matches_keq: "key_matches t k e \<longleftrightarrow> keq t k (de_key e)"
  by (simp add: key_matches_def keq_def)

text \<open>
  What \<^verbatim>\<open>dict.c\<close> requires of the callbacks: keys that match each other are
  an equivalence class, they have one hash, and duplicating a key stays in its class.
\<close>

definition key_contract :: "('k, 'v) dictType \<Rightarrow> bool" where
  "key_contract t \<longleftrightarrow>
     (\<forall>a b. keq t a b \<longrightarrow> keq t b a) \<and>
     (\<forall>a b c. keq t a b \<longrightarrow> keq t b c \<longrightarrow> keq t a c) \<and>
     (\<forall>a b. keq t a b \<longrightarrow> hashFunction t a = hashFunction t b) \<and>
     (\<forall>a. keq t (dictKeyOf t a) a)"

lemma key_contractD:
  assumes "key_contract t"
  shows keq_sym: "keq t a b \<Longrightarrow> keq t b a" and keq_trans: "keq t a b \<Longrightarrow> keq t b c \<Longrightarrow> keq t a c"
    and keq_hash: "keq t a b \<Longrightarrow> hashFunction t a = hashFunction t b" and keq_dup: "keq t (dictKeyOf t a) a"
  using assms unfolding key_contract_def by blast+

lemma keq_refl [simp]: "keq t k k"
  by (simp add: keq_def)

abbreviation ht_entries :: "('k, 'v) dictht \<Rightarrow> ('k, 'v) chain" where
  "ht_entries h \<equiv> concat (ht_table h)"

definition dict_entries :: "('k, 'v) dict \<Rightarrow> ('k, 'v) chain" where
  "dict_entries d = ht_entries (d_ht0 d) @ ht_entries (d_ht1 d)"

definition ht_shape :: "('k, 'v) dictht \<Rightarrow> bool" where
  "ht_shape h \<longleftrightarrow>
     length (ht_table h) = ht_size h \<and>
     (ht_size h = 0 \<and> ht_sizemask h = 0 \<or>
      (\<exists>k \<in> {2..63}. ht_size h = 2 ^ k \<and> ht_sizemask h = 2 ^ k - 1))"

definition ht_placed :: "('k, 'v) dictType \<Rightarrow> ('k, 'v) dictht \<Rightarrow> bool" where
  "ht_placed t h \<longleftrightarrow>
     (\<forall>i < length (ht_table h). \<forall>e \<in> set (ht_table h ! i).
        bucket_index (hashFunction t (de_key e)) (ht_sizemask h) = i)"

definition ht_wf :: "('k, 'v) dictType \<Rightarrow> ('k, 'v) dictht \<Rightarrow> bool" where
  "ht_wf t h \<longleftrightarrow> ht_shape h \<and> ht_placed t h \<and> ht_used h = length (ht_entries h)"

definition distinct_keys :: "('k, 'v) dictType \<Rightarrow> ('k, 'v) chain \<Rightarrow> bool" where
  "distinct_keys t es \<longleftrightarrow> (\<forall>k. length (filter (key_matches t k) es) \<le> 1)"

definition dict_shape :: "('k, 'v) dict \<Rightarrow> bool" where
  "dict_shape d \<longleftrightarrow>
     ht_wf (d_type d) (d_ht0 d) \<and> ht_wf (d_type d) (d_ht1 d) \<and>
     (if dictIsRehashing d
      then 0 \<le> d_rehashidx d \<and> 0 < ht_size (d_ht0 d) \<and> 0 < ht_size (d_ht1 d) \<and>
        (\<forall>i < ht_size (d_ht0 d). int i < d_rehashidx d \<longrightarrow> ht_table (d_ht0 d) ! i = [])
      else d_ht1 d = dictReset)"

definition dict_wf :: "('k, 'v) dict \<Rightarrow> bool" where
  "dict_wf d \<longleftrightarrow> dict_shape d \<and> distinct_keys (d_type d) (dict_entries d)"

text \<open>The finite map that a dictionary stands for.\<close>

definition es_lookup :: "('k, 'v) dictType \<Rightarrow> ('k, 'v) chain \<Rightarrow> 'k \<Rightarrow> 'v option" where
  "es_lookup t es k =
     (case filter (key_matches t k) es of [] \<Rightarrow> None | e # _ \<Rightarrow> Some (de_val e))"

definition dict_lookup :: "('k, 'v) dict \<Rightarrow> 'k \<Rightarrow> 'v option" where
  "dict_lookup d = es_lookup (d_type d) (dict_entries d)"

section \<open>Buckets\<close>

lemma bucket_index_mod:
  assumes "k < 64"
  shows "bucket_index h (2 ^ k - 1) = unat h mod 2 ^ k"
proof -
  have "(of_nat (2 ^ k - 1) :: 64 word) = mask k"
    by (simp add: of_nat_diff mask_eq_exp_minus_1)
  then have "bucket_index h (2 ^ k - 1) = unat (take_bit k h)"
    by (simp add: bucket_index_def take_bit_eq_mask)
  also have "\<dots> = take_bit k (unat h)"
    using assms by (simp add: unsigned_take_bit_eq)
  finally show ?thesis by (simp add: take_bit_eq_mod)
qed

lemma bucket_index_less:
  assumes "ht_wf t h" and "0 < ht_size h"
  shows "bucket_index x (ht_sizemask h) < ht_size h"
proof -
  from assms obtain k where "k \<in> {2..63}" "ht_size h = 2 ^ k" "ht_sizemask h = 2 ^ k - 1"
    by (auto simp: ht_wf_def ht_shape_def)
  then show ?thesis using bucket_index_mod [of k x] by simp
qed

lemma mset_concat_update:
  "i < length t \<Longrightarrow> mset (concat (t[i := c])) + mset (t ! i) = mset (concat t) + mset c"
  by (induction t arbitrary: i) (auto split: nat.splits)

lemma length_concat_update:
  "i < length t \<Longrightarrow> length (concat (t[i := c])) + length (t ! i) = length (concat t) + length c"
  using mset_concat_update [of i t c] by (metis mset_append size_mset length_append)

lemma distinct_keys_mset: "mset es = mset es' \<Longrightarrow> distinct_keys t es \<longleftrightarrow> distinct_keys t es'"
  unfolding distinct_keys_def by (metis mset_filter size_mset)

lemma filter_le1_mset:
  assumes "mset es = mset es'" and "length (filter P es) \<le> 1"
  shows "filter P es = filter P es'"
proof -
  have m: "mset (filter P es) = mset (filter P es')" using assms(1) by simp
  show ?thesis
  proof (cases "filter P es")
    case Nil
    with m show ?thesis by simp
  next
    case (Cons e l)
    with assms(2) have "filter P es = [e]" by simp
    with m have "mset (filter P es') = {#e#}" by simp
    then have "filter P es' = [e]" by (simp only: mset_single_iff)
    with \<open>filter P es = [e]\<close> show ?thesis by simp
  qed
qed

lemma es_lookup_mset:
  assumes "mset es = mset es'" and "distinct_keys t es"
  shows "es_lookup t es = es_lookup t es'"
proof
  fix k
  have "filter (key_matches t k) es = filter (key_matches t k) es'"
    using assms by (intro filter_le1_mset) (auto simp: distinct_keys_def)
  then show "es_lookup t es k = es_lookup t es' k" by (simp add: es_lookup_def)
qed

lemma es_lookup_Cons:
  "es_lookup t (e # es) k = (if keq t k (de_key e) then Some (de_val e) else es_lookup t es k)"
  by (simp add: es_lookup_def key_matches_keq)

lemma es_lookup_None: "\<forall>e \<in> set es. \<not> key_matches t k e \<Longrightarrow> es_lookup t es k = None"
proof -
  assume "\<forall>e \<in> set es. \<not> key_matches t k e"
  then have "filter (key_matches t k) es = []" by (simp add: filter_empty_conv)
  then show ?thesis by (simp add: es_lookup_def)
qed

lemma distinct_keys_Cons:
  assumes "key_contract t"
  shows "distinct_keys t (e # es) \<longleftrightarrow> distinct_keys t es \<and> (\<forall>f \<in> set es. \<not> keq t (de_key e) (de_key f))"
proof
  assume a: "distinct_keys t (e # es)"
  have "length (filter (key_matches t k) es) \<le> 1" for k
    using a [unfolded distinct_keys_def, rule_format, of k] by (simp split: if_splits)
  moreover have "filter (key_matches t (de_key e)) es = []"
    using a [unfolded distinct_keys_def, rule_format, of "de_key e"]
    by (simp add: key_matches_keq keq_def)
  ultimately show "distinct_keys t es \<and> (\<forall>f \<in> set es. \<not> keq t (de_key e) (de_key f))"
    by (auto simp: distinct_keys_def filter_empty_conv key_matches_keq)
next
  assume a: "distinct_keys t es \<and> (\<forall>f \<in> set es. \<not> keq t (de_key e) (de_key f))"
  have "filter (key_matches t k) es = []" if "key_matches t k e" for k
  proof -
    have "\<not> key_matches t k f" if "f \<in> set es" for f
      using a that \<open>key_matches t k e\<close> assms unfolding key_matches_keq key_contract_def by blast
    then show ?thesis by (simp add: filter_empty_conv)
  qed
  then show "distinct_keys t (e # es)"
    using a by (auto simp: distinct_keys_def)
qed

section \<open>Adding to and removing from one table\<close>

definition ht_put :: "('k, 'v) dictht \<Rightarrow> nat \<Rightarrow> ('k, 'v) dictEntry \<Rightarrow> ('k, 'v) dictht" where
  "ht_put h i e = h\<lparr>ht_table := (ht_table h)[i := e # ht_table h ! i], ht_used := ht_used h + 1\<rparr>"

lemma ht_put_simps [simp]: "ht_size (ht_put h i e) = ht_size h" "ht_sizemask (ht_put h i e) = ht_sizemask h"
  by (simp_all add: ht_put_def)

lemma ht_wf_length: "ht_wf t h \<Longrightarrow> length (ht_table h) = ht_size h"
  by (simp add: ht_wf_def ht_shape_def)

text \<open>Replacing one chain by another one whose entries belong there.\<close>

lemma ht_wf_upd:
  assumes wf: "ht_wf t h" and il: "i < ht_size h"
    and c: "\<forall>e \<in> set c. bucket_index (hashFunction t (de_key e)) (ht_sizemask h) = i"
    and n: "n + length (ht_table h ! i) = ht_used h + length c"
  shows "ht_wf t (h\<lparr>ht_table := (ht_table h)[i := c], ht_used := n\<rparr>)"
proof -
  have il': "i < length (ht_table h)" using wf il by (simp add: ht_wf_length)
  have "ht_shape (h\<lparr>ht_table := (ht_table h)[i := c], ht_used := n\<rparr>)"
    using wf by (simp add: ht_wf_def ht_shape_def)
  moreover have "ht_placed t (h\<lparr>ht_table := (ht_table h)[i := c], ht_used := n\<rparr>)"
    using wf c il' by (simp add: ht_wf_def ht_placed_def nth_list_update)
  moreover have "n = length (concat ((ht_table h)[i := c]))"
    using length_concat_update [OF il', of c] n wf by (simp add: ht_wf_def)
  ultimately show ?thesis by (simp add: ht_wf_def)
qed

lemma ht_wf_bucket:
  "ht_wf t h \<Longrightarrow> i < ht_size h \<Longrightarrow> e \<in> set (ht_table h ! i) \<Longrightarrow>
    bucket_index (hashFunction t (de_key e)) (ht_sizemask h) = i"
  by (simp add: ht_wf_def ht_placed_def ht_shape_def)

lemma ht_wf_put:
  assumes wf: "ht_wf t h" and sz: "0 < ht_size h" and i: "i = bucket_index (hashFunction t (de_key e)) (ht_sizemask h)"
  shows "ht_wf t (ht_put h i e)" and "mset (ht_entries (ht_put h i e)) = add_mset e (mset (ht_entries h))"
proof -
  have il: "i < ht_size h" using bucket_index_less [OF wf sz] i by simp
  show "ht_wf t (ht_put h i e)"
    unfolding ht_put_def using wf il i by (intro ht_wf_upd) (auto dest: ht_wf_bucket)
  have "i < length (ht_table h)" using wf il by (simp add: ht_wf_length)
  then show "mset (ht_entries (ht_put h i e)) = add_mset e (mset (ht_entries h))"
    using mset_concat_update [of i "ht_table h" "e # ht_table h ! i"] by (simp add: ht_put_def)
qed

section \<open>Incremental rehashing\<close>

lemma dictRehash_skip_correct:
  assumes "\<exists>j \<ge> i. j < length t \<and> t ! j \<noteq> []"
  shows "\<exists>i' ev' stop. dictRehash_skip t i ev = Some (i', ev', stop) \<and> i \<le> i' \<and>
    (\<forall>j. i \<le> j \<longrightarrow> j < i' \<longrightarrow> t ! j = []) \<and> (\<not> stop \<longrightarrow> i' < length t)"
  using assms
proof (induction t i ev rule: dictRehash_skip.induct)
  case (1 t i ev)
  then obtain j where j: "i \<le> j" "j < length t" "t ! j \<noteq> []" by blast
  then have il: "i < length t" by simp
  show ?case
  proof (cases "t ! i \<noteq> [] \<or> ev - 1 = 0")
    case True
    with il show ?thesis
      by (subst dictRehash_skip.simps) (auto simp: le_Suc_eq less_Suc_eq)
  next
    case False
    then have "j \<noteq> i" using j by auto
    then have ex: "\<exists>j \<ge> i + 1. j < length t \<and> t ! j \<noteq> []" using j by (intro exI [of _ j]) auto
    obtain i' ev' stop where r: "dictRehash_skip t (i + 1) (ev - 1) = Some (i', ev', stop)" "i + 1 \<le> i'"
      "\<forall>j. i + 1 \<le> j \<longrightarrow> j < i' \<longrightarrow> t ! j = []" "\<not> stop \<longrightarrow> i' < length t"
      using "1.IH" [OF il _ _ ex] False by auto
    have "dictRehash_skip t i ev = Some (i', ev', stop)"
      using il False r(1) by (subst dictRehash_skip.simps) simp
    moreover have "t ! j = []" if "i \<le> j" "j < i'" for j
      using r(3) that False by (cases "j = i") auto
    ultimately show ?thesis using r by auto
  qed
qed

lemma dictRehash_move_correct:
  assumes "ht_wf t h1" and "0 < ht_size h1"
  shows "\<exists>h1'. dictRehash_move t des h0 h1 = Some (h0\<lparr>ht_used := ht_used h0 - length des\<rparr>, h1') \<and>
    ht_wf t h1' \<and> ht_size h1' = ht_size h1 \<and> mset (ht_entries h1') = mset des + mset (ht_entries h1)"
  using assms
proof (induction des arbitrary: h0 h1)
  case Nil
  then show ?case by simp
next
  case (Cons de des)
  define i where "i = bucket_index (hashFunction t (de_key de)) (ht_sizemask h1)"
  have il: "i < length (ht_table h1)"
    using bucket_index_less [OF Cons.prems] Cons.prems(1) by (simp add: i_def ht_wf_length)
  note put = ht_wf_put [OF Cons.prems i_def]
  obtain h1' where h1': "dictRehash_move t des (h0\<lparr>ht_used := ht_used h0 - 1\<rparr>) (ht_put h1 i de) =
      Some (h0\<lparr>ht_used := ht_used h0 - 1\<rparr>\<lparr>ht_used := ht_used h0 - 1 - length des\<rparr>, h1')"
    "ht_wf t h1'" "ht_size h1' = ht_size h1" "mset (ht_entries h1') = mset des + mset (ht_entries (ht_put h1 i de))"
    using Cons.IH [OF put(1), of "h0\<lparr>ht_used := ht_used h0 - 1\<rparr>"] Cons.prems(2) by auto
  have "dictRehash_move t (de # des) h0 h1 =
      dictRehash_move t des (h0\<lparr>ht_used := ht_used h0 - 1\<rparr>) (ht_put h1 i de)"
    using il by (simp add: nth_opt_def upd_opt_def ht_put_def flip: i_def)
  with h1' put(2) show ?case by simp
qed

text \<open>One dictionary is another one with entries moved around: the same finite map.\<close>

definition same_map :: "('k, 'v) dict \<Rightarrow> ('k, 'v) dict \<Rightarrow> bool" where
  "same_map d d' \<longleftrightarrow>
     mset (dict_entries d') = mset (dict_entries d) \<and> d_type d' = d_type d \<and>
     d_iterators d' = d_iterators d"

lemma same_map_refl [simp]: "same_map d d"
  by (simp add: same_map_def)

lemma same_map_trans: "same_map d d' \<Longrightarrow> same_map d' d'' \<Longrightarrow> same_map d d''"
  by (simp add: same_map_def)

lemma same_map_lookup: "dict_wf d \<Longrightarrow> same_map d d' \<Longrightarrow> dict_lookup d' = dict_lookup d"
  using es_lookup_mset [of "dict_entries d" "dict_entries d'" "d_type d"]
  by (simp add: same_map_def dict_wf_def dict_lookup_def)

lemma same_map_distinct:
  "dict_wf d \<Longrightarrow> same_map d d' \<Longrightarrow> distinct_keys (d_type d') (dict_entries d')"
  using distinct_keys_mset [of "dict_entries d" "dict_entries d'"] by (simp add: same_map_def dict_wf_def)

lemma dict_wf_rehashing:
  assumes "dict_wf d" and "dictIsRehashing d"
  shows "ht_wf (d_type d) (d_ht0 d)" "ht_wf (d_type d) (d_ht1 d)" "0 \<le> d_rehashidx d"
    "0 < ht_size (d_ht0 d)" "0 < ht_size (d_ht1 d)"
    "\<And>i. i < ht_size (d_ht0 d) \<Longrightarrow> int i < d_rehashidx d \<Longrightarrow> ht_table (d_ht0 d) ! i = []"
  using assms by (auto simp: dict_wf_def dict_shape_def)

lemma used_nonzero_bucket:
  assumes wf: "dict_wf d" and rh: "dictIsRehashing d" and used: "ht_used (d_ht0 d) \<noteq> 0"
  shows "\<exists>j \<ge> nat (d_rehashidx d). j < length (ht_table (d_ht0 d)) \<and> ht_table (d_ht0 d) ! j \<noteq> []"
proof -
  note w = dict_wf_rehashing [OF wf rh]
  have "ht_entries (d_ht0 d) \<noteq> []" using used w(1) by (auto simp: ht_wf_def)
  then obtain j where j: "j < length (ht_table (d_ht0 d))" "ht_table (d_ht0 d) ! j \<noteq> []"
    by (auto simp: in_set_conv_nth)
  then have "\<not> int j < d_rehashidx d" using w(6) ht_wf_length [OF w(1)] by auto
  then show ?thesis using j by (intro exI [of _ j]) auto
qed

text \<open>One step of the loop: bucket \<open>i\<close> moves to the second table.\<close>

lemma dictRehash_bucket:
  assumes wf: "dict_wf d" and rh: "dictIsRehashing d" and i: "i < ht_size (d_ht0 d)"
    and empty: "\<And>j. j < i \<Longrightarrow> ht_table (d_ht0 d) ! j = []"
    and mv: "dictRehash_move (d_type d) (ht_table (d_ht0 d) ! i) (d_ht0 d) (d_ht1 d) = Some (h0, h1)"
  defines "d' \<equiv> d\<lparr>d_ht0 := h0\<lparr>ht_table := (ht_table h0)[i := []]\<rparr>, d_ht1 := h1, d_rehashidx := int i + 1\<rparr>"
  shows "dict_wf d'" and "same_map d d'" and "dictIsRehashing d'"
    and "ht_size (d_ht0 d') = ht_size (d_ht0 d)" and "ht_size (d_ht1 d') = ht_size (d_ht1 d)"
    and "ht_table h0 = ht_table (d_ht0 d)"
proof -
  note w = dict_wf_rehashing [OF wf rh]
  let ?c = "ht_table (d_ht0 d) ! i"
  have h0: "h0 = (d_ht0 d)\<lparr>ht_used := ht_used (d_ht0 d) - length ?c\<rparr>"
    and h1: "ht_wf (d_type d) h1" "ht_size h1 = ht_size (d_ht1 d)"
      "mset (ht_entries h1) = mset ?c + mset (ht_entries (d_ht1 d))"
    using dictRehash_move_correct [OF w(2,5), of ?c "d_ht0 d"] mv by auto
  have il: "i < length (ht_table (d_ht0 d))" using i w(1) by (simp add: ht_wf_length)
  have le: "length ?c \<le> ht_used (d_ht0 d)"
    using length_concat_update [OF il, of "[]"] w(1) by (simp add: ht_wf_def)
  have wf0: "ht_wf (d_type d) ((d_ht0 d)\<lparr>ht_table := (ht_table (d_ht0 d))[i := []],
      ht_used := ht_used (d_ht0 d) - length ?c\<rparr>)"
    using w(1) i le by (intro ht_wf_upd) auto
  have d': "d_ht0 d' = (d_ht0 d)\<lparr>ht_table := (ht_table (d_ht0 d))[i := []], ht_used := ht_used (d_ht0 d) - length ?c\<rparr>"
    "d_ht1 d' = h1" "d_rehashidx d' = int i + 1" "d_type d' = d_type d" "d_iterators d' = d_iterators d"
    by (simp_all add: d'_def h0)
  show sm: "same_map d d'"
    using mset_concat_update [OF il, of "[]"] h1(3) d'
    by (simp add: same_map_def dict_entries_def)
  show "dictIsRehashing d'" by (simp add: dictIsRehashing_def d'(3))
  moreover have "ht_table (d_ht0 d') ! j = []" if "j < ht_size (d_ht0 d')" "int j < d_rehashidx d'" for j
    using that empty il d'(1,3) by (cases "j = i") auto
  ultimately show "dict_wf d'"
    unfolding dict_wf_def dict_shape_def using wf0 h1 w d' same_map_distinct [OF wf sm] by simp
  show "ht_size (d_ht0 d') = ht_size (d_ht0 d)" "ht_size (d_ht1 d') = ht_size (d_ht1 d)"
    using d' h1 by simp_all
  show "ht_table h0 = ht_table (d_ht0 d)" by (simp add: h0)
qed

lemma dict_wf_advance:
  assumes wf: "dict_wf d" and rh: "dictIsRehashing d"
    and empty: "\<And>j. j < i \<Longrightarrow> j < ht_size (d_ht0 d) \<Longrightarrow> ht_table (d_ht0 d) ! j = []"
  shows "dict_wf (d\<lparr>d_rehashidx := int i\<rparr>)"
  using wf rh empty by (auto simp: dict_wf_def dict_shape_def dictIsRehashing_def dict_entries_def)

lemma dictRehash_loop_correct:
  assumes "dict_wf d" and "dictIsRehashing d"
  shows "\<exists>d' stop. dictRehash_loop n d ev = Some (d', stop) \<and> dict_wf d' \<and> same_map d d' \<and>
    dictIsRehashing d' \<and> ht_size (d_ht0 d') = ht_size (d_ht0 d) \<and> ht_size (d_ht1 d') = ht_size (d_ht1 d)"
  using assms
proof (induction n arbitrary: d ev)
  case 0
  then show ?case by auto
next
  case (Suc n)
  note w = dict_wf_rehashing [OF Suc.prems]
  show ?case
  proof (cases "ht_used (d_ht0 d) = 0")
    case True
    then show ?thesis using Suc.prems by auto
  next
    case False
    note ex = used_nonzero_bucket [OF Suc.prems False]
    obtain i ev' stop where sk: "dictRehash_skip (ht_table (d_ht0 d)) (nat (d_rehashidx d)) ev = Some (i, ev', stop)"
      "nat (d_rehashidx d) \<le> i" "\<forall>j. nat (d_rehashidx d) \<le> j \<longrightarrow> j < i \<longrightarrow> ht_table (d_ht0 d) ! j = []"
      "\<not> stop \<longrightarrow> i < length (ht_table (d_ht0 d))"
      using dictRehash_skip_correct [OF ex] by blast
    have lt: "nat (d_rehashidx d) < ht_size (d_ht0 d)" using ex ht_wf_length [OF w(1)] by auto
    have empty: "ht_table (d_ht0 d) ! j = []" if "j < i" "j < ht_size (d_ht0 d)" for j
      using sk(3) w(6) [OF that(2)] that by (cases "nat (d_rehashidx d) \<le> j") auto
    show ?thesis
    proof (cases stop)
      case True
      have "dict_wf (d\<lparr>d_rehashidx := int i\<rparr>)" using Suc.prems empty by (rule dict_wf_advance)
      moreover have "dictRehash_loop (Suc n) d ev = Some (d\<lparr>d_rehashidx := int i\<rparr>, True)"
        using False lt sk(1) True by simp
      moreover have "same_map d (d\<lparr>d_rehashidx := int i\<rparr>)" "dictIsRehashing (d\<lparr>d_rehashidx := int i\<rparr>)"
        by (simp_all add: same_map_def dict_entries_def dictIsRehashing_def)
      ultimately show ?thesis by fastforce
    next
      case ns: False
      then have il: "i < ht_size (d_ht0 d)" using sk(4) ht_wf_length [OF w(1)] by simp
      obtain h0 h1 where mv: "dictRehash_move (d_type d) (ht_table (d_ht0 d) ! i) (d_ht0 d) (d_ht1 d) = Some (h0, h1)"
        using dictRehash_move_correct [OF w(2,5)] by blast
      have "\<And>j. j < i \<Longrightarrow> ht_table (d_ht0 d) ! j = []" using empty il by simp
      note b = dictRehash_bucket [OF Suc.prems il this mv]
      define d' where "d' = d\<lparr>d_ht0 := h0\<lparr>ht_table := (ht_table h0)[i := []]\<rparr>, d_ht1 := h1, d_rehashidx := int i + 1\<rparr>"
      have "dictRehash_loop (Suc n) d ev = dictRehash_loop n d' ev'"
        using False lt sk(1) ns mv il b(6) ht_wf_length [OF w(1)] by (simp add: nth_opt_def upd_opt_def d'_def)
      moreover obtain d'' stop where "dictRehash_loop n d' ev' = Some (d'', stop)" "dict_wf d''" "same_map d' d''"
        "dictIsRehashing d''" "ht_size (d_ht0 d'') = ht_size (d_ht0 d')" "ht_size (d_ht1 d'') = ht_size (d_ht1 d')"
        using Suc.IH [OF b(1,3), folded d'_def] by blast
      ultimately show ?thesis
        using b(2,4,5) [folded d'_def] by (auto intro: same_map_trans)
    qed
  qed
qed

lemma dictReset_wf [simp]: "ht_wf t dictReset"
  by (simp add: ht_wf_def ht_shape_def ht_placed_def dictReset_def)

lemma dictReset_entries [simp]: "ht_entries dictReset = []" "ht_used dictReset = 0" "ht_size dictReset = 0"
  by (simp_all add: dictReset_def)

lemma dictRehash_correct:
  assumes wf: "dict_wf d"
  shows "\<exists>d' more. dictRehash d n = Some (d', more) \<and> dict_wf d' \<and> same_map d d' \<and>
    (more \<longleftrightarrow> dictIsRehashing d') \<and> (dictIsRehashing d' \<longrightarrow> dictIsRehashing d)"
proof (cases "dictIsRehashing d")
  case False
  then show ?thesis using wf by (simp add: dictRehash_def)
next
  case True
  obtain d1 stop where d1: "dictRehash_loop n d (int n * 10) = Some (d1, stop)" "dict_wf d1" "same_map d d1"
    "dictIsRehashing d1" "0 < ht_size (d_ht0 d1)" "0 < ht_size (d_ht1 d1)"
    using dictRehash_loop_correct [OF wf True] dict_wf_rehashing [OF wf True] by metis
  show ?thesis
  proof (cases "stop \<or> ht_used (d_ht0 d1) \<noteq> 0")
    case True
    with d1 \<open>dictIsRehashing d\<close> show ?thesis by (auto simp: dictRehash_def)
  next
    case False
    define d2 where "d2 = d1\<lparr>d_ht0 := d_ht1 d1, d_ht1 := dictReset, d_rehashidx := -1\<rparr>"
    have "ht_entries (d_ht0 d1) = []"
      using False dict_wf_rehashing(1) [OF d1(2,4)] by (simp add: ht_wf_def)
    then have sm: "same_map d1 d2" by (simp add: same_map_def dict_entries_def d2_def del: concat_eq_Nil_conv)
    moreover have "dict_wf d2"
      unfolding dict_wf_def dict_shape_def using dict_wf_rehashing(2) [OF d1(2,4)] same_map_distinct [OF d1(2) sm]
      by (simp add: d2_def dictIsRehashing_def)
    moreover have "dictRehash d n = Some (d2, False)"
      using d1(1) False \<open>dictIsRehashing d\<close> by (simp add: dictRehash_def d2_def)
    moreover have "\<not> dictIsRehashing d2" by (simp add: d2_def dictIsRehashing_def)
    ultimately show ?thesis using d1(3) by (auto intro: same_map_trans)
  qed
qed

lemma dictRehashStep_correct:
  assumes "dict_wf d"
  shows "\<exists>d'. dictRehashStep d = Some d' \<and> dict_wf d' \<and> same_map d d' \<and> (dictIsRehashing d' \<longrightarrow> dictIsRehashing d)"
  using dictRehash_correct [OF assms, of 1] assms by (auto simp: dictRehashStep_def)

section \<open>Searching\<close>

lemma chain_find_None: "chain_find t k c = None \<longleftrightarrow> (\<forall>e \<in> set c. \<not> key_matches t k e)"
  by (induction c) auto

lemma chain_find_Some: "chain_find t k c = Some p \<Longrightarrow> p < length c \<and> key_matches t k (c ! p)"
  by (induction c arbitrary: p) (auto split: if_splits)

text \<open>A matching entry of a table is in the bucket of the hash of the key.\<close>

lemma match_in_bucket:
  assumes "key_contract t" and "ht_wf t h" and "e \<in> set (ht_entries h)" and "key_matches t k e"
  shows "e \<in> set (ht_table h ! bucket_index (hashFunction t k) (ht_sizemask h))"
proof -
  from assms(3) obtain c where "c \<in> set (ht_table h)" "e \<in> set c" by auto
  then obtain i where i: "i < length (ht_table h)" "e \<in> set (ht_table h ! i)"
    by (metis in_set_conv_nth)
  have "hashFunction t k = hashFunction t (de_key e)"
    using keq_hash [OF assms(1)] assms(4) unfolding key_matches_keq by blast
  with i assms(2) show ?thesis by (simp add: ht_wf_def ht_placed_def)
qed

lemma bucket_no_match:
  assumes "key_contract t" and "ht_wf t h"
    and "chain_find t k (ht_table h ! bucket_index (hashFunction t k) (ht_sizemask h)) = None"
  shows "\<forall>e \<in> set (ht_entries h). \<not> key_matches t k e"
  using match_in_bucket [OF assms(1,2)] assms(3) unfolding chain_find_None by blast

text \<open>The index of the table that new entries go to.\<close>

definition target :: "('k, 'v) dict \<Rightarrow> nat" where
  "target d = (if dictIsRehashing d then 1 else 0)"

definition valid_ref :: "('k, 'v) dict \<Rightarrow> entry_ref \<Rightarrow> ('k, 'v) dictEntry \<Rightarrow> bool" where
  "valid_ref d r e = (case r of (table, idx, pos) \<Rightarrow>
     table \<le> target d \<and> idx < ht_size (ht_of d table) \<and>
     pos < length (ht_table (ht_of d table) ! idx) \<and> e = ht_table (ht_of d table) ! idx ! pos)"

lemma dict_shape_ht: "dict_shape d \<Longrightarrow> ht_wf (d_type d) (ht_of d table)"
  by (simp add: dict_shape_def ht_of_def)

lemma dict_shape_rehashing: "dict_shape d \<Longrightarrow> dictIsRehashing d \<Longrightarrow> 0 < ht_size (d_ht1 d)"
  by (simp add: dict_shape_def)

lemma dict_shape_idle: "dict_shape d \<Longrightarrow> \<not> dictIsRehashing d \<Longrightarrow> d_ht1 d = dictReset"
  by (simp add: dict_shape_def)

lemma valid_ref_entry: "dict_shape d \<Longrightarrow> valid_ref d r e \<Longrightarrow> e \<in> set (dict_entries d)"
proof -
  assume a: "dict_shape d" "valid_ref d r e"
  obtain table idx pos where r: "r = (table, idx, pos)" by (cases r)
  have "idx < length (ht_table (ht_of d table))"
    using a r dict_shape_ht [OF a(1), of table] by (simp add: valid_ref_def ht_wf_length)
  then have "e \<in> set (ht_entries (ht_of d table))"
    using a(2) r by (auto simp: valid_ref_def intro!: bexI [of _ "ht_table (ht_of d table) ! idx"])
  then show ?thesis by (auto simp: dict_entries_def ht_of_def split: if_splits)
qed

lemma dict_search_correct:
  assumes kc: "key_contract (d_type d)" and wf: "dict_shape d" and sz: "0 < ht_size (d_ht0 d)"
  shows "\<exists>r idx. dict_search d k (hashFunction (d_type d) k) = Some (r, idx) \<and>
    (case r of None \<Rightarrow> (\<forall>e \<in> set (dict_entries d). \<not> key_matches (d_type d) k e) \<and>
        idx = bucket_index (hashFunction (d_type d) k) (ht_sizemask (ht_of d (target d)))
     | Some r \<Rightarrow> \<exists>e. valid_ref d r e \<and> key_matches (d_type d) k e)"
proof -
  let ?h = "hashFunction (d_type d) k"
  let ?i0 = "bucket_index ?h (ht_sizemask (d_ht0 d))"
  let ?i1 = "bucket_index ?h (ht_sizemask (d_ht1 d))"
  have w: "ht_wf (d_type d) (d_ht0 d)" "ht_wf (d_type d) (d_ht1 d)"
    using wf by (auto simp: dict_shape_def)
  have i0: "?i0 < ht_size (d_ht0 d)" "length (ht_table (d_ht0 d)) = ht_size (d_ht0 d)"
    using bucket_index_less [OF w(1) sz] ht_wf_length [OF w(1)] by auto
  show ?thesis
  proof (cases "chain_find (d_type d) k (ht_table (d_ht0 d) ! ?i0)")
    case (Some p)
    then have "valid_ref d (0, ?i0, p) (ht_table (d_ht0 d) ! ?i0 ! p)"
      "key_matches (d_type d) k (ht_table (d_ht0 d) ! ?i0 ! p)"
      using chain_find_Some [OF Some] i0 by (auto simp: valid_ref_def ht_of_def)
    moreover have "dict_search d k ?h = Some (Some (0, ?i0, p), ?i0)"
      using i0 Some by (simp add: dict_search_def nth_opt_def)
    ultimately show ?thesis by fastforce
  next
    case None
    note n0 = bucket_no_match [OF kc w(1) None]
    show ?thesis
    proof (cases "dictIsRehashing d")
      case False
      then have "d_ht1 d = dictReset" by (rule dict_shape_idle [OF wf])
      with n0 have "\<forall>e \<in> set (dict_entries d). \<not> key_matches (d_type d) k e"
        by (simp add: dict_entries_def)
      moreover have "dict_search d k ?h = Some (None, ?i0)"
        using i0 None False by (simp add: dict_search_def nth_opt_def)
      ultimately show ?thesis using False by (simp add: target_def ht_of_def)
    next
      case True
      have i1: "?i1 < ht_size (d_ht1 d)" "length (ht_table (d_ht1 d)) = ht_size (d_ht1 d)"
        using bucket_index_less [OF w(2) dict_shape_rehashing [OF wf True]] ht_wf_length [OF w(2)] by auto
      show ?thesis
      proof (cases "chain_find (d_type d) k (ht_table (d_ht1 d) ! ?i1)")
        case (Some p)
        then have "valid_ref d (1, ?i1, p) (ht_table (d_ht1 d) ! ?i1 ! p)"
          "key_matches (d_type d) k (ht_table (d_ht1 d) ! ?i1 ! p)"
          using chain_find_Some [OF Some] i1 True by (auto simp: valid_ref_def ht_of_def target_def)
        moreover have "dict_search d k ?h = Some (Some (1, ?i1, p), ?i1)"
          using i0 i1 None True Some by (simp add: dict_search_def nth_opt_def)
        ultimately show ?thesis by fastforce
      next
        case n: None
        note n1 = bucket_no_match [OF kc w(2) n]
        have "dict_search d k ?h = Some (None, ?i1)"
          using i0 i1 None True n by (simp add: dict_search_def nth_opt_def)
        with n0 n1 True show ?thesis by (auto simp: target_def ht_of_def dict_entries_def)
      qed
    qed
  qed
qed

section \<open>Changing one chain\<close>

definition upd_chain :: "('k, 'v) dict \<Rightarrow> nat \<Rightarrow> nat \<Rightarrow> ('k, 'v) chain \<Rightarrow> nat \<Rightarrow> ('k, 'v) dict" where
  "upd_chain d table idx c n =
     set_ht d table ((ht_of d table)\<lparr>ht_table := (ht_table (ht_of d table))[idx := c], ht_used := n\<rparr>)"

lemma upd_chain_simps [simp]:
  "d_type (upd_chain d table idx c n) = d_type d" "d_rehashidx (upd_chain d table idx c n) = d_rehashidx d"
  "d_iterators (upd_chain d table idx c n) = d_iterators d"
  "dictIsRehashing (upd_chain d table idx c n) = dictIsRehashing d"
  "target (upd_chain d table idx c n) = target d"
  by (simp_all add: upd_chain_def set_ht_def dictIsRehashing_def target_def)

lemma upd_chain_entries:
  assumes "dict_shape d" and "idx < ht_size (ht_of d table)"
  shows "mset (dict_entries (upd_chain d table idx c n)) + mset (ht_table (ht_of d table) ! idx) =
    mset (dict_entries d) + mset c"
proof -
  have "idx < length (ht_table (ht_of d table))"
    using assms dict_shape_ht [OF assms(1), of table] by (simp add: ht_wf_length)
  from mset_concat_update [OF this, of c] show ?thesis
    by (auto simp: upd_chain_def dict_entries_def ht_of_def set_ht_def ac_simps)
qed

lemma upd_chain_shape:
  assumes sh: "dict_shape d" and t: "table \<le> target d" and i: "idx < ht_size (ht_of d table)"
    and c: "\<forall>e \<in> set c. bucket_index (hashFunction (d_type d) (de_key e)) (ht_sizemask (ht_of d table)) = idx"
    and n: "n + length (ht_table (ht_of d table) ! idx) = ht_used (ht_of d table) + length c"
    and e: "dictIsRehashing d \<Longrightarrow> table = 0 \<Longrightarrow> int idx < d_rehashidx d \<Longrightarrow> c = []"
  shows "dict_shape (upd_chain d table idx c n)"
proof -
  have "ht_wf (d_type d) ((ht_of d table)\<lparr>ht_table := (ht_table (ht_of d table))[idx := c], ht_used := n\<rparr>)"
    using dict_shape_ht [OF sh] i c n by (rule ht_wf_upd)
  moreover have "(ht_table (ht_of d table))[idx := c] ! j = []"
    if "dictIsRehashing d" "table = 0" "j < ht_size (d_ht0 d)" "int j < d_rehashidx d" for j
    using that sh e dict_shape_ht [OF sh, of 0] by (cases "j = idx") (auto simp: dict_shape_def ht_of_def ht_wf_length)
  ultimately show ?thesis
    using sh t unfolding dict_shape_def upd_chain_simps
    by (auto simp: upd_chain_def set_ht_def ht_of_def target_def split: if_splits)
qed

end
