(* ===== verification/Dict_Ops.thy ===== *)
theory Dict_Ops
  imports Dict_Correct
begin

text \<open>
  The operations of \<^verbatim>\<open>dict.c\<close> as operations on a finite map: table sizes,
  insertion, replacement, deletion, lookup and clearing, in every phase of an
  incremental rehash.
\<close>

section \<open>Table sizes\<close>

lemma dictNextPower_loop_steps:
  assumes "sz \<le> 2 ^ 63" and "k \<in> {2..63}" and "k = 2 \<or> 2 ^ (k - 1) < sz"
  shows "\<exists>m \<in> {2..63}. dictNextPower_loop sz (2 ^ k) = Some (2 ^ m) \<and> sz \<le> 2 ^ m \<and> (m = 2 \<or> 2 ^ (m - 1) < sz)"
  using assms
proof (induction "63 - k" arbitrary: k)
  case 0
  then have "k = 63" by simp
  then show ?case using 0 by (subst dictNextPower_loop.simps) (intro bexI [of _ 63], auto)
next
  case (Suc n)
  show ?case
  proof (cases "sz \<le> 2 ^ k")
    case True
    then show ?thesis using Suc.prems by (subst dictNextPower_loop.simps) auto
  next
    case False
    have k: "Suc k \<in> {2..63}" "n = 63 - Suc k" using Suc.hyps(2) Suc.prems by auto
    have "(2::nat) ^ Suc k < 2 ^ 64" using k by (intro power_strict_increasing) auto
    then have "2 ^ k * 2 mod 2 ^ 64 = (2::nat) ^ Suc k" by simp
    then have "dictNextPower_loop sz (2 ^ k) = dictNextPower_loop sz (2 ^ Suc k)"
      using False by (subst dictNextPower_loop.simps) simp
    then show ?thesis using Suc.hyps(1) [OF k(2) Suc.prems(1) k(1)] False by simp
  qed
qed

text \<open>The size of a new table is the least power of two, from four, that holds the request.\<close>

lemma dictNextPower_correct:
  "\<exists>m \<in> {2..63}. dictNextPower sz = Some (2 ^ m) \<and> (sz \<le> 2 ^ 63 \<longrightarrow> sz \<le> 2 ^ m) \<and>
    (m = 2 \<or> 2 ^ (m - 1) < sz)"
proof (cases "sz \<ge> LONG_MAX")
  case True
  then show ?thesis by (intro bexI [of _ 63]) (auto simp: dictNextPower_def)
next
  case False
  then have "\<exists>m \<in> {2..63}. dictNextPower_loop sz (2 ^ 2) = Some (2 ^ m) \<and> sz \<le> 2 ^ m \<and> (m = 2 \<or> 2 ^ (m - 1) < sz)"
    by (intro dictNextPower_loop_steps) auto
  then show ?thesis using False by (auto simp: dictNextPower_def)
qed

lemma new_table_wf:
  assumes "m \<in> {2..63}"
  shows "ht_wf t \<lparr>ht_table = replicate (2 ^ m) [], ht_size = 2 ^ m, ht_sizemask = 2 ^ m - 1, ht_used = 0\<rparr>"
  using assms by (auto simp: ht_wf_def ht_shape_def ht_placed_def)

lemma dict_wf_empty_table: "dict_wf d \<Longrightarrow> ht_table (d_ht0 d) = [] \<Longrightarrow> \<not> dictIsRehashing d \<and> dict_entries d = []"
  by (cases "dictIsRehashing d") (auto simp: dict_wf_def dict_shape_def ht_wf_def ht_shape_def dict_entries_def)

text \<open>Expanding (or shrinking) keeps the entries.\<close>

lemma dictExpand_correct:
  assumes wf: "dict_wf d"
  obtains d' ok where "dictExpand d sz = Some (d', ok)" "dict_wf d'" "same_map d d'"
    "ok \<longrightarrow> 0 < ht_size (d_ht0 d')"
    "\<not> dictIsRehashing d \<longrightarrow> ht_used (d_ht0 d) \<le> sz \<longrightarrow> ht_size (d_ht0 d) < sz \<longrightarrow> sz \<le> 2 ^ 63 \<longrightarrow> ok"
proof (cases "dictIsRehashing d \<or> ht_used (d_ht0 d) > sz")
  case True
  then show thesis using wf that [of d False] by (auto simp: dictExpand_def)
next
  case idle: False
  obtain m where m: "m \<in> {2..63}" "dictNextPower sz = Some (2 ^ m)" "sz \<le> 2 ^ 63 \<longrightarrow> sz \<le> 2 ^ m"
    using dictNextPower_correct by blast
  define n :: "('a, 'b) dictht" where
    "n = \<lparr>ht_table = replicate (2 ^ m) [], ht_size = 2 ^ m, ht_sizemask = 2 ^ m - 1, ht_used = 0\<rparr>"
  have n: "ht_wf t n" "ht_entries n = []" "ht_size n = 2 ^ m" "ht_used n = 0" for t
    using new_table_wf [OF m(1)] by (auto simp: n_def)
  have h1: "d_ht1 d = dictReset" using idle wf by (auto simp: dict_wf_def dict_shape_def)
  consider "2 ^ m = ht_size (d_ht0 d)" | "2 ^ m \<noteq> ht_size (d_ht0 d)" "ht_table (d_ht0 d) = []"
    | "2 ^ m \<noteq> ht_size (d_ht0 d)" "ht_table (d_ht0 d) \<noteq> []" by blast
  then show thesis
  proof cases
    case 1
    then show thesis using idle wf m that [of d False] by (auto simp: dictExpand_def)
  next
    case 2
    have e: "dict_entries (d\<lparr>d_ht0 := n\<rparr>) = []" "dict_entries d = []"
      using dict_wf_empty_table [OF wf 2(2)] n h1 by (auto simp: dict_entries_def)
    then have "ht_used (d_ht0 d) = 0"
      using wf 2(2) by (simp add: dict_wf_def dict_shape_def ht_wf_def)
    moreover have "dict_wf (d\<lparr>d_ht0 := n\<rparr>)" "same_map d (d\<lparr>d_ht0 := n\<rparr>)"
      using e n h1 idle by (auto simp: dict_wf_def dict_shape_def same_map_def dictIsRehashing_def distinct_keys_def)
    ultimately show thesis
      using idle 2 m n that [of "d\<lparr>d_ht0 := n\<rparr>" True] by (auto simp: dictExpand_def n_def)
  next
    case 3
    have e: "dict_entries (d\<lparr>d_ht1 := n, d_rehashidx := 0\<rparr>) = dict_entries d"
      using n h1 by (simp add: dict_entries_def)
    have sz: "0 < ht_size (d_ht0 d)"
      using 3(2) wf by (auto simp: dict_wf_def dict_shape_def ht_wf_def ht_shape_def)
    have "dict_wf (d\<lparr>d_ht1 := n, d_rehashidx := 0\<rparr>)" "same_map d (d\<lparr>d_ht1 := n, d_rehashidx := 0\<rparr>)"
      using e n wf sz by (auto simp: dict_wf_def dict_shape_def same_map_def dictIsRehashing_def)
    then show thesis
      using idle 3 m sz that [of "d\<lparr>d_ht1 := n, d_rehashidx := 0\<rparr>" True] by (auto simp: dictExpand_def n_def)
  qed
qed

lemma dictExpandIfNeeded_correct:
  assumes wf: "dict_wf d" and small: "dictSize d < 2 ^ 62"
  shows "\<exists>d'. dictExpandIfNeeded cr d = Some (d', True) \<and> dict_wf d' \<and> same_map d d' \<and> 0 < ht_size (d_ht0 d')"
proof -
  let ?u = "ht_used (d_ht0 d)" and ?s = "ht_size (d_ht0 d)"
  have u: "?u < 2 ^ 62" using small by (simp add: dictSize_def)
  consider "dictIsRehashing d" | "\<not> dictIsRehashing d" "?s = 0"
    | "\<not> dictIsRehashing d" "?s \<noteq> 0" "?u \<ge> ?s \<and> (cr \<or> ?u div ?s > dict_force_resize_ratio)"
    | "\<not> dictIsRehashing d" "?s \<noteq> 0" "\<not> (?u \<ge> ?s \<and> (cr \<or> ?u div ?s > dict_force_resize_ratio))" by blast
  then show ?thesis
  proof cases
    case 1
    then show ?thesis using wf by (auto simp: dictExpandIfNeeded_def dict_wf_def dict_shape_def)
  next
    case 2
    then have "?u = 0" using wf by (auto simp: dict_wf_def dict_shape_def ht_wf_def ht_shape_def)
    obtain d' ok where "dictExpand d 4 = Some (d', ok)" "dict_wf d'" "same_map d d'" "ok \<longrightarrow> 0 < ht_size (d_ht0 d')"
      "\<not> dictIsRehashing d \<longrightarrow> ?u \<le> 4 \<longrightarrow> ?s < 4 \<longrightarrow> (4::nat) \<le> 2 ^ 63 \<longrightarrow> ok"
      using dictExpand_correct [OF wf, of 4] by blast
    then show ?thesis using 2 \<open>?u = 0\<close> by (auto simp: dictExpandIfNeeded_def)
  next
    case 3
    then have lt: "?s < ?u * 2" "?u * 2 \<le> 2 ^ 63" "?u * 2 mod 2 ^ 64 = ?u * 2" using u by auto
    obtain d' ok where d': "dictExpand d (?u * 2) = Some (d', ok)" "dict_wf d'" "same_map d d'"
      "ok \<longrightarrow> 0 < ht_size (d_ht0 d')"
      "\<not> dictIsRehashing d \<longrightarrow> ?u \<le> ?u * 2 \<longrightarrow> ?s < ?u * 2 \<longrightarrow> ?u * 2 \<le> 2 ^ 63 \<longrightarrow> ok"
      using dictExpand_correct [OF wf, of "?u * 2"] by blast
    then have ok using 3(1) lt by simp
    then show ?thesis using 3 lt d' by (simp add: dictExpandIfNeeded_def)
  next
    case 4
    then show ?thesis using wf by (auto simp: dictExpandIfNeeded_def)
  qed
qed

text \<open>A dictionary of entries always has buckets.\<close>

lemma dictSize_entries: "dict_wf d \<Longrightarrow> dictSize d = length (dict_entries d)"
  by (simp add: dict_wf_def dict_shape_def ht_wf_def dictSize_def dict_entries_def)

lemma same_map_size: "same_map d d' \<Longrightarrow> dict_wf d \<Longrightarrow> dict_wf d' \<Longrightarrow> dictSize d' = dictSize d"
  unfolding dictSize_entries same_map_def by (metis size_mset)

lemma dictSize_table:
  assumes wf: "dict_wf d" and "dictSize d \<noteq> 0"
  shows "0 < ht_size (d_ht0 d)"
proof -
  have "dict_entries d \<noteq> []" using assms dictSize_entries by force
  then have "ht_table (d_ht0 d) \<noteq> []" using dict_wf_empty_table [OF wf] by blast
  then show ?thesis using wf by (auto simp: dict_wf_def dict_shape_def ht_wf_def ht_shape_def)
qed

section \<open>Lookup\<close>

text \<open>The map of a dictionary whose entries are known up to their order.\<close>

lemma dict_lookup_mset:
  "dict_wf d \<Longrightarrow> mset (dict_entries d) = mset es \<Longrightarrow> dict_lookup d = es_lookup (d_type d) es"
  unfolding dict_lookup_def by (rule es_lookup_mset) (auto simp: dict_wf_def)

lemma dict_lookup_None:
  "(\<forall>e \<in> set (dict_entries d). \<not> key_matches (d_type d) k e) \<longleftrightarrow> dict_lookup d k = None"
proof -
  have "dict_lookup d k = None \<longleftrightarrow> filter (key_matches (d_type d) k) (dict_entries d) = []"
    by (simp add: dict_lookup_def es_lookup_def split: list.splits)
  then show ?thesis by (simp add: filter_empty_conv)
qed

lemma dict_lookup_Some:
  assumes wf: "dict_wf d" and e: "e \<in> set (dict_entries d)" and m: "key_matches (d_type d) k e"
  shows "dict_lookup d k = Some (de_val e)"
proof -
  let ?f = "filter (key_matches (d_type d) k) (dict_entries d)"
  have "length ?f \<le> 1" using wf by (simp add: dict_wf_def distinct_keys_def)
  moreover have "e \<in> set ?f" using e m by simp
  ultimately have "?f = [e]" by (cases ?f) auto
  then show ?thesis by (simp add: dict_lookup_def es_lookup_def)
qed

lemma rehash_first:
  assumes "dict_wf d"
  shows "\<exists>d'. (if dictIsRehashing d then dictRehashStep d else Some d) = Some d' \<and> dict_wf d' \<and> same_map d d'"
  using dictRehashStep_correct [OF assms] assms by auto

lemma dictFind_correct:
  assumes kc: "key_contract (d_type d)" and wf: "dict_wf d"
  shows "\<exists>d' r. dictFind d k = Some (d', r) \<and> dict_wf d' \<and> same_map d d' \<and>
    (case r of None \<Rightarrow> dict_lookup d k = None
     | Some r \<Rightarrow> \<exists>e. valid_ref d' r e \<and> keq (d_type d) k (de_key e) \<and> dict_lookup d k = Some (de_val e))"
proof (cases "dictSize d = 0")
  case True
  then have "dict_entries d = []" using dictSize_entries [OF wf] by simp
  then have "dict_lookup d k = None" by (simp add: dict_lookup_def es_lookup_def)
  then show ?thesis using True wf by (simp add: dictFind_def dictSize_def)
next
  case False
  obtain d1 where d1: "(if dictIsRehashing d then dictRehashStep d else Some d) = Some d1" "dict_wf d1" "same_map d d1"
    using rehash_first [OF wf] by blast
  have t: "d_type d1 = d_type d" using d1(3) by (simp add: same_map_def)
  have sh: "dict_shape d1" using d1(2) by (simp add: dict_wf_def)
  have sz: "0 < ht_size (d_ht0 d1)"
    using dictSize_table [OF d1(2)] same_map_size [OF d1(3) wf d1(2)] False by simp
  obtain r idx where r: "dict_search d1 k (hashFunction (d_type d1) k) = Some (r, idx)"
    "case r of None \<Rightarrow> \<forall>e \<in> set (dict_entries d1). \<not> key_matches (d_type d1) k e
     | Some r \<Rightarrow> \<exists>e. valid_ref d1 r e \<and> key_matches (d_type d1) k e"
    using dict_search_correct [of d1 k] kc sh sz t by (fastforce split: option.splits)
  have "dictFind d k = Some (d1, r)"
    unfolding dictFind_def d1(1) using False r(1) by (auto simp: dictSize_def)
  moreover have "case r of None \<Rightarrow> dict_lookup d1 k = None
     | Some r \<Rightarrow> \<exists>e. valid_ref d1 r e \<and> keq (d_type d) k (de_key e) \<and> dict_lookup d1 k = Some (de_val e)"
    using r(2) dict_lookup_Some [OF d1(2) valid_ref_entry [OF sh], of _ _ k] dict_lookup_None [of d1 k] t
    by (auto simp: key_matches_keq split: option.splits)
  ultimately show ?thesis using d1(2,3) same_map_lookup [OF wf d1(3)] by (auto split: option.splits)
qed

lemma get_entry_valid: "dict_shape d \<Longrightarrow> valid_ref d r e \<Longrightarrow> get_entry d r = Some e"
  by (cases r) (auto simp: get_entry_def valid_ref_def nth_opt_def ht_wf_length [OF dict_shape_ht])

lemma dictFetchValue_correct:
  assumes "key_contract (d_type d)" and "dict_wf d"
  shows "\<exists>d'. dictFetchValue d k = Some (d', dict_lookup d k) \<and> dict_wf d' \<and> same_map d d'"
proof -
  obtain d' r where "dictFind d k = Some (d', r)" "dict_wf d'" "same_map d d'"
    "case r of None \<Rightarrow> dict_lookup d k = None
     | Some r \<Rightarrow> \<exists>e. valid_ref d' r e \<and> keq (d_type d) k (de_key e) \<and> dict_lookup d k = Some (de_val e)"
    using dictFind_correct [OF assms, of k] by blast
  then show ?thesis
    by (auto simp: dictFetchValue_def dict_wf_def get_entry_valid split: option.splits)
qed

section \<open>Changing one entry\<close>

lemma mset_list_update_add: "p < length c \<Longrightarrow> add_mset (c ! p) (mset (c[p := e])) = add_mset e (mset c)"
  by (simp add: mset_update)

lemma mset_del_at: "p < length c \<Longrightarrow> add_mset (c ! p) (mset (del_at p c)) = mset c"
  unfolding del_at_def by (subst (4) id_take_nth_drop [of p c]) auto

lemma valid_ref_upd:
  assumes sh: "dict_shape d" and v: "valid_ref d (table, idx, pos) e"
    and c: "add_mset e (mset c) = M + mset (ht_table (ht_of d table) ! idx)"
  shows "add_mset e (mset (dict_entries (upd_chain d table idx c n))) = M + mset (dict_entries d)"
proof -
  let ?c = "ht_table (ht_of d table) ! idx"
  have "mset (dict_entries (upd_chain d table idx c n)) + mset ?c = mset (dict_entries d) + mset c"
    using v by (intro upd_chain_entries [OF sh]) (simp add: valid_ref_def)
  then have "add_mset e (mset (dict_entries (upd_chain d table idx c n))) + mset ?c = mset (dict_entries d) + (M + mset ?c)"
    using c by simp
  then show ?thesis by (simp add: ac_simps)
qed

lemma valid_ref_placed:
  assumes sh: "dict_shape d" and v: "valid_ref d (table, idx, pos) e" and f: "f \<in> set (ht_table (ht_of d table) ! idx)"
  shows "bucket_index (hashFunction (d_type d) (de_key f)) (ht_sizemask (ht_of d table)) = idx"
  using ht_wf_bucket [OF dict_shape_ht [OF sh]] v f by (simp add: valid_ref_def)

lemma valid_ref_moved:
  assumes "dict_shape d" and "valid_ref d (table, idx, pos) e" and "dictIsRehashing d" and "table = 0"
    and "int idx < d_rehashidx d"
  shows False
  using assms by (auto simp: dict_shape_def valid_ref_def ht_of_def)

lemma distinct_keys_replace:
  assumes "key_contract t" and "distinct_keys t (e # es)" and "de_key e' = de_key e"
  shows "distinct_keys t (e' # es)"
  using assms(2,3) by (simp add: distinct_keys_Cons [OF assms(1)])

text \<open>Setting the value of an entry.\<close>

lemma dictSetVal_correct:
  assumes kc: "key_contract (d_type d)" and wf: "dict_wf d" and v: "valid_ref d r e"
  shows "\<exists>d'. dictSetVal d r val = Some d' \<and> dict_wf d' \<and> d_type d' = d_type d \<and> dictSize d' = dictSize d \<and>
    dict_lookup d' = (\<lambda>k. if keq (d_type d) k (de_key e) then Some (dictValOf (d_type d) val) else dict_lookup d k)"
proof -
  obtain table idx pos where r: "r = (table, idx, pos)" by (cases r)
  define c where "c = ht_table (ht_of d table) ! idx"
  define e' where "e' = e\<lparr>de_val := dictValOf (d_type d) val\<rparr>"
  define d' where "d' = upd_chain d table idx (c[pos := e']) (ht_used (ht_of d table))"
  have sh: "dict_shape d" using wf by (simp add: dict_wf_def)
  have vr: "valid_ref d (table, idx, pos) e" using v r by simp
  have pos: "pos < length c" "e = c ! pos" "idx < ht_size (ht_of d table)" "table \<le> target d"
    using vr by (auto simp: valid_ref_def c_def)
  have "dictSetVal d r val = Some d'"
    using pos ht_wf_length [OF dict_shape_ht [OF sh, of table]]
    by (simp add: dictSetVal_def r nth_opt_def upd_opt_def c_def e'_def d'_def upd_chain_def flip: pos(2))
  moreover have sh': "dict_shape d'"
    unfolding d'_def
  proof (rule upd_chain_shape [OF sh pos(4,3)])
    show "\<forall>f \<in> set (c[pos := e']). bucket_index (hashFunction (d_type d) (de_key f)) (ht_sizemask (ht_of d table)) = idx"
      using valid_ref_placed [OF sh vr] pos by (auto simp: c_def [symmetric] e'_def dest!: set_update_subset_insert [THEN subsetD])
  qed (use pos valid_ref_moved [OF sh vr] in \<open>auto simp: c_def\<close>)
  moreover have m: "add_mset e (mset (dict_entries d')) = add_mset e' (mset (dict_entries d))"
    using valid_ref_upd [OF sh vr, of "c[pos := e']" "{#e'#}"] mset_list_update_add [OF pos(1), of e'] pos(2)
    by (simp add: d'_def c_def)
  moreover obtain es where es: "mset (dict_entries d) = mset (e # es)"
    using valid_ref_entry [OF sh v] by (metis ex_mset insert_DiffM mset.simps(2) set_mset_mset)
  then have es': "mset (dict_entries d') = mset (e' # es)" using m by simp
  have "distinct_keys (d_type d) (e # es)"
    using wf distinct_keys_mset [OF es] by (simp add: dict_wf_def)
  then have "distinct_keys (d_type d) (e' # es)"
    by (rule distinct_keys_replace [OF kc]) (simp add: e'_def)
  with sh' have wf': "dict_wf d'"
    using distinct_keys_mset [OF es'] by (simp add: dict_wf_def d'_def)
  moreover have "dict_lookup d' = (\<lambda>k. if keq (d_type d) k (de_key e) then Some (dictValOf (d_type d) val) else dict_lookup d k)"
    unfolding dict_lookup_mset [OF wf' es'] dict_lookup_mset [OF wf es]
    by (auto simp: es_lookup_Cons e'_def d'_def)
  moreover have "dictSize d' = dictSize d"
    unfolding dictSize_entries [OF wf] dictSize_entries [OF wf'] using es es' by (metis size_mset length_Cons)
  ultimately show ?thesis by (auto simp: d'_def)
qed

section \<open>Insertion\<close>

lemma dictKeyIndex_correct:
  assumes kc: "key_contract (d_type d)" and wf: "dict_wf d" and small: "dictSize d < 2 ^ 62"
  shows "\<exists>d' ix ex. dictKeyIndex cr d k (hashFunction (d_type d) k) = Some (d', ix, ex) \<and> dict_wf d' \<and>
    same_map d d' \<and>
    (if dict_lookup d k = None
     then ex = None \<and> 0 < ht_size (ht_of d' (target d')) \<and>
       ix = Some (bucket_index (hashFunction (d_type d) k) (ht_sizemask (ht_of d' (target d'))))
     else ix = None \<and> (\<exists>r e. ex = Some r \<and> valid_ref d' r e \<and> keq (d_type d) k (de_key e)))"
proof -
  obtain d1 where d1: "dictExpandIfNeeded cr d = Some (d1, True)" "dict_wf d1" "same_map d d1" "0 < ht_size (d_ht0 d1)"
    using dictExpandIfNeeded_correct [OF wf small] by blast
  have t: "d_type d1 = d_type d" using d1(3) by (simp add: same_map_def)
  have l: "dict_lookup d1 = dict_lookup d" by (rule same_map_lookup [OF wf d1(3)])
  have sh: "dict_shape d1" using d1(2) by (simp add: dict_wf_def)
  have sz: "0 < ht_size (ht_of d1 (target d1))"
    using d1(4) dict_shape_rehashing [OF sh] by (simp add: ht_of_def target_def)
  obtain r idx where r: "dict_search d1 k (hashFunction (d_type d) k) = Some (r, idx)"
    "case r of None \<Rightarrow> (\<forall>e \<in> set (dict_entries d1). \<not> key_matches (d_type d) k e) \<and>
        idx = bucket_index (hashFunction (d_type d) k) (ht_sizemask (ht_of d1 (target d1)))
     | Some r \<Rightarrow> \<exists>e. valid_ref d1 r e \<and> key_matches (d_type d) k e"
    using dict_search_correct [OF _ sh d1(4), of k, unfolded t, OF kc] by blast
  show ?thesis
  proof (cases r)
    case None
    with r sz l have "dict_lookup d k = None"
      using dict_lookup_None [of d1 k] t by simp
    then show ?thesis using None r d1 sz by (simp add: dictKeyIndex_def)
  next
    case (Some q)
    then obtain e where e: "valid_ref d1 q e" "key_matches (d_type d1) k e" using r t by auto
    have "dict_lookup d k \<noteq> None"
      using dict_lookup_Some [OF d1(2) valid_ref_entry [OF sh e(1)] e(2)] l by simp
    then show ?thesis using Some r d1 e t by (auto simp: dictKeyIndex_def key_matches_keq)
  qed
qed

text \<open>Putting a new entry at the head of its chain.\<close>

lemma upd_chain_put:
  assumes kc: "key_contract (d_type d)" and wf: "dict_wf d" and new: "dict_lookup d (de_key e) = None"
    and sz: "0 < ht_size (ht_of d (target d))"
  defines "i \<equiv> bucket_index (hashFunction (d_type d) (de_key e)) (ht_sizemask (ht_of d (target d)))"
  defines "d' \<equiv> upd_chain d (target d) i (e # ht_table (ht_of d (target d)) ! i) (ht_used (ht_of d (target d)) + 1)"
  shows "dict_wf d'" and "mset (dict_entries d') = mset (e # dict_entries d)" and "valid_ref d' (target d, i, 0) e"
    and "i < length (ht_table (ht_of d (target d)))"
proof -
  have sh: "dict_shape d" using wf by (simp add: dict_wf_def)
  note w = dict_shape_ht [OF sh, of "target d"]
  have i: "i < ht_size (ht_of d (target d))" unfolding i_def by (rule bucket_index_less [OF w sz])
  then show il: "i < length (ht_table (ht_of d (target d)))" using ht_wf_length [OF w] by simp
  have sh': "dict_shape d'"
    unfolding d'_def
  proof (rule upd_chain_shape [OF sh order_refl i])
    show "\<forall>f \<in> set (e # ht_table (ht_of d (target d)) ! i).
        bucket_index (hashFunction (d_type d) (de_key f)) (ht_sizemask (ht_of d (target d))) = i"
      using ht_wf_bucket [OF w i] by (auto simp: i_def)
  qed (auto simp: target_def)
  show m: "mset (dict_entries d') = mset (e # dict_entries d)"
    using upd_chain_entries [OF sh i, of "e # ht_table (ht_of d (target d)) ! i" "ht_used (ht_of d (target d)) + 1"]
    by (simp add: d'_def)
  have "\<forall>f \<in> set (dict_entries d). \<not> keq (d_type d) (de_key e) (de_key f)"
    using new by (simp add: key_matches_keq flip: dict_lookup_None)
  then have "distinct_keys (d_type d) (e # dict_entries d)"
    using wf by (simp add: distinct_keys_Cons [OF kc] dict_wf_def)
  then show "dict_wf d'" using sh' distinct_keys_mset [OF m] by (simp add: dict_wf_def d'_def)
  show "valid_ref d' (target d, i, 0) e"
    using i il by (auto simp: valid_ref_def d'_def target_def dictIsRehashing_def upd_chain_def set_ht_def ht_of_def)
qed

lemma keq_lookup:
  assumes "key_contract (d_type d)" and "keq (d_type d) k k'"
  shows "dict_lookup d k = dict_lookup d k'"
proof -
  have "key_matches (d_type d) k = key_matches (d_type d) k'"
    unfolding key_matches_keq fun_eq_iff using assms keq_sym [OF assms(1)] keq_trans [OF assms(1)] by blast
  then show ?thesis by (simp add: dict_lookup_def es_lookup_def)
qed

lemma dictAddRaw_correct:
  assumes kc: "key_contract (d_type d)" and wf: "dict_wf d" and small: "dictSize d < 2 ^ 62"
  shows "\<exists>d' en ex. dictAddRaw cr junk d k = Some (d', en, ex) \<and> dict_wf d' \<and> d_type d' = d_type d \<and>
    (if dict_lookup d k = None
     then ex = None \<and> dictSize d' = Suc (dictSize d) \<and>
       dict_lookup d' = (\<lambda>k'. if keq (d_type d) k' k then Some junk else dict_lookup d k') \<and>
       (\<exists>r e. en = Some r \<and> valid_ref d' r e \<and> keq (d_type d) k (de_key e))
     else en = None \<and> same_map d d' \<and> (\<exists>r e. ex = Some r \<and> valid_ref d' r e \<and> keq (d_type d) k (de_key e)))"
proof -
  obtain d1 where d1: "(if dictIsRehashing d then dictRehashStep d else Some d) = Some d1" "dict_wf d1" "same_map d d1"
    using rehash_first [OF wf] by blast
  have t1: "d_type d1 = d_type d" using d1(3) by (simp add: same_map_def)
  have l1: "dict_lookup d1 = dict_lookup d" by (rule same_map_lookup [OF wf d1(3)])
  have s1: "dictSize d1 = dictSize d" by (rule same_map_size [OF d1(3) wf d1(2)])
  obtain d2 ix ex where d2: "dictKeyIndex cr d1 k (hashFunction (d_type d) k) = Some (d2, ix, ex)" "dict_wf d2"
    "same_map d1 d2"
    "if dict_lookup d k = None
     then ex = None \<and> 0 < ht_size (ht_of d2 (target d2)) \<and>
       ix = Some (bucket_index (hashFunction (d_type d) k) (ht_sizemask (ht_of d2 (target d2))))
     else ix = None \<and> (\<exists>r e. ex = Some r \<and> valid_ref d2 r e \<and> keq (d_type d) k (de_key e))"
    using dictKeyIndex_correct [of d1 cr k, unfolded t1 l1 s1, OF kc d1(2) small] by blast
  have sm: "same_map d d2" by (rule same_map_trans [OF d1(3) d2(3)])
  have t2: "d_type d2 = d_type d" using sm by (simp add: same_map_def)
  have l2: "dict_lookup d2 = dict_lookup d" by (rule same_map_lookup [OF wf sm])
  show ?thesis
  proof (cases "dict_lookup d k = None")
    case False
    then have "dictAddRaw cr junk d k = Some (d2, None, ex)"
      unfolding dictAddRaw_def d1(1) using d2(1,4) by (simp add: t1)
    moreover obtain r e where "ex = Some r" "valid_ref d2 r e" "keq (d_type d) k (de_key e)"
      using False d2(4) by auto
    ultimately show ?thesis using False d2(2) sm t2 by auto
  next
    case True
    define e where "e = \<lparr>de_key = dictKeyOf (d_type d) k, de_val = junk\<rparr>"
    have kq: "keq (d_type d) (de_key e) k" using keq_dup [OF kc] by (simp add: e_def)
    define i where "i = bucket_index (hashFunction (d_type d2) (de_key e)) (ht_sizemask (ht_of d2 (target d2)))"
    define d' where "d' = upd_chain d2 (target d2) i (e # ht_table (ht_of d2 (target d2)) ! i) (ht_used (ht_of d2 (target d2)) + 1)"
    have new: "dict_lookup d2 (de_key e) = None"
      using True l2 keq_lookup [OF kc kq] by simp
    have sz: "0 < ht_size (ht_of d2 (target d2))" using d2(4) True by simp
    note put = upd_chain_put [OF _ d2(2) new sz, folded i_def, folded d'_def, unfolded t2, OF kc]
    have ix: "ix = Some i" using d2(4) True keq_hash [OF kc kq] by (simp add: i_def t2)
    have "dictAddRaw cr junk d k = Some (d', Some (target d2, i, 0), None)"
      unfolding dictAddRaw_def d1(1) using d2(1,4) True ix put(4)
      by (simp add: nth_opt_def upd_opt_def t1 t2 e_def [symmetric] d'_def upd_chain_def flip: target_def)
    moreover have "dictSize d' = Suc (dictSize d)"
      using put(2) mset_eq_length [OF put(2)] dictSize_entries [OF put(1)] dictSize_entries [OF d2(2)]
        same_map_size [OF sm wf d2(2)] by simp
    moreover have "dict_lookup d' = (\<lambda>k'. if keq (d_type d) k' k then Some junk else dict_lookup d k')"
    proof
      fix k'
      have "keq (d_type d) k' (de_key e) \<longleftrightarrow> keq (d_type d) k' k"
        using kq keq_sym [OF kc] keq_trans [OF kc] by blast
      then show "dict_lookup d' k' = (if keq (d_type d) k' k then Some junk else dict_lookup d k')"
        unfolding dict_lookup_mset [OF put(1,2)] l2 [symmetric]
        by (simp add: es_lookup_Cons d'_def t2 dict_lookup_def) (simp add: e_def)
    qed
    ultimately show ?thesis
      using True put keq_sym [OF kc kq] t2 by (auto simp: d'_def)
  qed
qed

lemma dictAddRaw_new:
  assumes "key_contract (d_type d)" and "dict_wf d" and "dictSize d < 2 ^ 62" and new: "dict_lookup d k = None"
  shows "\<exists>d' r e. dictAddRaw cr junk d k = Some (d', Some r, None) \<and> dict_wf d' \<and> d_type d' = d_type d \<and>
    dictSize d' = Suc (dictSize d) \<and>
    dict_lookup d' = (\<lambda>k'. if keq (d_type d) k' k then Some junk else dict_lookup d k') \<and>
    valid_ref d' r e \<and> keq (d_type d) k (de_key e)"
  using dictAddRaw_correct [OF assms(1-3), of cr junk k, unfolded if_P [OF new]] by blast

lemma dictAddRaw_old:
  assumes "key_contract (d_type d)" and wf: "dict_wf d" and "dictSize d < 2 ^ 62" and old: "dict_lookup d k \<noteq> None"
  shows "\<exists>d' r e. dictAddRaw cr junk d k = Some (d', None, Some r) \<and> dict_wf d' \<and> d_type d' = d_type d \<and>
    dictSize d' = dictSize d \<and> dict_lookup d' = dict_lookup d \<and> valid_ref d' r e \<and> keq (d_type d) k (de_key e)"
proof -
  obtain d' r e where d': "dictAddRaw cr junk d k = Some (d', None, Some r)" "dict_wf d'" "d_type d' = d_type d"
    "same_map d d'" "valid_ref d' r e" "keq (d_type d) k (de_key e)"
    using dictAddRaw_correct [OF assms(1-3), of cr junk k, unfolded if_not_P [OF old]] by blast
  with same_map_lookup [OF wf d'(4)] same_map_size [OF d'(4) wf d'(2)] show ?thesis by blast
qed

text \<open>The three callers of \<open>dictAddRaw\<close>.\<close>

lemma keq_same_class:
  assumes "key_contract t" and "keq t k k'"
  shows "keq t j k \<longleftrightarrow> keq t j k'"
  using assms keq_sym [OF assms(1)] keq_trans [OF assms(1)] by blast

lemma dictAdd_correct:
  assumes kc: "key_contract (d_type d)" and wf: "dict_wf d" and small: "dictSize d < 2 ^ 62"
  shows "\<exists>d'. dictAdd cr junk d k v = Some (d', dict_lookup d k = None) \<and> dict_wf d' \<and> d_type d' = d_type d \<and>
    dictSize d' = (if dict_lookup d k = None then Suc (dictSize d) else dictSize d) \<and>
    dict_lookup d' = (\<lambda>k'. if dict_lookup d k = None \<and> keq (d_type d) k' k
      then Some (dictValOf (d_type d) v) else dict_lookup d k')"
proof (cases "dict_lookup d k = None")
  case False
  then obtain d' r where "dictAddRaw cr junk d k = Some (d', None, Some r)" "dict_wf d'" "d_type d' = d_type d"
    "dictSize d' = dictSize d" "dict_lookup d' = dict_lookup d"
    using dictAddRaw_old [OF assms] by blast
  then show ?thesis using False by (auto simp: dictAdd_def fun_eq_iff)
next
  case True
  then obtain d1 r e where d1: "dictAddRaw cr junk d k = Some (d1, Some r, None)" "dict_wf d1" "d_type d1 = d_type d"
    "dictSize d1 = Suc (dictSize d)" "dict_lookup d1 = (\<lambda>k'. if keq (d_type d) k' k then Some junk else dict_lookup d k')"
    "valid_ref d1 r e" "keq (d_type d) k (de_key e)"
    using dictAddRaw_new [OF assms] by blast
  obtain d' where "dictSetVal d1 r v = Some d'" "dict_wf d'" "d_type d' = d_type d" "dictSize d' = dictSize d1"
    "dict_lookup d' = (\<lambda>k'. if keq (d_type d) k' (de_key e) then Some (dictValOf (d_type d) v) else dict_lookup d1 k')"
    using dictSetVal_correct [OF _ d1(2,6), of v, unfolded d1(3), OF kc] by blast
  then show ?thesis
    using True d1(1,4,5) keq_same_class [OF kc d1(7)] by (simp add: dictAdd_def fun_eq_iff)
qed

lemma dictReplace_correct:
  assumes kc: "key_contract (d_type d)" and wf: "dict_wf d" and small: "dictSize d < 2 ^ 62"
  shows "\<exists>d'. dictReplace cr junk d k v = Some (d', dict_lookup d k = None) \<and> dict_wf d' \<and> d_type d' = d_type d \<and>
    dictSize d' = (if dict_lookup d k = None then Suc (dictSize d) else dictSize d) \<and>
    dict_lookup d' = (\<lambda>k'. if keq (d_type d) k' k then Some (dictValOf (d_type d) v) else dict_lookup d k')"
proof (cases "dict_lookup d k = None")
  case False
  then obtain d1 r e where d1: "dictAddRaw cr junk d k = Some (d1, None, Some r)" "dict_wf d1" "d_type d1 = d_type d"
    "dictSize d1 = dictSize d" "dict_lookup d1 = dict_lookup d" "valid_ref d1 r e" "keq (d_type d) k (de_key e)"
    using dictAddRaw_old [OF assms] by blast
  obtain d' where "dictSetVal d1 r v = Some d'" "dict_wf d'" "d_type d' = d_type d" "dictSize d' = dictSize d1"
    "dict_lookup d' = (\<lambda>k'. if keq (d_type d) k' (de_key e) then Some (dictValOf (d_type d) v) else dict_lookup d1 k')"
    using dictSetVal_correct [OF _ d1(2,6), of v, unfolded d1(3), OF kc] by blast
  then show ?thesis
    using False d1(1,4,5) keq_same_class [OF kc d1(7)] by (simp add: dictReplace_def fun_eq_iff)
next
  case True
  then obtain d1 r e where d1: "dictAddRaw cr junk d k = Some (d1, Some r, None)" "dict_wf d1" "d_type d1 = d_type d"
    "dictSize d1 = Suc (dictSize d)" "dict_lookup d1 = (\<lambda>k'. if keq (d_type d) k' k then Some junk else dict_lookup d k')"
    "valid_ref d1 r e" "keq (d_type d) k (de_key e)"
    using dictAddRaw_new [OF assms] by blast
  obtain d' where "dictSetVal d1 r v = Some d'" "dict_wf d'" "d_type d' = d_type d" "dictSize d' = dictSize d1"
    "dict_lookup d' = (\<lambda>k'. if keq (d_type d) k' (de_key e) then Some (dictValOf (d_type d) v) else dict_lookup d1 k')"
    using dictSetVal_correct [OF _ d1(2,6), of v, unfolded d1(3), OF kc] by blast
  then show ?thesis
    using True d1(1,4,5) keq_same_class [OF kc d1(7)] by (simp add: dictReplace_def fun_eq_iff)
qed

lemma dictAddOrFind_correct:
  assumes kc: "key_contract (d_type d)" and wf: "dict_wf d" and small: "dictSize d < 2 ^ 62"
  shows "\<exists>d' r e. dictAddOrFind cr junk d k = Some (d', Some r) \<and> dict_wf d' \<and> d_type d' = d_type d \<and>
    valid_ref d' r e \<and> keq (d_type d) k (de_key e) \<and>
    dict_lookup d' = (\<lambda>k'. if dict_lookup d k = None \<and> keq (d_type d) k' k then Some junk else dict_lookup d k')"
proof (cases "dict_lookup d k = None")
  case False
  with dictAddRaw_old [OF assms False, of cr junk] show ?thesis unfolding dictAddOrFind_def by force
next
  case True
  with dictAddRaw_new [OF assms True, of cr junk] show ?thesis unfolding dictAddOrFind_def by force
qed

section \<open>Deletion\<close>

lemma upd_chain_del:
  assumes kc: "key_contract (d_type d)" and wf: "dict_wf d" and v: "valid_ref d (table, idx, pos) e"
  defines "d' \<equiv> upd_chain d table idx (del_at pos (ht_table (ht_of d table) ! idx)) (ht_used (ht_of d table) - 1)"
  shows "dict_wf d'" and "mset (dict_entries d) = mset (e # dict_entries d')"
proof -
  let ?c = "ht_table (ht_of d table) ! idx"
  have sh: "dict_shape d" using wf by (simp add: dict_wf_def)
  have pos: "pos < length ?c" "e = ?c ! pos" "idx < ht_size (ht_of d table)" "table \<le> target d"
    using v by (auto simp: valid_ref_def)
  have del: "add_mset e (mset (del_at pos ?c)) = mset ?c"
    using mset_del_at [OF pos(1)] pos(2) by simp
  have len: "Suc (length (del_at pos ?c)) = length ?c"
    using arg_cong [OF del, of size] by simp
  have "length ?c \<le> length (ht_entries (ht_of d table))"
    using length_concat_update [of idx "ht_table (ht_of d table)" "[]"] pos(3) dict_shape_ht [OF sh, of table]
    by (simp add: ht_wf_length)
  then have used: "0 < ht_used (ht_of d table)"
    using pos(1) dict_shape_ht [OF sh, of table] unfolding ht_wf_def by linarith
  have sub: "set (del_at pos ?c) \<subseteq> set ?c"
    using arg_cong [OF del, of set_mset] by auto
  have sh': "dict_shape d'"
    unfolding d'_def
  proof (rule upd_chain_shape [OF sh pos(4,3)])
    show "\<forall>f \<in> set (del_at pos ?c). bucket_index (hashFunction (d_type d) (de_key f)) (ht_sizemask (ht_of d table)) = idx"
      using valid_ref_placed [OF sh v] sub by blast
  qed (use len used valid_ref_moved [OF sh v] in auto)
  show m: "mset (dict_entries d) = mset (e # dict_entries d')"
    using valid_ref_upd [OF sh v, of "del_at pos ?c" "{#}"] del by (simp add: d'_def)
  have "distinct_keys (d_type d) (dict_entries d')"
    using wf distinct_keys_mset [OF m] by (simp add: dict_wf_def distinct_keys_Cons [OF kc])
  then show "dict_wf d'" using sh' by (simp add: dict_wf_def d'_def)
qed

lemma dictGenericDelete_correct:
  assumes kc: "key_contract (d_type d)" and wf: "dict_wf d"
  shows "\<exists>d' he. dictGenericDelete d k = Some (d', he) \<and> dict_wf d' \<and> d_type d' = d_type d \<and>
    map_option de_val he = dict_lookup d k \<and> (\<forall>e. he = Some e \<longrightarrow> keq (d_type d) k (de_key e)) \<and>
    dictSize d' = dictSize d - (if he = None then 0 else 1) \<and>
    dict_lookup d' = (\<lambda>k'. if keq (d_type d) k' k then None else dict_lookup d k')"
proof (cases "dictSize d = 0")
  case True
  then have "dict_entries d = []" using dictSize_entries [OF wf] by simp
  then have "dict_lookup d k = None" for k by (simp add: dict_lookup_def es_lookup_def)
  then show ?thesis using True wf by (auto simp: dictGenericDelete_def dictSize_def)
next
  case False
  obtain d1 where d1: "(if dictIsRehashing d then dictRehashStep d else Some d) = Some d1" "dict_wf d1" "same_map d d1"
    using rehash_first [OF wf] by blast
  have t: "d_type d1 = d_type d" using d1(3) by (simp add: same_map_def)
  have l: "dict_lookup d1 = dict_lookup d" by (rule same_map_lookup [OF wf d1(3)])
  have s: "dictSize d1 = dictSize d" by (rule same_map_size [OF d1(3) wf d1(2)])
  have sh: "dict_shape d1" using d1(2) by (simp add: dict_wf_def)
  have sz: "0 < ht_size (d_ht0 d1)" using dictSize_table [OF d1(2)] s False by simp
  obtain r idx where r: "dict_search d1 k (hashFunction (d_type d) k) = Some (r, idx)"
    "case r of None \<Rightarrow> (\<forall>e \<in> set (dict_entries d1). \<not> key_matches (d_type d) k e) \<and>
        idx = bucket_index (hashFunction (d_type d) k) (ht_sizemask (ht_of d1 (target d1)))
     | Some r \<Rightarrow> \<exists>e. valid_ref d1 r e \<and> key_matches (d_type d) k e"
    using dict_search_correct [OF _ sh sz, of k, unfolded t, OF kc] by blast
  have g: "\<not> (ht_used (d_ht0 d) = 0 \<and> ht_used (d_ht1 d) = 0)" using False by (auto simp: dictSize_def)
  show ?thesis
  proof (cases r)
    case None
    then have n: "dict_lookup d k = None" using r(2) l dict_lookup_None [of d1 k] t by simp
    have "dictGenericDelete d k = Some (d1, None)"
      unfolding dictGenericDelete_def d1(1) if_not_P [OF g] using r(1) None by (simp add: t)
    moreover have "dict_lookup d k' = None" if "keq (d_type d) k' k" for k'
      using keq_lookup [OF kc that] n by simp
    ultimately show ?thesis using d1(2) t l s n by (auto simp: fun_eq_iff)
  next
    case (Some q)
    obtain table i pos where q: "q = (table, i, pos)" by (cases q)
    obtain e where e: "valid_ref d1 (table, i, pos) e" "keq (d_type d) k (de_key e)"
      using r(2) Some q by (auto simp: key_matches_keq)
    define d' where "d' = upd_chain d1 table i (del_at pos (ht_table (ht_of d1 table) ! i)) (ht_used (ht_of d1 table) - 1)"
    note del = upd_chain_del [OF _ d1(2) e(1), folded d'_def, unfolded t, OF kc]
    have "dictGenericDelete d k = Some (d', Some e)"
      unfolding dictGenericDelete_def d1(1) if_not_P [OF g] using r(1) Some q e(1) ht_wf_length [OF dict_shape_ht [OF sh, of table]]
      by (simp add: t nth_opt_def upd_opt_def valid_ref_def d'_def upd_chain_def)
    moreover have "dict_lookup d k = Some (de_val e)"
      using dict_lookup_Some [OF d1(2) valid_ref_entry [OF sh e(1)]] e(2) l t by (simp add: key_matches_keq)
    moreover have "dictSize d' = dictSize d - 1"
      using mset_eq_length [OF del(2)] s dictSize_entries [OF d1(2)] dictSize_entries [OF del(1)] by simp
    moreover have "dict_lookup d' = (\<lambda>k'. if keq (d_type d) k' k then None else dict_lookup d k')"
    proof -
      have dk: "distinct_keys (d_type d) (e # dict_entries d')"
        using d1(2) distinct_keys_mset [OF del(2)] t by (simp add: dict_wf_def)
      have "es_lookup (d_type d) (dict_entries d') k' = None" if "keq (d_type d) k' (de_key e)" for k'
      proof (rule es_lookup_None)
        have "\<forall>f \<in> set (dict_entries d'). \<not> keq (d_type d) (de_key e) (de_key f)"
          using dk unfolding distinct_keys_Cons [OF kc] by blast
        then show "\<forall>f \<in> set (dict_entries d'). \<not> key_matches (d_type d) k' f"
          unfolding key_matches_keq using that keq_sym [OF kc] keq_trans [OF kc] by blast
      qed
      moreover have "dict_lookup d = es_lookup (d_type d) (e # dict_entries d')"
        using dict_lookup_mset [OF d1(2) del(2)] by (simp only: l t)
      moreover have "dict_lookup d' = es_lookup (d_type d) (dict_entries d')"
        by (simp add: dict_lookup_def d'_def t)
      ultimately show ?thesis by (simp add: fun_eq_iff es_lookup_Cons keq_same_class [OF kc e(2)])
    qed
    ultimately show ?thesis using del(1) t e(2) by (auto simp: d'_def)
  qed
qed

end
