(* ===== verification/Kv_Spec.thy ===== *)
theory Kv_Spec
  imports Redis_Prelude
begin

text \<open>
  What a keyed store promises its clients: a finite map up to an equivalence of
  keys, with insertion, replacement, deletion and lookup. \<open>Dict_Map\<close> shows that the
  hash tables of \<^verbatim>\<open>dict.c\<close> keep the promise; the key space (\<open>Db\<close>) is a client.

  \<open>env\<close> is what an operation reads from outside the store (the resize policy, the
  contents of fresh memory). \<open>tick\<close> is a maintenance step.
\<close>

datatype ('e, 'k, 'v) kv_op =
    KvAdd 'e 'k 'v
  | KvReplace 'e 'k 'v
  | KvDelete 'k
  | KvFetch 'k
  | KvTick nat

datatype 'v kv_result = Done bool | Value "'v option" | Quiet

text \<open>A run of operations on a store, with their results.\<close>

fun kv_run ::
  "('e \<Rightarrow> 's \<Rightarrow> 'k \<Rightarrow> 'v \<Rightarrow> ('s \<times> bool) option) \<Rightarrow> ('e \<Rightarrow> 's \<Rightarrow> 'k \<Rightarrow> 'v \<Rightarrow> ('s \<times> bool) option) \<Rightarrow>
   ('s \<Rightarrow> 'k \<Rightarrow> ('s \<times> bool) option) \<Rightarrow> ('s \<Rightarrow> 'k \<Rightarrow> ('s \<times> 'v option) option) \<Rightarrow> (nat \<Rightarrow> 's \<Rightarrow> 's option) \<Rightarrow>
   ('e, 'k, 'v) kv_op list \<Rightarrow> 's \<Rightarrow> ('s \<times> 'v kv_result list) option" where
  "kv_run add repl del fetch tick [] s = Some (s, [])"
| "kv_run add repl del fetch tick (c # cs) s = do {
     (s, r) \<leftarrow> (case c of
         KvAdd e k v \<Rightarrow> map_option (apsnd Done) (add e s k v)
       | KvReplace e k v \<Rightarrow> map_option (apsnd Done) (repl e s k v)
       | KvDelete k \<Rightarrow> map_option (apsnd Done) (del s k)
       | KvFetch k \<Rightarrow> map_option (apsnd Value) (fetch s k)
       | KvTick n \<Rightarrow> map_option (\<lambda>s. (s, Quiet)) (tick n s));
     (s, rs) \<leftarrow> kv_run add repl del fetch tick cs s;
     Some (s, r # rs) }"

text \<open>The same run on a finite map.\<close>

fun map_step :: "('k \<Rightarrow> 'k \<Rightarrow> bool) \<Rightarrow> ('v \<Rightarrow> 'v) \<Rightarrow> ('e, 'k, 'v) kv_op \<Rightarrow> ('k \<Rightarrow> 'v option) \<Rightarrow>
    ('k \<Rightarrow> 'v option) \<times> 'v kv_result" where
  "map_step eqv dup (KvAdd e k v) m =
     (if m k = None then (\<lambda>k'. if eqv k' k then Some (dup v) else m k') else m, Done (m k = None))"
| "map_step eqv dup (KvReplace e k v) m = (\<lambda>k'. if eqv k' k then Some (dup v) else m k', Done (m k = None))"
| "map_step eqv dup (KvDelete k) m = (\<lambda>k'. if eqv k' k then None else m k', Done (m k \<noteq> None))"
| "map_step eqv dup (KvFetch k) m = (m, Value (m k))"
| "map_step eqv dup (KvTick n) m = (m, Quiet)"

fun map_run :: "('k \<Rightarrow> 'k \<Rightarrow> bool) \<Rightarrow> ('v \<Rightarrow> 'v) \<Rightarrow> ('e, 'k, 'v) kv_op list \<Rightarrow> ('k \<Rightarrow> 'v option) \<Rightarrow>
    ('k \<Rightarrow> 'v option) \<times> 'v kv_result list" where
  "map_run eqv dup [] m = (m, [])"
| "map_run eqv dup (c # cs) m =
     (let (m, r) = map_step eqv dup c m; (m, rs) = map_run eqv dup cs m in (m, r # rs))"

locale kv_store =
  fixes inv :: "'s \<Rightarrow> bool" and lookup :: "'s \<Rightarrow> 'k \<Rightarrow> 'v option" and count :: "'s \<Rightarrow> nat" and cap :: nat
    and eqv :: "'k \<Rightarrow> 'k \<Rightarrow> bool" and dup :: "'v \<Rightarrow> 'v"
    and add :: "'e \<Rightarrow> 's \<Rightarrow> 'k \<Rightarrow> 'v \<Rightarrow> ('s \<times> bool) option"
    and repl :: "'e \<Rightarrow> 's \<Rightarrow> 'k \<Rightarrow> 'v \<Rightarrow> ('s \<times> bool) option"
    and del :: "'s \<Rightarrow> 'k \<Rightarrow> ('s \<times> bool) option"
    and fetch :: "'s \<Rightarrow> 'k \<Rightarrow> ('s \<times> 'v option) option"
    and tick :: "nat \<Rightarrow> 's \<Rightarrow> 's option"
  assumes add_law: "inv s \<Longrightarrow> count s < cap \<Longrightarrow>
      \<exists>s'. add e s k v = Some (s', lookup s k = None) \<and> inv s' \<and> count s' \<le> Suc (count s) \<and>
        lookup s' = (if lookup s k = None then \<lambda>k'. if eqv k' k then Some (dup v) else lookup s k' else lookup s)"
    and repl_law: "inv s \<Longrightarrow> count s < cap \<Longrightarrow>
      \<exists>s'. repl e s k v = Some (s', lookup s k = None) \<and> inv s' \<and> count s' \<le> Suc (count s) \<and>
        lookup s' = (\<lambda>k'. if eqv k' k then Some (dup v) else lookup s k')"
    and del_law: "inv s \<Longrightarrow>
      \<exists>s'. del s k = Some (s', lookup s k \<noteq> None) \<and> inv s' \<and> count s' \<le> count s \<and>
        lookup s' = (\<lambda>k'. if eqv k' k then None else lookup s k')"
    and fetch_law: "inv s \<Longrightarrow> \<exists>s'. fetch s k = Some (s', lookup s k) \<and> inv s' \<and> count s' \<le> count s \<and> lookup s' = lookup s"
    and tick_law: "inv s \<Longrightarrow> \<exists>s'. tick n s = Some s' \<and> inv s' \<and> count s' \<le> count s \<and> lookup s' = lookup s"
    and eqv_refl: "inv s \<Longrightarrow> eqv k k"
    and eqv_lookup: "inv s \<Longrightarrow> eqv k k' \<Longrightarrow> lookup s k = lookup s k'"
begin

text \<open>One operation is a step of the map.\<close>

lemma step_refines:
  assumes "inv s" and "count s < cap"
  shows "\<exists>s'. (case c of
         KvAdd e k v \<Rightarrow> map_option (apsnd Done) (add e s k v)
       | KvReplace e k v \<Rightarrow> map_option (apsnd Done) (repl e s k v)
       | KvDelete k \<Rightarrow> map_option (apsnd Done) (del s k)
       | KvFetch k \<Rightarrow> map_option (apsnd Value) (fetch s k)
       | KvTick n \<Rightarrow> map_option (\<lambda>s. (s, Quiet)) (tick n s)) = Some (s', snd (map_step eqv dup c (lookup s))) \<and>
     inv s' \<and> count s' \<le> Suc (count s) \<and> lookup s' = fst (map_step eqv dup c (lookup s))"
proof (cases c)
  case (KvAdd e k v)
  then show ?thesis using add_law [OF assms, of e k v] by auto
next
  case (KvReplace e k v)
  then show ?thesis using repl_law [OF assms, of e k v] by auto
next
  case (KvDelete k)
  then show ?thesis using del_law [OF assms(1), of k] by fastforce
next
  case (KvFetch k)
  then show ?thesis using fetch_law [OF assms(1), of k] by fastforce
next
  case (KvTick n)
  then show ?thesis using tick_law [OF assms(1), of n] by fastforce
qed

text \<open>A run of operations is the run on the map, as long as the store has room.\<close>

lemma run_refines:
  assumes "inv s" and "count s + length cs \<le> cap"
  shows "\<exists>s'. kv_run add repl del fetch tick cs s = Some (s', snd (map_run eqv dup cs (lookup s))) \<and>
    inv s' \<and> count s' \<le> count s + length cs \<and> lookup s' = fst (map_run eqv dup cs (lookup s))"
  using assms
proof (induction cs arbitrary: s)
  case Nil
  then show ?case by simp
next
  case (Cons c cs)
  have "count s < cap" using Cons.prems by simp
  from step_refines [OF Cons.prems(1) this, of c] obtain s1 where s1:
    "(case c of
         KvAdd e k v \<Rightarrow> map_option (apsnd Done) (add e s k v)
       | KvReplace e k v \<Rightarrow> map_option (apsnd Done) (repl e s k v)
       | KvDelete k \<Rightarrow> map_option (apsnd Done) (del s k)
       | KvFetch k \<Rightarrow> map_option (apsnd Value) (fetch s k)
       | KvTick n \<Rightarrow> map_option (\<lambda>s. (s, Quiet)) (tick n s)) = Some (s1, snd (map_step eqv dup c (lookup s)))"
    "inv s1" "count s1 \<le> Suc (count s)" "lookup s1 = fst (map_step eqv dup c (lookup s))" by blast
  have "count s1 + length cs \<le> cap" using s1(3) Cons.prems(2) by simp
  from Cons.IH [OF s1(2) this] obtain s2 where s2:
    "kv_run add repl del fetch tick cs s1 = Some (s2, snd (map_run eqv dup cs (lookup s1)))" "inv s2"
    "count s2 \<le> count s1 + length cs" "lookup s2 = fst (map_run eqv dup cs (lookup s1))" by blast
  have "kv_run add repl del fetch tick (c # cs) s = Some (s2, snd (map_run eqv dup (c # cs) (lookup s)))"
    unfolding kv_run.simps s1(1) using s2(1) s1(4) by (simp add: case_prod_beta)
  then show ?case using s2 s1(3,4) by (auto simp: case_prod_beta)
qed

text \<open>Laws that clients use: reading one's own write, and nothing else changes.\<close>

lemma replace_fetch:
  assumes "inv s" and "count s < cap"
  shows "\<exists>s1 s2. repl e s k v = Some (s1, lookup s k = None) \<and> fetch s1 k = Some (s2, Some (dup v)) \<and> inv s2"
proof -
  obtain s1 where s1: "repl e s k v = Some (s1, lookup s k = None)" "inv s1"
    "lookup s1 = (\<lambda>k'. if eqv k' k then Some (dup v) else lookup s k')"
    using repl_law [OF assms] by blast
  then show ?thesis using fetch_law [OF s1(2), of k] eqv_refl [OF assms(1)] by auto
qed

lemma delete_fetch:
  assumes "inv s"
  shows "\<exists>s1 s2. del s k = Some (s1, lookup s k \<noteq> None) \<and> fetch s1 k = Some (s2, None) \<and> inv s2"
proof -
  obtain s1 where s1: "del s k = Some (s1, lookup s k \<noteq> None)" "inv s1"
    "lookup s1 = (\<lambda>k'. if eqv k' k then None else lookup s k')"
    using del_law [OF assms] by blast
  then show ?thesis using fetch_law [OF s1(2), of k] eqv_refl [OF assms(1)] by auto
qed

end

end
