(* ===== verification/Dict_Map.thy ===== *)
theory Dict_Map
  imports Dict_Ops Kv_Spec
begin

text \<open>
  Hash tables fulfil the contract \<open>kv_store\<close>, for every type of keys and values
  whose callbacks fulfil \<open>key_contract\<close>; incremental rehashing ends; clearing
  releases every entry once.
\<close>

section \<open>Rehashing makes progress\<close>

lemma dictRehash_skip_progress:
  "dictRehash_skip t i ev = Some (i', ev', stop) \<Longrightarrow> i \<le> i' \<and> (stop \<longrightarrow> i < i')"
proof (induction t i ev rule: dictRehash_skip.induct)
  case (1 t i ev)
  show ?case
  proof (cases "t ! i \<noteq> [] \<or> ev - 1 = 0 \<or> \<not> i < length t")
    case True
    with "1.prems" show ?thesis by (subst (asm) dictRehash_skip.simps) (auto split: if_splits)
  next
    case False
    then have "dictRehash_skip t (i + 1) (ev - 1) = Some (i', ev', stop)"
      using "1.prems" by (subst (asm) dictRehash_skip.simps) simp
    with "1.IH" False show ?thesis by fastforce
  qed
qed

lemma dictRehash_move_table: "dictRehash_move t c h0 h1 = Some (h0', h1') \<Longrightarrow> ht_size h0' = ht_size h0"
  by (induction t c h0 h1 rule: dictRehash_move.induct) (auto split: bind_splits)

lemma dictRehash_loop_progress:
  assumes "dictRehash_loop n d ev = Some (d', stop)" and "0 \<le> d_rehashidx d"
  shows "d_rehashidx d \<le> d_rehashidx d' \<and> ht_size (d_ht0 d') = ht_size (d_ht0 d) \<and>
    (0 < n \<longrightarrow> ht_used (d_ht0 d) \<noteq> 0 \<longrightarrow> d_rehashidx d < d_rehashidx d') \<and>
    (stop \<longrightarrow> ht_used (d_ht0 d') \<noteq> 0)"
  using assms
proof (induction n arbitrary: d ev)
  case 0
  then show ?case by simp
next
  case (Suc n)
  show ?case
  proof (cases "ht_used (d_ht0 d) = 0")
    case True
    with Suc.prems show ?thesis by simp
  next
    case False
    then obtain i ev' st where sk: "dictRehash_skip (ht_table (d_ht0 d)) (nat (d_rehashidx d)) ev = Some (i, ev', st)"
      using Suc.prems(1) by (auto split: if_splits bind_splits)
    note pr = dictRehash_skip_progress [OF sk]
    show ?thesis
    proof (cases st)
      case True
      with sk False Suc.prems pr show ?thesis by (auto split: if_splits)
    next
      case ns: False
      then obtain de h0 h1 t0 where mv: "dictRehash_move (d_type d) de (d_ht0 d) (d_ht1 d) = Some (h0, h1)"
        and lp: "dictRehash_loop n (d\<lparr>d_ht0 := h0\<lparr>ht_table := t0\<rparr>, d_ht1 := h1, d_rehashidx := int i + 1\<rparr>) ev' = Some (d', stop)"
        using sk False Suc.prems(1) by (auto split: if_splits bind_splits)
      show ?thesis using Suc.IH [OF lp] pr dictRehash_move_table [OF mv] Suc.prems(2) by auto
    qed
  qed
qed

lemma dictRehash_progress:
  assumes wf: "dict_wf d" and rh: "dictIsRehashing d" and n: "0 < n" and r: "dictRehash d n = Some (d', True)"
  shows "d_rehashidx d < d_rehashidx d'" and "d_rehashidx d' < int (ht_size (d_ht0 d))"
    and "ht_size (d_ht0 d') = ht_size (d_ht0 d)"
proof -
  note w = dict_wf_rehashing [OF wf rh]
  have d': "dict_wf d'" "dictIsRehashing d'" using dictRehash_correct [OF wf, of n] r by auto
  obtain stop where lp: "dictRehash_loop n d (int n * 10) = Some (d', stop)" and u: "stop \<or> ht_used (d_ht0 d') \<noteq> 0"
    using r rh by (auto simp: dictRehash_def split: bind_splits if_splits)
  note pr = dictRehash_loop_progress [OF lp w(3)]
  have used: "ht_used (d_ht0 d') \<noteq> 0" using pr u by blast
  have "ht_used (d_ht0 d) \<noteq> 0"
  proof
    assume "ht_used (d_ht0 d) = 0"
    then have "dictRehash_loop n d (int n * 10) = Some (d, False)" by (cases n) auto
    with lp used \<open>ht_used (d_ht0 d) = 0\<close> show False by simp
  qed
  then show "d_rehashidx d < d_rehashidx d'" and "ht_size (d_ht0 d') = ht_size (d_ht0 d)" using pr n by auto
  then show "d_rehashidx d' < int (ht_size (d_ht0 d))"
    using used_nonzero_bucket [OF d' used] ht_wf_length [OF dict_wf_rehashing(1) [OF d']] dict_wf_rehashing(3) [OF d']
    by auto
qed

text \<open>Repeated calls, as the cron job and the operations make them.\<close>

fun rehash_times :: "nat \<Rightarrow> nat \<Rightarrow> ('k, 'v) dict \<Rightarrow> ('k, 'v) dict option" where
  "rehash_times 0 n d = Some d"
| "rehash_times (Suc m) n d = do { (d, more) \<leftarrow> dictRehash d n; rehash_times m n d }"

lemma rehash_times_idle: "\<not> dictIsRehashing d \<Longrightarrow> rehash_times m n d = Some d"
  by (induction m) (auto simp: dictRehash_def)

lemma rehash_times_ends:
  assumes "dict_wf d" and "0 < n" and "dictIsRehashing d \<longrightarrow> int (ht_size (d_ht0 d)) - d_rehashidx d \<le> int m" and "0 < m"
  shows "\<exists>d'. rehash_times m n d = Some d' \<and> \<not> dictIsRehashing d' \<and> dict_wf d' \<and> same_map d d'"
  using assms
proof (induction m arbitrary: d)
  case 0
  then show ?case by simp
next
  case (Suc m)
  obtain d1 more where d1: "dictRehash d n = Some (d1, more)" "dict_wf d1" "same_map d d1" "more \<longleftrightarrow> dictIsRehashing d1"
    "dictIsRehashing d1 \<longrightarrow> dictIsRehashing d"
    using dictRehash_correct [OF Suc.prems(1), of n] by blast
  show ?case
  proof (cases more)
    case False
    with d1 show ?thesis by (simp add: rehash_times_idle)
  next
    case True
    then have rh: "dictIsRehashing d" using d1 by simp
    note pr = dictRehash_progress [OF Suc.prems(1) rh Suc.prems(2) d1(1) [unfolded eqTrueI [OF True]]]
    have le: "int (ht_size (d_ht0 d1)) - d_rehashidx d1 \<le> int m" using pr Suc.prems(3) rh by simp
    moreover have "0 < m" using pr Suc.prems(3) rh by simp
    ultimately obtain d' where "rehash_times m n d1 = Some d'" "\<not> dictIsRehashing d'" "dict_wf d'" "same_map d1 d'"
      using Suc.IH [OF d1(2) Suc.prems(2)] by blast
    with d1 show ?thesis by (auto intro: same_map_trans)
  qed
qed

section \<open>Clearing\<close>

lemma dictClear_loop_correct:
  assumes "length (ht_table ht) = ht_size ht" and "ht_used ht = length (concat (drop i (ht_table ht)))"
  shows "dictClear_loop ht i freed = Some (freed @ concat (drop i (ht_table ht)))"
  using assms
proof (induction ht i freed rule: dictClear_loop.induct)
  case (1 ht i freed)
  show ?case
  proof (cases "i < ht_size ht \<and> ht_used ht > 0")
    case True
    then have d: "drop i (ht_table ht) = ht_table ht ! i # drop (i + 1) (ht_table ht)"
      using "1.prems"(1) by (simp add: Cons_nth_drop_Suc)
    have n: "nth_opt (ht_table ht) i = Some (ht_table ht ! i)" using True "1.prems"(1) by (simp add: nth_opt_def)
    show ?thesis
      using "1.IH" [OF True n] True "1.prems" n d by (subst dictClear_loop.simps) simp
  next
    case False
    then have "length (concat (drop i (ht_table ht))) = 0" using "1.prems" by (cases "i < ht_size ht") simp_all
    then have "concat (drop i (ht_table ht)) = []" by (simp only: length_0_conv)
    with False show ?thesis by (subst dictClear_loop.simps) (auto simp del: concat_eq_Nil_conv)
  qed
qed

lemma dictClear_correct: "ht_wf t ht \<Longrightarrow> dictClear ht = Some (dictReset, ht_entries ht)"
  using dictClear_loop_correct [of ht 0 "[]"] by (simp add: dictClear_def ht_wf_def ht_shape_def)

lemma dictEmpty_correct:
  assumes "dict_wf d"
  shows "\<exists>d'. dictEmpty d = Some (d', dict_entries d) \<and> dict_wf d' \<and> dictSize d' = 0 \<and> d_type d' = d_type d \<and>
    dict_lookup d' = Map.empty"
proof -
  have "dictClear (d_ht0 d) = Some (dictReset, ht_entries (d_ht0 d))" "dictClear (d_ht1 d) = Some (dictReset, ht_entries (d_ht1 d))"
    using assms by (auto simp: dict_wf_def dict_shape_def intro: dictClear_correct)
  then show ?thesis
    by (simp add: dictEmpty_def dict_entries_def dict_wf_def dict_shape_def dictIsRehashing_def distinct_keys_def
        dictSize_def dict_lookup_def es_lookup_def fun_eq_iff)
qed

lemma same_map_inv:
  assumes "key_contract t" and wf: "dict_wf d" and t: "d_type d = t" and wf': "dict_wf d'" and sm: "same_map d d'"
  shows "dict_wf d' \<and> d_type d' = t" and "dictSize d' \<le> dictSize d" and "dict_lookup d' = dict_lookup d"
  using t wf' sm same_map_size [OF sm wf wf'] same_map_lookup [OF wf sm] by (auto simp: same_map_def)

lemma dictCreate_wf: "dict_wf (dictCreate t)" "dict_lookup (dictCreate t) = Map.empty" "dictSize (dictCreate t) = 0"
  "d_type (dictCreate t) = t"
  by (simp_all add: dictCreate_def dict_wf_def dict_shape_def dictIsRehashing_def distinct_keys_def dict_entries_def
      dictSize_def dict_lookup_def es_lookup_def fun_eq_iff)

section \<open>The contract of a keyed store\<close>

definition dict_inv :: "('k, 'v) dictType \<Rightarrow> ('k, 'v) dict \<Rightarrow> bool" where
  "dict_inv t d \<longleftrightarrow> key_contract t \<and> dict_wf d \<and> d_type d = t"

text \<open>Environment of the operations: the global \<open>dict_can_resize\<close> and the contents of fresh memory.\<close>

type_synonym 'v dict_env = "bool \<times> 'v"

definition dict_tick :: "nat \<Rightarrow> ('k, 'v) dict \<Rightarrow> ('k, 'v) dict option" where
  "dict_tick n d = map_option fst (dictRehash d n)"

interpretation dm: kv_store "dict_inv t" dict_lookup dictSize "2 ^ 62" "keq t" "dictValOf t"
  "\<lambda>e. dictAdd (fst e) (snd e)" "\<lambda>e. dictReplace (fst e) (snd e)" dictDelete dictFetchValue dict_tick
  for t :: "('k, 'v) dictType"
proof
  fix d :: "('k, 'v) dict" and e :: "'v dict_env" and k v
  assume d: "dict_inv t d" and s: "dictSize d < 2 ^ 62"
  have d': "key_contract (d_type d)" "dict_wf d" "d_type d = t" using d by (auto simp: dict_inv_def)
  show "\<exists>s'. dictAdd (fst e) (snd e) d k v = Some (s', dict_lookup d k = None) \<and> dict_inv t s' \<and> dictSize s' \<le> Suc (dictSize d) \<and>
      dict_lookup s' = (if dict_lookup d k = None then \<lambda>k'. if keq t k' k then Some (dictValOf t v) else dict_lookup d k'
        else dict_lookup d)"
    using dictAdd_correct [OF d'(1,2) s, of "fst e" "snd e" k v] d' d unfolding dict_inv_def by (auto simp: fun_eq_iff)
  show "\<exists>s'. dictReplace (fst e) (snd e) d k v = Some (s', dict_lookup d k = None) \<and> dict_inv t s' \<and> dictSize s' \<le> Suc (dictSize d) \<and>
      dict_lookup s' = (\<lambda>k'. if keq t k' k then Some (dictValOf t v) else dict_lookup d k')"
    using dictReplace_correct [OF d'(1,2) s, of "fst e" "snd e" k v] d' d unfolding dict_inv_def by auto
next
  fix d :: "('k, 'v) dict" and k k' n
  assume d: "dict_inv t d"
  have d': "key_contract (d_type d)" "dict_wf d" "d_type d = t" using d by (auto simp: dict_inv_def)
  obtain d1 he where "dictGenericDelete d k = Some (d1, he)" "dict_wf d1" "d_type d1 = t"
    "map_option de_val he = dict_lookup d k" "dictSize d1 = dictSize d - (if he = None then 0 else 1)"
    "dict_lookup d1 = (\<lambda>k'. if keq t k' k then None else dict_lookup d k')"
    using dictGenericDelete_correct [OF d'(1,2), of k] d'(3) by blast
  moreover have "he \<noteq> None \<longleftrightarrow> dict_lookup d k \<noteq> None" using calculation(4) [symmetric] by (cases he) auto
  ultimately show "\<exists>s'. dictDelete d k = Some (s', dict_lookup d k \<noteq> None) \<and> dict_inv t s' \<and> dictSize s' \<le> dictSize d \<and>
      dict_lookup s' = (\<lambda>k'. if keq t k' k then None else dict_lookup d k')"
    using d' unfolding dict_inv_def dictDelete_def by simp
  note sm = same_map_inv [OF _ d'(2,3)]
  show "\<exists>s'. dictFetchValue d k = Some (s', dict_lookup d k) \<and> dict_inv t s' \<and> dictSize s' \<le> dictSize d \<and> dict_lookup s' = dict_lookup d"
    using dictFetchValue_correct [OF d'(1,2), of k] sm d unfolding dict_inv_def by blast
  obtain d2 more where d2: "dictRehash d n = Some (d2, more)" "dict_wf d2" "same_map d d2"
    using dictRehash_correct [OF d'(2), of n] by blast
  then have "dict_tick n d = Some d2" by (simp add: dict_tick_def)
  then show "\<exists>s'. dict_tick n d = Some s' \<and> dict_inv t s' \<and> dictSize s' \<le> dictSize d \<and> dict_lookup s' = dict_lookup d"
    using sm [OF _ d2(2,3)] d unfolding dict_inv_def by blast
  show "keq t k k" by simp
  show "dict_lookup d k = dict_lookup d k'" if "keq t k k'"
    using keq_lookup [OF d'(1)] that d'(3) by simp
qed

section \<open>Properties\<close>

text \<open>A dictionary in the middle of a rehash from four to eight buckets, for examples.\<close>

definition sample_type :: "(nat, int) dictType" where
  "sample_type = \<lparr>hashFunction = of_nat, keyDup = None, valDup = None, keyCompare = None\<rparr>"

definition sample_dict :: "(nat, int) dict" where
  "sample_dict = \<lparr>d_type = sample_type,
     d_ht0 = \<lparr>ht_table = [[], [], [\<lparr>de_key = 6, de_val = 60\<rparr>, \<lparr>de_key = 2, de_val = 20\<rparr>], [\<lparr>de_key = 7, de_val = 70\<rparr>]],
       ht_size = 4, ht_sizemask = 3, ht_used = 3\<rparr>,
     d_ht1 = \<lparr>ht_table = [[], [], [], [], [], [\<lparr>de_key = 5, de_val = 50\<rparr>], [], []],
       ht_size = 8, ht_sizemask = 7, ht_used = 1\<rparr>,
     d_rehashidx = 2, d_iterators = 0\<rparr>"

lemma ht_placed_code [code]:
  "ht_placed t h \<longleftrightarrow> list_all (\<lambda>(i, c). list_all (\<lambda>e. bucket_index (hashFunction t (de_key e)) (ht_sizemask h) = i) c)
     (zip [0..<length (ht_table h)] (ht_table h))"
  by (simp add: ht_placed_def list_all_length all_set_conv_all_nth)

lemma ht_shape_power:
  "length (ht_table h) = ht_size h \<Longrightarrow> 2 \<le> k \<Longrightarrow> k \<le> 63 \<Longrightarrow> ht_size h = 2 ^ k \<Longrightarrow> ht_sizemask h = 2 ^ k - 1 \<Longrightarrow> ht_shape h"
  by (auto simp: ht_shape_def)

lemma sample_ht: "ht_wf sample_type (d_ht0 sample_dict)" "ht_wf sample_type (d_ht1 sample_dict)"
proof -
  have "ht_placed sample_type (d_ht0 sample_dict)" "ht_placed sample_type (d_ht1 sample_dict)"
    by code_simp+
  moreover have "ht_shape (d_ht0 sample_dict)" by (rule ht_shape_power [of _ 2]) (simp_all add: sample_dict_def)
  moreover have "ht_shape (d_ht1 sample_dict)" by (rule ht_shape_power [of _ 3]) (simp_all add: sample_dict_def)
  ultimately show "ht_wf sample_type (d_ht0 sample_dict)" "ht_wf sample_type (d_ht1 sample_dict)"
    by (auto simp: ht_wf_def sample_dict_def)
qed

lemma sample_wf: "dict_wf sample_dict"
proof -
  have "distinct_keys sample_type (dict_entries sample_dict)"
    by (simp add: distinct_keys_def sample_dict_def dict_entries_def key_matches_def dictCompareKeys_def sample_type_def)
  moreover have "dict_shape sample_dict"
    using sample_ht unfolding dict_shape_def
    by (auto simp: dictIsRehashing_def sample_dict_def less_Suc_eq numeral_eq_Suc nth_Cons split: nat.splits)
  ultimately show ?thesis by (simp add: dict_wf_def sample_dict_def)
qed

text \<open>
  C3: Incremental rehashing completes: calling \<open>dictRehash\<close> as often as the old
  table has buckets moves every entry, whatever the number of buckets per call,
  and keeps the map.
\<close>

theorem dictRehash_completes:
  assumes "dict_wf d" and "0 < n" and "0 < ht_size (d_ht0 d)"
  shows "\<exists>d'. rehash_times (ht_size (d_ht0 d)) n d = Some d' \<and> \<not> dictIsRehashing d' \<and> dict_wf d' \<and>
    dict_lookup d' = dict_lookup d \<and> dictSize d' = dictSize d"
proof -
  have "dictIsRehashing d \<longrightarrow> int (ht_size (d_ht0 d)) - d_rehashidx d \<le> int (ht_size (d_ht0 d))"
    using dict_wf_rehashing(3) [OF assms(1)] by auto
  from rehash_times_ends [OF assms(1,2) this assms(3)] obtain d' where
    "rehash_times (ht_size (d_ht0 d)) n d = Some d'" "\<not> dictIsRehashing d'" "dict_wf d'" "same_map d d'" by blast
  with same_map_lookup [OF assms(1)] same_map_size [OF _ assms(1)] show ?thesis by blast
qed

theorem dictRehash_completes_witness:
  "dictIsRehashing sample_dict \<and>
   (\<exists>d'. rehash_times 4 1 sample_dict = Some d' \<and> \<not> dictIsRehashing d' \<and> dict_wf d' \<and>
     dict_lookup d' 6 = Some 60 \<and> dictSize d' = 4)"
proof -
  have "dictIsRehashing sample_dict" "ht_size (d_ht0 sample_dict) = 4" "dictSize sample_dict = 4"
    "dict_lookup sample_dict 6 = Some 60"
    by (simp_all add: sample_dict_def dictIsRehashing_def dictSize_def dict_lookup_def es_lookup_def dict_entries_def
        key_matches_def dictCompareKeys_def sample_type_def)
  then show ?thesis using dictRehash_completes [OF sample_wf, of 1] by auto
qed

text \<open>
  C8: Clearing a dictionary, also in the middle of a rehash, releases every entry exactly once
  and leaves a well-formed dictionary without entries.
\<close>

theorem dictEmpty_releases_once:
  assumes "dict_wf d"
  shows "\<exists>d' freed. dictEmpty d = Some (d', freed) \<and> mset freed = mset (dict_entries d) \<and> length freed = dictSize d \<and>
    dict_wf d' \<and> dictSize d' = 0 \<and> dict_lookup d' = Map.empty"
  using dictEmpty_correct [OF assms] dictSize_entries [OF assms] by auto

theorem dictEmpty_releases_once_witness:
  "\<exists>d' freed. dictEmpty sample_dict = Some (d', freed) \<and> mset (map de_key freed) = mset [2, 5, 6, 7] \<and> dictSize d' = 0"
proof -
  obtain d' freed where f: "dictEmpty sample_dict = Some (d', freed)" "mset freed = mset (dict_entries sample_dict)" "dictSize d' = 0"
    using dictEmpty_releases_once [OF sample_wf] by blast
  have "mset (map de_key freed) = image_mset de_key (mset (dict_entries sample_dict))"
    using f(2) by simp
  then show ?thesis using f by (auto simp: sample_dict_def dict_entries_def)
qed

text \<open>
  \<open>_dictNextPower\<close> ends for every request and returns the least power of two,
  from four on, that is at least the request (capped at \<open>2 ^ 63\<close>).
\<close>

theorem dictNextPower_least:
  "\<exists>m. dictNextPower sz = Some (2 ^ m) \<and> 2 \<le> m \<and> m \<le> 63 \<and> min sz (2 ^ 63) \<le> 2 ^ m \<and> (m = 2 \<or> 2 ^ (m - 1) < sz)"
proof -
  obtain m where "m \<in> {2..63}" "dictNextPower sz = Some (2 ^ m)" "sz \<le> 2 ^ 63 \<longrightarrow> sz \<le> 2 ^ m" "m = 2 \<or> 2 ^ (m - 1) < sz"
    using dictNextPower_correct by blast
  moreover have "min sz (2 ^ 63) \<le> 2 ^ m" if "\<not> sz \<le> 2 ^ 63"
  proof -
    have "sz \<ge> LONG_MAX" using that by simp
    then have "(2::nat) ^ m = 2 ^ 63" using calculation(2) by (simp add: dictNextPower_def)
    then show ?thesis by simp
  qed
  ultimately show ?thesis by fastforce
qed

end
