(* ===== verification/Siphash.thy ===== *)
theory Siphash
  imports Endianconv
begin

text \<open>
  \<^verbatim>\<open>siphash.c\<close>: the SipHash-1-2 function that hashes dictionary keys, and
  the variant that ignores the case of ASCII letters. The theory proves that the
  variant is the plain hash of the lower-cased input, so that keys which differ
  in case only have equal hashes.
\<close>

section \<open>Definitions\<close>

record sipstate =
  v0 :: "64 word"
  v1 :: "64 word"
  v2 :: "64 word"
  v3 :: "64 word"

definition siptlw :: "byte \<Rightarrow> byte" where
  "siptlw c = (if 65 \<le> c \<and> c \<le> 90 then c + (97 - 65) else c)"

definition ROTL :: "64 word \<Rightarrow> nat \<Rightarrow> 64 word" where
  "ROTL x b = push_bit b x OR drop_bit (64 - b) x"

text \<open>\<open>U8TO64_LE(p)\<close> reads eight bytes, the list \<open>p\<close>.\<close>

definition U8TO64_LE :: "buf \<Rightarrow> 64 word" where
  "U8TO64_LE p =
     ucast (p ! 0) OR push_bit 8 (ucast (p ! 1)) OR
     push_bit 16 (ucast (p ! 2)) OR push_bit 24 (ucast (p ! 3)) OR
     push_bit 32 (ucast (p ! 4)) OR push_bit 40 (ucast (p ! 5)) OR
     push_bit 48 (ucast (p ! 6)) OR push_bit 56 (ucast (p ! 7))"

definition U8TO64_LE_NOCASE :: "buf \<Rightarrow> 64 word" where
  "U8TO64_LE_NOCASE p =
     ucast (siptlw (p ! 0)) OR push_bit 8 (ucast (siptlw (p ! 1))) OR
     push_bit 16 (ucast (siptlw (p ! 2))) OR push_bit 24 (ucast (siptlw (p ! 3))) OR
     push_bit 32 (ucast (siptlw (p ! 4))) OR push_bit 40 (ucast (siptlw (p ! 5))) OR
     push_bit 48 (ucast (siptlw (p ! 6))) OR push_bit 56 (ucast (siptlw (p ! 7)))"

definition SIPROUND :: "sipstate \<Rightarrow> sipstate" where
  "SIPROUND s =
     (let s = s\<lparr>v0 := v0 s + v1 s\<rparr>;
          s = s\<lparr>v1 := ROTL (v1 s) 13\<rparr>;
          s = s\<lparr>v1 := v1 s XOR v0 s\<rparr>;
          s = s\<lparr>v0 := ROTL (v0 s) 32\<rparr>;
          s = s\<lparr>v2 := v2 s + v3 s\<rparr>;
          s = s\<lparr>v3 := ROTL (v3 s) 16\<rparr>;
          s = s\<lparr>v3 := v3 s XOR v2 s\<rparr>;
          s = s\<lparr>v0 := v0 s + v3 s\<rparr>;
          s = s\<lparr>v3 := ROTL (v3 s) 21\<rparr>;
          s = s\<lparr>v3 := v3 s XOR v0 s\<rparr>;
          s = s\<lparr>v2 := v2 s + v1 s\<rparr>;
          s = s\<lparr>v1 := ROTL (v1 s) 17\<rparr>;
          s = s\<lparr>v1 := v1 s XOR v2 s\<rparr>;
          s = s\<lparr>v2 := ROTL (v2 s) 32\<rparr>
      in s)"

definition sip_init :: "buf \<Rightarrow> sipstate" where
  "sip_init k =
     (let k0 = U8TO64_LE k; k1 = U8TO64_LE (drop 8 k)
      in \<lparr>v0 = 0x736f6d6570736575 XOR k0, v1 = 0x646f72616e646f6d XOR k1,
          v2 = 0x6c7967656e657261 XOR k0, v3 = 0x7465646279746573 XOR k1\<rparr>)"

text \<open>\<open>for (; in != end; in += 8)\<close> runs over the full blocks; the result also has the rest of the input.\<close>

fun sip_blocks :: "nat \<Rightarrow> buf \<Rightarrow> sipstate \<Rightarrow> sipstate \<times> buf" where
  "sip_blocks 0 inp s = (s, inp)"
| "sip_blocks (Suc n) inp s =
     (let m = U8TO64_LE inp;
          s = s\<lparr>v3 := v3 s XOR m\<rparr>;
          s = SIPROUND s;
          s = s\<lparr>v0 := v0 s XOR m\<rparr>
      in sip_blocks n (drop 8 inp) s)"

fun sip_blocks_nocase :: "nat \<Rightarrow> buf \<Rightarrow> sipstate \<Rightarrow> sipstate \<times> buf" where
  "sip_blocks_nocase 0 inp s = (s, inp)"
| "sip_blocks_nocase (Suc n) inp s =
     (let m = U8TO64_LE_NOCASE inp;
          s = s\<lparr>v3 := v3 s XOR m\<rparr>;
          s = SIPROUND s;
          s = s\<lparr>v0 := v0 s XOR m\<rparr>
      in sip_blocks_nocase n (drop 8 inp) s)"

text \<open>The \<open>switch (left)\<close> falls through from \<open>left\<close> down to 1.\<close>

definition sip_tail :: "nat \<Rightarrow> buf \<Rightarrow> 64 word \<Rightarrow> 64 word" where
  "sip_tail left inp b =
     (let b = (if left \<ge> 7 then b OR push_bit 48 (ucast (inp ! 6)) else b);
          b = (if left \<ge> 6 then b OR push_bit 40 (ucast (inp ! 5)) else b);
          b = (if left \<ge> 5 then b OR push_bit 32 (ucast (inp ! 4)) else b);
          b = (if left \<ge> 4 then b OR push_bit 24 (ucast (inp ! 3)) else b);
          b = (if left \<ge> 3 then b OR push_bit 16 (ucast (inp ! 2)) else b);
          b = (if left \<ge> 2 then b OR push_bit 8 (ucast (inp ! 1)) else b);
          b = (if left \<ge> 1 then b OR ucast (inp ! 0) else b)
      in b)"

definition sip_tail_nocase :: "nat \<Rightarrow> buf \<Rightarrow> 64 word \<Rightarrow> 64 word" where
  "sip_tail_nocase left inp b =
     (let b = (if left \<ge> 7 then b OR push_bit 48 (ucast (siptlw (inp ! 6))) else b);
          b = (if left \<ge> 6 then b OR push_bit 40 (ucast (siptlw (inp ! 5))) else b);
          b = (if left \<ge> 5 then b OR push_bit 32 (ucast (siptlw (inp ! 4))) else b);
          b = (if left \<ge> 4 then b OR push_bit 24 (ucast (siptlw (inp ! 3))) else b);
          b = (if left \<ge> 3 then b OR push_bit 16 (ucast (siptlw (inp ! 2))) else b);
          b = (if left \<ge> 2 then b OR push_bit 8 (ucast (siptlw (inp ! 1))) else b);
          b = (if left \<ge> 1 then b OR ucast (siptlw (inp ! 0)) else b)
      in b)"

text \<open>
  From the \<open>v3 ^= b\<close> after the switch to the end. Away from x86 the result is
  stored byte by byte into a variable, lowest byte first, and read back as the
  host reads integers; on little-endian hosts, x86 among them, this is \<open>b\<close>.
\<close>

definition sip_finish :: "host \<Rightarrow> 64 word \<Rightarrow> sipstate \<Rightarrow> 64 word" where
  "sip_finish h b s =
     (let s = s\<lparr>v3 := v3 s XOR b\<rparr>;
          s = SIPROUND s;
          s = s\<lparr>v0 := v0 s XOR b\<rparr>;
          s = s\<lparr>v2 := v2 s XOR 0xff\<rparr>;
          s = SIPROUND s;
          s = SIPROUND s;
          b = v0 s XOR v1 s XOR v2 s XOR v3 s
      in word_of_int (native_val h (le_enc 8 (uint b))))"

definition siphash :: "host \<Rightarrow> buf \<Rightarrow> buf \<Rightarrow> 64 word" where
  "siphash h inp k =
     (let inlen = length inp;
          left = inlen mod 8;
          b = push_bit 56 (of_nat inlen :: 64 word);
          (s, inp) = sip_blocks (inlen div 8) inp (sip_init k)
      in sip_finish h (sip_tail left inp b) s)"

definition siphash_nocase :: "host \<Rightarrow> buf \<Rightarrow> buf \<Rightarrow> 64 word" where
  "siphash_nocase h inp k =
     (let inlen = length inp;
          left = inlen mod 8;
          b = push_bit 56 (of_nat inlen :: 64 word);
          (s, inp) = sip_blocks_nocase (inlen div 8) inp (sip_init k)
      in sip_finish h (sip_tail_nocase left inp b) s)"

section \<open>Case-insensitive hashing\<close>

lemma nth_map_le: "n \<le> length p \<Longrightarrow> i < n \<Longrightarrow> map f p ! i = f (p ! i)"
  by simp

lemma U8TO64_LE_map: "8 \<le> length p \<Longrightarrow> U8TO64_LE (map siptlw p) = U8TO64_LE_NOCASE p"
  by (simp add: U8TO64_LE_def U8TO64_LE_NOCASE_def nth_map_le [of 8])

lemma sip_blocks_map:
  "8 * n \<le> length inp \<Longrightarrow>
    sip_blocks n (map siptlw inp) s = apsnd (map siptlw) (sip_blocks_nocase n inp s)"
proof (induction n arbitrary: inp s)
  case (Suc n)
  then show ?case
    by (simp add: U8TO64_LE_map Let_def drop_map)
qed simp

lemma sip_blocks_nocase_rest: "snd (sip_blocks_nocase n inp s) = drop (8 * n) inp"
  by (induction n arbitrary: inp s) (simp_all add: Let_def add.commute)

lemma sip_tail_map: "left \<le> length inp \<Longrightarrow> left < 8 \<Longrightarrow> sip_tail left (map siptlw inp) b = sip_tail_nocase left inp b"
  by (simp add: sip_tail_def sip_tail_nocase_def nth_map_le [of left])

lemma siphash_nocase_map: "siphash_nocase h inp k = siphash h (map siptlw inp) k"
proof -
  let ?n = "length inp div 8"
  obtain s r where nc: "sip_blocks_nocase ?n inp (sip_init k) = (s, r)" by fastforce
  then have r: "r = drop (8 * ?n) inp" using sip_blocks_nocase_rest by (metis snd_conv)
  have "8 * ?n \<le> length inp" by simp
  then have "sip_blocks ?n (map siptlw inp) (sip_init k) = (s, map siptlw r)"
    using sip_blocks_map nc by simp
  moreover have "length inp mod 8 \<le> length r"
    unfolding r by (simp add: minus_mult_div_eq_mod)
  ultimately show ?thesis
    by (simp add: siphash_def siphash_nocase_def Let_def nc sip_tail_map)
qed

lemma siptlw_idem [simp]: "siptlw (siptlw c) = siptlw c"
proof (cases "65 \<le> c \<and> c \<le> 90")
  case True
  then have "unat (c + 32) = unat c + 32" "65 \<le> unat c" "unat c \<le> 90"
    by (auto simp: word_le_nat_alt unat_word_ariths)
  then have "\<not> c + 32 \<le> 90" by (simp add: word_le_nat_alt)
  then show ?thesis by (simp add: siptlw_def)
qed (simp add: siptlw_def)

section \<open>Evaluation on concrete inputs\<close>

text \<open>The round in four parts, so that the simplifier computes each word once.\<close>

definition sip_part1 :: "64 word \<Rightarrow> 64 word \<Rightarrow> 64 word \<times> 64 word" where
  "sip_part1 a b = (ROTL (a + b) 32, ROTL b 13 XOR (a + b))"

definition sip_part2 :: "64 word \<Rightarrow> 64 word \<Rightarrow> 64 word \<times> 64 word" where
  "sip_part2 c d = (c + d, ROTL d 16 XOR (c + d))"

definition sip_part3 :: "64 word \<Rightarrow> 64 word \<Rightarrow> 64 word \<times> 64 word" where
  "sip_part3 a d = (a + d, ROTL d 21 XOR (a + d))"

definition sip_part4 :: "64 word \<Rightarrow> 64 word \<Rightarrow> 64 word \<times> 64 word" where
  "sip_part4 c b = (ROTL (c + b) 32, ROTL b 17 XOR (c + b))"

definition sip_mix :: "64 word \<Rightarrow> sipstate \<Rightarrow> sipstate" where
  "sip_mix m s = s\<lparr>v0 := v0 s XOR m, v2 := v2 s XOR 0xff\<rparr>"

definition sip_out :: "host \<Rightarrow> sipstate \<Rightarrow> 64 word" where
  "sip_out h s = word_of_int (native_val h (le_enc 8 (uint (v0 s XOR v1 s XOR v2 s XOR v3 s))))"

lemma SIPROUND_parts:
  "SIPROUND \<lparr>v0 = a, v1 = b, v2 = c, v3 = d\<rparr> =
     (case sip_part1 a b of (a, b) \<Rightarrow> case sip_part2 c d of (c, d) \<Rightarrow>
      case sip_part3 a d of (a, d) \<Rightarrow> case sip_part4 c b of (c, b) \<Rightarrow> \<lparr>v0 = a, v1 = b, v2 = c, v3 = d\<rparr>)"
  by (simp add: SIPROUND_def Let_def sip_part1_def sip_part2_def sip_part3_def sip_part4_def)

lemma sip_finish_rounds:
  "sip_finish h b s = sip_out h (SIPROUND (SIPROUND (sip_mix b (SIPROUND (s\<lparr>v3 := v3 s XOR b\<rparr>)))))"
  by (simp add: sip_finish_def sip_out_def sip_mix_def Let_def)

lemma sip_mix_eval:
  "sip_mix m \<lparr>v0 = a, v1 = b, v2 = c, v3 = d\<rparr> = \<lparr>v0 = a XOR m, v1 = b, v2 = c XOR 0xff, v3 = d\<rparr>"
  by (simp add: sip_mix_def)

lemma sip_out_le:
  assumes "\<not> big_endian h"
  shows "sip_out h \<lparr>v0 = a, v1 = b, v2 = c, v3 = d\<rparr> = a XOR b XOR c XOR d"
proof -
  have "uint (x :: 64 word) mod 256 ^ 8 = uint x" for x
    using uint_lt2p [of x] by (intro mod_pos_pos_trivial) auto
  then show ?thesis using assms by (simp add: sip_out_def native_val_def le_dec_enc)
qed

lemma ROTL_numeral: "ROTL (numeral n) b = push_bit b (numeral n) OR drop_bit (64 - b) (numeral n)"
  by (simp add: ROTL_def)

lemmas siphash_eval = sip_finish_rounds sip_mix_eval SIPROUND_parts sip_part1_def sip_part2_def sip_part3_def
  sip_part4_def ROTL_numeral sip_out_le

text \<open>A little-endian host and a hash seed, for examples.\<close>

definition le_host :: host where
  "le_host = \<lparr>big_endian = False, fresh = \<lambda>_. 0\<rparr>"

definition zero_seed :: buf where
  "zero_seed = replicate 16 0"

lemma siphash_nocase_a: "siphash_nocase le_host [97] zero_seed = 12523601488019100690"
  by (simp add: siphash_nocase_def sip_init_def U8TO64_LE_def sip_tail_nocase_def siptlw_def le_host_def zero_seed_def)
    (simp add: siphash_eval)

lemma siphash_nocase_a0b: "siphash_nocase le_host [97, 0, 98] zero_seed = 11726123510192979824"
  by (simp add: siphash_nocase_def sip_init_def U8TO64_LE_def sip_tail_nocase_def siptlw_def le_host_def zero_seed_def)
    (simp add: siphash_eval)

section \<open>Properties\<close>

text \<open>
  \<open>siphash_nocase\<close> is \<open>siphash\<close> of the input with its ASCII upper case
  letters made lower case, for inputs of every length and on every host.
\<close>

theorem siphash_nocase_lowercase: "siphash_nocase h inp k = siphash h (map siptlw inp) k"
  by (rule siphash_nocase_map)

lemma siphash_nocase_eq: "map siptlw a = map siptlw b \<Longrightarrow> siphash_nocase h a k = siphash_nocase h b k"
  by (simp add: siphash_nocase_map)

end
