(* ===== verification/Dict_Types.thy ===== *)
theory Dict_Types
  imports Dict_Map Siphash
begin

text \<open>
  The types of dictionaries that \<^verbatim>\<open>server.c\<close> declares for keys that are sds
  strings. A string is the list of its \<open>sdslen\<close> bytes (below the 512 MB limit, so that
  \<open>int\<close> holds the length); the terminator that follows it in memory is not part of the list. The hash
  seed is a parameter. The binary-safe types fulfil \<open>key_contract\<close>; the
  case-insensitive ones fulfil it for keys without NUL bytes only.
\<close>

section \<open>Callbacks\<close>

definition dictSdsKeyCompare :: "buf \<Rightarrow> buf \<Rightarrow> bool" where
  "dictSdsKeyCompare key1 key2 =
     (let l1 = length key1; l2 = length key2
      in if l1 \<noteq> l2 then False else take l1 key1 = take l1 key2)"



definition dictGenHashFunction :: "host \<Rightarrow> buf \<Rightarrow> buf \<Rightarrow> 64 word" where
  "dictGenHashFunction h seed key = siphash h key seed"


definition dictSdsHash :: "host \<Rightarrow> buf \<Rightarrow> buf \<Rightarrow> 64 word" where
  "dictSdsHash h seed key = dictGenHashFunction h seed key"


section \<open>Dictionary types\<close>

definition setDictType :: "host \<Rightarrow> buf \<Rightarrow> (buf, 'v) dictType" where
  "setDictType h seed = \<lparr>hashFunction = dictSdsHash h seed, keyDup = None, valDup = None,
     keyCompare = Some dictSdsKeyCompare\<rparr>"


definition dbDictType :: "host \<Rightarrow> buf \<Rightarrow> (buf, 'v) dictType" where
  "dbDictType h seed = \<lparr>hashFunction = dictSdsHash h seed, keyDup = None, valDup = None,
     keyCompare = Some dictSdsKeyCompare\<rparr>"

definition keyptrDictType :: "host \<Rightarrow> buf \<Rightarrow> (buf, 'v) dictType" where
  "keyptrDictType h seed = \<lparr>hashFunction = dictSdsHash h seed, keyDup = None, valDup = None,
     keyCompare = Some dictSdsKeyCompare\<rparr>"

definition hashDictType :: "host \<Rightarrow> buf \<Rightarrow> (buf, 'v) dictType" where
  "hashDictType h seed = \<lparr>hashFunction = dictSdsHash h seed, keyDup = None, valDup = None,
     keyCompare = Some dictSdsKeyCompare\<rparr>"


section \<open>The contract of the callbacks\<close>

lemma dictSdsKeyCompare_eq [simp]: "dictSdsKeyCompare a b \<longleftrightarrow> a = b"
  by (auto simp: dictSdsKeyCompare_def Let_def)



lemma db_keq [simp]: "keq (dbDictType h seed) a b \<longleftrightarrow> a = b" "keq (keyptrDictType h seed) a b \<longleftrightarrow> a = b"
  "keq (setDictType h seed) a b \<longleftrightarrow> a = b" "keq (hashDictType h seed) a b \<longleftrightarrow> a = b"
  by (auto simp: keq_def dictCompareKeys_def dbDictType_def keyptrDictType_def setDictType_def hashDictType_def)

lemma db_dup [simp]: "dictValOf (dbDictType h seed) v = v" "dictValOf (keyptrDictType h seed) v = v"
  "dictValOf (setDictType h seed) v = v" "dictValOf (hashDictType h seed) v = v"
  by (simp_all add: dictValOf_def dbDictType_def keyptrDictType_def setDictType_def hashDictType_def)

section \<open>Properties\<close>






end
