(* ===== verification/Util_Num.thy ===== *)
theory Util_Num
  imports Redis_Prelude
begin

text \<open>
  \<^verbatim>\<open>util.c\<close>, numbers as text: \<open>digits10\<close>, \<open>sdigits10\<close>, \<open>ll2string\<close>, \<open>string2ll\<close>, \<open>string2l\<close>
  and \<open>memtoll\<close>. The reference is the canonical decimal representation \<open>dec\<close>, \<open>sdec\<close>;
  \<open>ll2string\<close> writes it and \<open>string2ll\<close> accepts nothing else.
\<close>

section \<open>Definitions\<close>

abbreviation LLONG_MAX :: int where "LLONG_MAX \<equiv> 2 ^ 63 - 1"
abbreviation LLONG_MIN :: int where "LLONG_MIN \<equiv> - (2 ^ 63)"
abbreviation ULLONG_MAX :: nat where "ULLONG_MAX \<equiv> 2 ^ 64 - 1"

fun digits10 :: "nat \<Rightarrow> nat" where
  "digits10 v =
     (if v < 10 then 1
      else if v < 100 then 2
      else if v < 1000 then 3
      else if v < 1000000000000 then
        (if v < 100000000 then
           (if v < 1000000 then
              (if v < 10000 then 4 else 5 + of_bool (v \<ge> 100000))
            else 7 + of_bool (v \<ge> 10000000))
         else if v < 10000000000 then 9 + of_bool (v \<ge> 1000000000)
         else 11 + of_bool (v \<ge> 100000000000))
      else 12 + digits10 (v div 1000000000000))"

declare digits10.simps [simp del]

definition sdigits10 :: "int \<Rightarrow> nat" where
  "sdigits10 v =
     (if v < 0 then
        (let uv = (if v \<noteq> LLONG_MIN then nat (- v) else nat LLONG_MAX + 1)
         in digits10 uv + 1)
      else digits10 (nat v))"

text \<open>A write at an index that may have gone below zero.\<close>

definition upd_int :: "buf \<Rightarrow> int \<Rightarrow> byte \<Rightarrow> buf option" where
  "upd_int b i v = (if i < 0 then None else upd_opt b (nat i) v)"

definition digit_pairs :: buf where
  "digit_pairs = map of_char
     (''0001020304050607080910111213141516171819'' @
      ''2021222324252627282930313233343536373839'' @
      ''4041424344454647484950515253545556575859'' @
      ''6061626364656667686970717273747576777879'' @
      ''8081828384858687888990919293949596979899'')"

text \<open>\<open>while (value >= 100)\<close>: two digits at a time, from the right.\<close>

function ll2string_loop :: "buf \<Rightarrow> nat \<Rightarrow> int \<Rightarrow> (buf \<times> nat \<times> int) option" where
  "ll2string_loop dst value next =
     (if value \<ge> 100 then
        (let i = value mod 100 * 2 in do {
           d1 \<leftarrow> nth_opt digit_pairs (i + 1);
           dst \<leftarrow> upd_int dst next d1;
           d0 \<leftarrow> nth_opt digit_pairs i;
           dst \<leftarrow> upd_int dst (next - 1) d0;
           ll2string_loop dst (value div 100) (next - 2) })
      else Some (dst, value, next))"
  by pat_completeness auto
termination
  by (relation "measure (\<lambda>(dst, value, next). value)") auto

declare ll2string_loop.simps [simp del]

definition ll2string :: "buf \<Rightarrow> nat \<Rightarrow> int \<Rightarrow> (buf \<times> nat) option" where
  "ll2string dst dstlen svalue =
     (let value = (if svalue < 0 then (if svalue \<noteq> LLONG_MIN then nat (- svalue) else nat LLONG_MAX + 1)
                   else nat svalue);
          negative = svalue < 0;
          len = digits10 value + of_bool negative
      in if len \<ge> dstlen then Some (dst, 0)
         else do {
           dst \<leftarrow> upd_opt dst len 0;
           (dst, value, next) \<leftarrow> ll2string_loop dst value (int len - 1);
           dst \<leftarrow> (if value < 10 then upd_int dst next (48 + of_nat value)
                   else do {
                     d1 \<leftarrow> nth_opt digit_pairs (value * 2 + 1);
                     dst \<leftarrow> upd_int dst next d1;
                     d0 \<leftarrow> nth_opt digit_pairs (value * 2);
                     upd_int dst (next - 1) d0 });
           dst \<leftarrow> (if negative then upd_opt dst 0 45 else Some dst);
           Some (dst, len) })"

text \<open>
  The loop over the digits after the first; the outer option of the result is
  \<open>None\<close> on overflow, otherwise the value and the rest of the string.
\<close>

fun string2ll_loop :: "buf \<Rightarrow> nat \<Rightarrow> (nat \<times> buf) option" where
  "string2ll_loop [] v = Some (v, [])"
| "string2ll_loop (c # p) v =
     (if 48 \<le> c \<and> c \<le> 57 then
        (if v > ULLONG_MAX div 10 then None
         else
           (let v = v * 10 mod 2 ^ 64 in
            if v > ULLONG_MAX - unat (c - 48) then None
            else string2ll_loop p ((v + unat (c - 48)) mod 2 ^ 64)))
      else Some (v, c # p))"

text \<open>After the loop: unused bytes, and the conversion to \<open>long long\<close>.\<close>

definition string2ll_end :: "bool \<Rightarrow> nat \<times> buf \<Rightarrow> int option" where
  "string2ll_end negative r = (case r of (v, rest) \<Rightarrow>
     if rest \<noteq> [] then None
     else if negative then
       (if v > nat (- (LLONG_MIN + 1)) + 1 then None else Some (sint (- of_nat v :: 64 word)))
     else (if v > nat LLONG_MAX then None else Some (int v)))"

text \<open>\<open>Some\<close> of the value stands for the return value 1, \<open>None\<close> for 0.\<close>

definition string2ll :: "buf \<Rightarrow> int option" where
  "string2ll s =
     (if s = [] then None
      else if length s = 1 \<and> hd s = 48 then Some 0
      else
        (let negative = (hd s = 45);
             p = (if negative then tl s else s)
         in case p of [] \<Rightarrow> None
            | c # p \<Rightarrow>
                if 49 \<le> c \<and> c \<le> 57
                then Option.bind (string2ll_loop p (unat (c - 48))) (string2ll_end negative)
                else None))"

definition string2l :: "buf \<Rightarrow> int option" where
  "string2l s =
     (case string2ll s of None \<Rightarrow> None
      | Some llval \<Rightarrow> if llval < LLONG_MIN \<or> llval > LLONG_MAX then None else Some llval)"

abbreviation is_digit :: "byte \<Rightarrow> bool" where
  "is_digit c \<equiv> 48 \<le> c \<and> c \<le> 57"

text \<open>The value of a string of digits, continuing from \<open>v\<close>.\<close>

fun dec_val :: "nat \<Rightarrow> buf \<Rightarrow> nat" where
  "dec_val v [] = v"
| "dec_val v (c # p) = dec_val (v * 10 + unat (c - 48)) p"

text \<open>
  \<open>strtoll(buf, &endptr, 10)\<close> on a buffer that has no blanks before the number: the value, clamped to the range
  of \<open>long long\<close>, the number of bytes that it used, and whether \<open>errno\<close> is \<open>EINVAL\<close>, which a library may
  set when there is no number.
\<close>

definition strtoll :: "bool \<Rightarrow> buf \<Rightarrow> int \<times> nat \<times> bool" where
  "strtoll einval b =
     (let negative = (b \<noteq> [] \<and> hd b = 45);
          ds = takeWhile is_digit (if negative then tl b else b);
          v = int (dec_val 0 ds)
      in if ds = [] then (0, 0, einval)
         else (if negative then max LLONG_MIN (- v) else min LLONG_MAX v, length ds + of_bool negative, False))"

text \<open>\<open>strcasecmp\<close> in the C locale.\<close>

definition to_lower :: "byte \<Rightarrow> byte" where
  "to_lower c = (if 65 \<le> c \<and> c \<le> 90 then c + 32 else c)"

definition memory_unit :: "buf \<Rightarrow> int option" where
  "memory_unit u =
     (let l = map to_lower u in
      if u = [] \<or> l = [98] then Some 1
      else if l = [107] then Some 1000
      else if l = [107, 98] then Some 1024
      else if l = [109] then Some (1000 * 1000)
      else if l = [109, 98] then Some (1024 * 1024)
      else if l = [103] then Some (1000 * 1000 * 1000)
      else if l = [103, 98] then Some (1024 * 1024 * 1024)
      else None)"

text \<open>
  The value and \<open>*err\<close>. The product \<open>val*mul\<close> overflows without a check: this is \<open>None\<close>.
\<close>

definition memtoll :: "bool \<Rightarrow> buf \<Rightarrow> (int \<times> bool) option" where
  "memtoll einval p =
     (let u = dropWhile is_digit (if p \<noteq> [] \<and> hd p = 45 then tl p else p)
      in case memory_unit u of
           None \<Rightarrow> Some (0, True)
         | Some mul \<Rightarrow>
             (let digits = length p - length u in
              if digits \<ge> 128 then Some (0, True)
              else
                (let buf = take digits p;
                     (val, endp, inval) = strtoll einval buf
                 in if val = 0 \<and> inval \<or> endp < length buf then Some (0, True)
                    else if LLONG_MIN \<le> val * mul \<and> val * mul \<le> LLONG_MAX then Some (val * mul, False)
                    else None)))"

section \<open>Decimal representation\<close>

fun dec :: "nat \<Rightarrow> buf" where
  "dec n = (if n < 10 then [48 + of_nat n] else dec (n div 10) @ [48 + of_nat (n mod 10)])"

declare dec.simps [simp del]

definition sdec :: "int \<Rightarrow> buf" where
  "sdec v = (if v < 0 then 45 # dec (nat (- v)) else dec (nat v))"

lemma dec_small: "n < 10 \<Longrightarrow> dec n = [48 + of_nat n]"
  by (simp add: dec.simps)

lemma dec_step: "10 \<le> n \<Longrightarrow> dec n = dec (n div 10) @ [48 + of_nat (n mod 10)]"
  by (subst dec.simps) simp

lemma dec_step100: "100 \<le> n \<Longrightarrow> dec n = dec (n div 100) @ [48 + of_nat (n mod 100 div 10), 48 + of_nat (n mod 10)]"
proof -
  assume n: "100 \<le> n"
  have "n div 10 mod 10 = n mod 100 div 10"
    using mod_mult2_eq [of n 10 10] by simp
  moreover have "n div 10 div 10 = n div 100" by (simp add: div_mult2_eq [symmetric])
  ultimately show ?thesis using n dec_step [of n] dec_step [of "n div 10"] by simp
qed

lemma dec_nonempty [simp]: "dec n \<noteq> []" "[] \<noteq> dec n"
  by (subst dec.simps, simp)+

lemma length_dec_step: "10 \<le> n \<Longrightarrow> length (dec n) = Suc (length (dec (n div 10)))"
  by (simp add: dec_step)

lemma ten_le: "10 ^ Suc k \<le> n \<Longrightarrow> (10::nat) \<le> n"
  using one_le_power [of "10::nat" k] unfolding power_Suc by linarith

lemma length_dec_range:
  "10 ^ k \<le> n \<Longrightarrow> n < 10 ^ Suc k \<Longrightarrow> length (dec n) = Suc k"
proof (induction k arbitrary: n)
  case 0
  then show ?case by (simp add: dec_small)
next
  case (Suc k)
  have "10 \<le> n" using Suc.prems(1) by (rule ten_le)
  moreover have "10 ^ k \<le> n div 10" "n div 10 < 10 ^ Suc k"
    using Suc.prems by (auto simp: less_mult_imp_div_less div_le_mono [of "10 * 10 ^ k" n 10, simplified])
  ultimately show ?case using Suc.IH by (simp add: length_dec_step)
qed

lemma length_dec_le: "n < 10 ^ Suc k \<Longrightarrow> length (dec n) \<le> Suc k"
proof (induction k arbitrary: n)
  case 0
  then show ?case by (simp add: dec_small)
next
  case (Suc k)
  then have "n div 10 < 10 ^ Suc k" by (simp add: less_mult_imp_div_less)
  then show ?case using Suc.IH [of "n div 10"] by (cases "n < 10") (simp_all add: dec_small length_dec_step)
qed

lemma length_dec_12: "1000000000000 \<le> n \<Longrightarrow> length (dec n) = 12 + length (dec (n div 1000000000000))"
proof -
  assume n: "1000000000000 \<le> n"
  have step: "length (dec m) = Suc (length (dec (m div 10)))" if "10 \<le> m" for m
    using that by (rule length_dec_step)
  have k: "length (dec m) = k + length (dec (m div 10 ^ k))" if "10 ^ k \<le> m" for k m
    using that
  proof (induction k arbitrary: m)
    case (Suc k)
    have "10 ^ k \<le> m div 10" using Suc.prems by (simp add: less_eq_div_iff_mult_less_eq mult.commute)
    moreover have "10 \<le> m" using Suc.prems by (rule ten_le)
    ultimately show ?case using Suc.IH [of "m div 10"] step [of m] by (simp add: div_mult2_eq)
  qed simp
  from k [of 12 n] n show ?thesis by simp
qed

lemma digits10_correct: "digits10 v = length (dec v)"
proof (induction v rule: digits10.induct)
  case (1 v)
  show ?case
  proof (cases "v < 1000000000000")
    case False
    then show ?thesis using 1 length_dec_12 [of v] by (subst digits10.simps) simp
  next
    case True
    note r = length_dec_range [of 0 v, simplified] length_dec_range [of 1 v, simplified] length_dec_range [of 2 v, simplified]
      length_dec_range [of 3 v, simplified] length_dec_range [of 4 v, simplified] length_dec_range [of 5 v, simplified]
      length_dec_range [of 6 v, simplified] length_dec_range [of 7 v, simplified] length_dec_range [of 8 v, simplified]
      length_dec_range [of 9 v, simplified] length_dec_range [of 10 v, simplified] length_dec_range [of 11 v, simplified]
    have z: "length (dec v) = 1" if "v < 10" using that by (simp add: dec_small)
    show ?thesis using True r z by (subst digits10.simps) (auto simp: not_less not_le)
  qed
qed

section \<open>Printing\<close>

lemma digit_pairs_concat:
  "digit_pairs = concat (map (\<lambda>n. [48 + of_nat (n div 10), 48 + of_nat (n mod 10)]) [0..<100])"
  by code_simp

lemma nth_opt_Suc [simp]: "nth_opt (x # xs) (Suc n) = nth_opt xs n" "nth_opt (x # xs) 0 = Some x"
  by (simp_all add: nth_opt_def)

lemma concat_pairs_nth:
  "n < length xs \<Longrightarrow> nth_opt (concat (map (\<lambda>n. [f n, g n]) xs)) (n * 2) = Some (f (xs ! n)) \<and>
    nth_opt (concat (map (\<lambda>n. [f n, g n]) xs)) (Suc (n * 2)) = Some (g (xs ! n))"
proof (induction xs arbitrary: n)
  case (Cons x xs)
  then show ?case by (cases n) auto
qed simp

lemma digit_pairs_nth:
  assumes "n < 100"
  shows "nth_opt digit_pairs (n * 2) = Some (48 + of_nat (n div 10))" "nth_opt digit_pairs (n * 2 + 1) = Some (48 + of_nat (n mod 10))"
  using concat_pairs_nth [of n "[0..<100]" "\<lambda>n. 48 + of_nat (n div 10) :: byte" "\<lambda>n. 48 + of_nat (n mod 10)"] assms
  unfolding digit_pairs_concat by simp_all

text \<open>Writing \<open>xs\<close> so that it ends at index \<open>e\<close> (exclusive).\<close>

lemma upd_int_Some: "0 \<le> i \<Longrightarrow> i < int (length b) \<Longrightarrow> upd_int b i v = Some (b[nat i := v])"
  by (auto simp: upd_int_def upd_opt_def)

lemma upd_int_mid: "upd_int (xs @ c # ys) (int (length xs)) v = Some (xs @ v # ys)"
  by (simp add: upd_int_def upd_opt_def)

lemma upd_int_mid': "i = int (length xs) \<Longrightarrow> upd_int (xs @ c # ys) i v = Some (xs @ v # ys)"
  using upd_int_mid by simp

lemma split_last2:
  assumes "length xs = Suc (Suc n)"
  obtains ys a b where "xs = ys @ [a, b]" "length ys = n"
proof -
  from assms obtain ys b where 1: "xs = ys @ [b]" "length ys = Suc n" by (metis length_Suc_conv_rev)
  from 1(2) obtain zs a where "ys = zs @ [a]" "length zs = n" by (metis length_Suc_conv_rev)
  with 1 that show thesis by simp
qed

text \<open>
  The loop and the last one or two digits together overwrite the region \<open>xs\<close> with the digits.
\<close>

lemma ll2string_loop_correct:
  assumes "length xs = length (dec value)"
  shows "\<exists>ys v next zs. ll2string_loop (pre @ xs @ post) value (int (length pre + length xs) - 1) =
      Some (pre @ ys @ zs @ post, v, next) \<and> v < 100 \<and> next = int (length pre + length ys) - 1 \<and>
      length ys = length (dec v) \<and> dec v @ zs = dec value"
  using assms
proof (induction "value" arbitrary: xs post rule: less_induct)
  case (less n)
  show ?case
  proof (cases "n \<ge> 100")
    case False
    then show ?thesis using less.prems
      by (subst ll2string_loop.simps) (intro exI [of _ xs] exI [of _ n] exI [of _ "[]"], auto)
  next
    case True
    have len: "length xs = Suc (Suc (length (dec (n div 100))))"
      using less.prems dec_step100 [OF True] by simp
    obtain ws a b where xs: "xs = ws @ [a, b]" "length ws = length (dec (n div 100))"
      using len by (rule split_last2)
    have m: "n mod 100 < 100" by simp
    let ?d0 = "48 + of_nat (n mod 100 div 10)" and ?d1 = "48 + of_nat (n mod 100 mod 10)"
    have u1: "upd_int (pre @ xs @ post) (int (length pre + length xs) - 1) ?d1 = Some ((pre @ ws @ [a]) @ ?d1 # post)"
      using upd_int_mid' [of _ "pre @ ws @ [a]" b post] xs by simp
    have u0: "upd_int ((pre @ ws @ [a]) @ ?d1 # post) (int (length pre + length xs) - 1 - 1) ?d0 = Some ((pre @ ws) @ ?d0 # ?d1 # post)"
      using upd_int_mid' [of _ "pre @ ws" a "?d1 # post"] xs by simp
    have "ll2string_loop (pre @ xs @ post) n (int (length pre + length xs) - 1) =
        ll2string_loop (pre @ ws @ (?d0 # ?d1 # post)) (n div 100) (int (length pre + length ws) - 1)"
      using True digit_pairs_nth [OF m] u1 u0 xs by (subst ll2string_loop.simps) (simp add: Let_def)
    moreover have "n div 100 < n" using True by simp
    from less.IH [OF this xs(2), of "?d0 # ?d1 # post"]
    obtain ys v nx zs where "ll2string_loop (pre @ ws @ (?d0 # ?d1 # post)) (n div 100) (int (length pre + length ws) - 1) =
        Some (pre @ ys @ zs @ (?d0 # ?d1 # post), v, nx)" "v < 100" "nx = int (length pre + length ys) - 1"
      "length ys = length (dec v)" "dec v @ zs = dec (n div 100)" by blast
    moreover have "dec n = dec (n div 100) @ [?d0, ?d1]"
      using dec_step100 [OF True] by (simp add: mod_mod_cancel)
    ultimately show ?thesis
      by (intro exI [of _ ys] exI [of _ v] exI [of _ nx] exI [of _ "zs @ [?d0, ?d1]"]) simp
  qed
qed

lemma dec_two: "10 \<le> v \<Longrightarrow> v < 100 \<Longrightarrow> dec v = [48 + of_nat (v div 10), 48 + of_nat (v mod 10)]"
  by (simp add: dec_step dec_small)

text \<open>The last one or two digits.\<close>

lemma ll2string_last:
  assumes "v < 100" and "length ys = length (dec v)"
  shows "(if v < 10 then upd_int (pre @ ys @ post) (int (length pre + length ys) - 1) (48 + of_nat v)
     else do {
       d1 \<leftarrow> nth_opt digit_pairs (v * 2 + 1);
       dst \<leftarrow> upd_int (pre @ ys @ post) (int (length pre + length ys) - 1) d1;
       d0 \<leftarrow> nth_opt digit_pairs (v * 2);
       upd_int dst (int (length pre + length ys) - 1 - 1) d0 }) = Some (pre @ dec v @ post)"
proof (cases "v < 10")
  case True
  then obtain a where "ys = [a]" using assms(2) by (auto simp: dec_small length_Suc_conv)
  then show ?thesis using True upd_int_mid' [of _ pre a post] by (simp add: dec_small)
next
  case False
  then obtain a b where ys: "ys = [a, b]" using assms by (auto simp: dec_two length_Suc_conv)
  show ?thesis
    using False digit_pairs_nth [OF assms(1)] ys upd_int_mid' [of _ "pre @ [a]" b post] upd_int_mid' [of _ pre a] assms(1)
    by (simp add: dec_two)
qed

lemma sdec_length: "length (sdec v) = digits10 (nat \<bar>v\<bar>) + of_bool (v < 0)"
  by (simp add: sdec_def digits10_correct)

text \<open>\<open>ll2string\<close> writes the decimal representation and a terminator if they fit.\<close>

lemma ll2string_correct:
  assumes v: "LLONG_MIN \<le> v" "v \<le> LLONG_MAX" and room: "length (sdec v) < dstlen" and dst: "dstlen \<le> length dst"
  shows "ll2string dst dstlen v = Some (sdec v @ 0 # drop (Suc (length (sdec v))) dst, length (sdec v))"
proof -
  let ?mag = "nat \<bar>v\<bar>" and ?len = "length (sdec v)"
  have vl: "(if v < 0 then (if v \<noteq> LLONG_MIN then nat (- v) else nat LLONG_MAX + 1) else nat v) = ?mag"
    using v by (auto simp: nat_add_distrib)
  have len: "digits10 ?mag + of_bool (v < 0) = ?len" by (simp add: sdec_length)
  have dl: "?len < length dst" using room dst by simp
  define post where "post = 0 # drop (Suc ?len) dst"
  have d0: "upd_opt dst ?len 0 = Some (take ?len dst @ post)"
    using dl by (simp add: upd_opt_def post_def list_update_take_drop)
  define pre where "pre = take (of_bool (v < 0)) dst"
  define xs where "xs = drop (of_bool (v < 0)) (take ?len dst)"
  have le: "of_bool (v < 0) \<le> ?len" by (simp add: sdec_def)
  have px: "take ?len dst @ post = pre @ xs @ post"
    using le append_take_drop_id [of "of_bool (v < 0)" "take ?len dst"] by (simp add: pre_def xs_def min_def)
  have lpre: "length pre = of_bool (v < 0)" using le dl by (simp add: pre_def)
  have lxs: "length xs = length (dec ?mag)" using dl by (simp add: xs_def sdec_def min_def)
  have sum: "int ?len - 1 = int (length pre + length xs) - 1"
    using lpre lxs by (simp add: sdec_def)
  obtain ys w n zs where lp: "ll2string_loop (pre @ xs @ post) ?mag (int ?len - 1) = Some (pre @ ys @ zs @ post, w, n)"
    "w < 100" "n = int (length pre + length ys) - 1" "length ys = length (dec w)" "dec w @ zs = dec ?mag"
    using ll2string_loop_correct [OF lxs, of pre post, folded sum] by blast
  have sign: "(if v < 0 then upd_opt (pre @ dec w @ zs @ post) 0 45 else Some (pre @ dec w @ zs @ post)) = Some (sdec v @ post)"
  proof (cases "v < 0")
    case True
    then obtain a where "pre = [a]" using lpre by (auto simp: length_Suc_conv)
    then show ?thesis using True lp(5) by (simp add: upd_opt_def sdec_def flip: append_assoc)
  next
    case False
    then show ?thesis using lpre lp(5) by (simp add: sdec_def flip: append_assoc)
  qed
  have "\<not> dstlen \<le> ?len" using room by simp
  then have "ll2string dst dstlen v = Some (sdec v @ post, ?len)"
    unfolding ll2string_def Let_def vl len lp(3)
    by (simp only: if_False d0 px lp(1,3) bind.bind_lunit prod.case ll2string_last [OF lp(2,4), of pre "zs @ post"] sign)
  then show ?thesis by (simp add: post_def)
qed

lemma ll2string_short:
  assumes v: "LLONG_MIN \<le> v" "v \<le> LLONG_MAX" and "dstlen \<le> length (sdec v)"
  shows "ll2string dst dstlen v = Some (dst, 0)"
proof -
  have "(if v < 0 then (if v \<noteq> LLONG_MIN then nat (- v) else nat LLONG_MAX + 1) else nat v) = nat \<bar>v\<bar>"
    using v by (auto simp: nat_add_distrib)
  then show ?thesis using assms(3) sdec_length [of v] by (simp add: ll2string_def Let_def)
qed

section \<open>Parsing\<close>

lemma digit_val: "is_digit c \<Longrightarrow> unat (c - 48) = unat c - 48 \<and> unat (c - 48) < 10"
  by (auto simp: word_le_nat_alt unat_sub)

lemma digit_char: "is_digit c \<Longrightarrow> 48 + of_nat (unat (c - 48)) = c"
  by simp

lemma char_digit: "n < 10 \<Longrightarrow> is_digit (48 + of_nat n) \<and> unat (48 + of_nat n - 48 :: byte) = n"
  by (auto simp: word_le_nat_alt unat_word_ariths unat_of_nat)

lemma dec_val_ge: "v \<le> dec_val v p"
proof (induction p arbitrary: v)
  case (Cons c p)
  from Cons [of "v * 10 + unat (c - 48)"] show ?case by simp
qed simp

lemma dec_val_append: "dec_val v (p @ q) = dec_val (dec_val v p) q"
  by (induction p arbitrary: v) auto

lemma string2ll_loop_correct:
  assumes "v < 2 ^ 64"
  shows "string2ll_loop p v =
    (let d = takeWhile is_digit p in
     if dec_val v d < 2 ^ 64 then Some (dec_val v d, dropWhile is_digit p) else None)"
  using assms
proof (induction p v rule: string2ll_loop.induct)
  case (2 c p v)
  show ?case
  proof (cases "is_digit c")
    case False
    then show ?thesis using 2 by auto
  next
    case True
    let ?w = "v * 10 + unat (c - 48)"
    have d: "unat (c - 48) < 10" using digit_val [OF True] by blast
    show ?thesis
    proof (cases "?w < 2 ^ 64")
      case lt: True
      then have "\<not> v > ULLONG_MAX div 10" "v * 10 mod 2 ^ 64 = v * 10" "\<not> v * 10 > ULLONG_MAX - unat (c - 48)" "?w mod 2 ^ 64 = ?w"
        using d by auto
      then have "string2ll_loop (c # p) v = string2ll_loop p ?w"
        using True by simp
      also have "\<dots> = (let d = takeWhile is_digit p in if dec_val ?w d < 2 ^ 64 then Some (dec_val ?w d, dropWhile is_digit p) else None)"
        using "2.IH" [OF True \<open>\<not> v > ULLONG_MAX div 10\<close> refl, unfolded \<open>v * 10 mod 2 ^ 64 = v * 10\<close> \<open>?w mod 2 ^ 64 = ?w\<close>] lt
          \<open>\<not> v * 10 > ULLONG_MAX - unat (c - 48)\<close> by simp
      finally show ?thesis using True by simp
    next
      case ge: False
      then have "string2ll_loop (c # p) v = None"
        using True d by (auto simp: Let_def)
      moreover have "\<not> dec_val ?w (takeWhile is_digit p) < 2 ^ 64"
        using dec_val_ge [of ?w "takeWhile is_digit p"] ge by linarith
      ultimately show ?thesis using True by simp
    qed
  qed
qed simp

lemma dec_dec_val: "1 \<le> v \<Longrightarrow> list_all is_digit p \<Longrightarrow> dec (dec_val v p) = dec v @ p"
proof (induction p arbitrary: v)
  case (Cons c p)
  have d: "unat (c - 48) < 10" using Cons.prems digit_val [of c] by auto
  have "dec (v * 10 + unat (c - 48)) = dec v @ [48 + of_nat (unat (c - 48))]"
    using Cons.prems(1) d dec_step [of "v * 10 + unat (c - 48)"] by simp
  also have "\<dots> = dec v @ [c]" using digit_char [of c] Cons.prems by simp
  finally show ?case using Cons by simp
qed simp

lemma dec_canonical:
  "1 \<le> n \<Longrightarrow> \<exists>c p. dec n = c # p \<and> 49 \<le> c \<and> c \<le> 57 \<and> list_all is_digit p \<and> dec_val (unat (c - 48)) p = n"
proof (induction n rule: dec.induct)
  case (1 n)
  show ?case
  proof (cases "n < 10")
    case True
    have "49 \<le> (48 + of_nat n :: byte)"
      using True "1.prems" by (auto simp: word_le_nat_alt unat_word_ariths unat_of_nat)
    then show ?thesis using char_digit [OF True] True by (simp add: dec_small)
  next
    case False
    then have "1 \<le> n div 10" by (simp add: div_greater_zero_iff Suc_le_eq)
    with False obtain c p where c: "dec (n div 10) = c # p" "49 \<le> c" "c \<le> 57" "list_all is_digit p"
      "dec_val (unat (c - 48)) p = n div 10" using "1.IH" by blast
    have m: "n mod 10 < 10" by simp
    have "dec_val (unat (c - 48)) (p @ [48 + of_nat (n mod 10)]) = n"
      using c(5) char_digit [OF m] by (simp add: dec_val_append)
    then show ?thesis using False c char_digit [OF m] by (simp add: dec_step)
  qed
qed

lemma dec_0: "dec 0 = [48]"
  by (simp add: dec_small)

lemma dec_small_char: "49 \<le> c \<Longrightarrow> c \<le> 57 \<Longrightarrow> dec (unat (c - 48)) = [c] \<and> 1 \<le> unat (c - 48)"
proof -
  assume c: "49 \<le> c" "c \<le> 57"
  then have "is_digit c" by (auto simp: word_le_nat_alt)
  then show ?thesis using digit_val [of c] c by (auto simp: dec_small word_le_nat_alt)
qed

text \<open>What is left of the parser once the loop is replaced by its result.\<close>

lemma string2ll_unsigned:
  assumes "49 \<le> c" "c \<le> 57"
  shows "string2ll_loop p (unat (c - 48)) = Some (v, []) \<longleftrightarrow> v < 2 ^ 64 \<and> 1 \<le> v \<and> dec v = c # p"
proof -
  let ?v = "unat (c - 48)"
  note sc = dec_small_char [OF assms]
  have lt: "?v < 2 ^ 64" using unsigned_less [of "c - 48"] by (rule less_trans) simp
  have "string2ll_loop p ?v = Some (v, []) \<longleftrightarrow> list_all is_digit p \<and> dec_val ?v p = v \<and> v < 2 ^ 64"
  proof (cases "list_all is_digit p")
    case True
    then have t: "takeWhile is_digit p = p" "dropWhile is_digit p = []" by (auto simp: list_all_iff)
    show ?thesis unfolding string2ll_loop_correct [OF lt, of p] Let_def t using True by auto
  next
    case False
    then have "dropWhile is_digit p \<noteq> []" by (auto simp: list_all_iff)
    then show ?thesis unfolding string2ll_loop_correct [OF lt, of p] Let_def using False by auto
  qed
  moreover have "list_all is_digit p \<and> dec_val ?v p = v \<longleftrightarrow> 1 \<le> v \<and> dec v = c # p"
  proof
    assume a: "list_all is_digit p \<and> dec_val ?v p = v"
    then have "dec v = c # p" using dec_dec_val [of ?v p] sc by auto
    moreover have "1 \<le> v" using a dec_val_ge [of ?v p] sc by simp
    ultimately show "1 \<le> v \<and> dec v = c # p" by simp
  next
    assume a: "1 \<le> v \<and> dec v = c # p"
    then show "list_all is_digit p \<and> dec_val ?v p = v" using dec_canonical [of v] by auto
  qed
  ultimately show ?thesis by blast
qed

lemma dec_hd: "1 \<le> v \<Longrightarrow> dec v = c # p \<Longrightarrow> 49 \<le> c \<and> c \<le> 57"
  using dec_canonical [of v] by auto

lemma neg_cast: "n \<le> 2 ^ 63 \<Longrightarrow> sint (- of_nat n :: 64 word) = - int n"
proof -
  assume "n \<le> 2 ^ 63"
  then have "- (2 ^ 63) \<le> - int n" by simp
  moreover have "(- of_nat n :: 64 word) = word_of_int (- int n)" by simp
  then have "sint (- of_nat n :: 64 word) = signed_take_bit 63 (- int n)" by (simp only: sint_sbintrunc') simp
  ultimately show ?thesis by (simp add: signed_take_bit_int_eq_self)
qed

lemma string2ll_end_Some:
  "Option.bind r (string2ll_end neg) = Some v \<longleftrightarrow>
    (\<exists>n. r = Some (n, []) \<and> n \<le> (if neg then 2 ^ 63 else 2 ^ 63 - 1) \<and> v = (if neg then - int n else int n))"
  by (cases r) (auto simp: string2ll_end_def neg_cast split: if_splits)

text \<open>A digit string without sign, from 1 on.\<close>

lemma string2ll_digits:
  "(case p of [] \<Rightarrow> None
     | c # p \<Rightarrow> if 49 \<le> c \<and> c \<le> 57 then Option.bind (string2ll_loop p (unat (c - 48))) (string2ll_end neg) else None) = Some v \<longleftrightarrow>
    (\<exists>n. 1 \<le> n \<and> n \<le> (if neg then 2 ^ 63 else 2 ^ 63 - 1) \<and> v = (if neg then - int n else int n) \<and> p = dec n)"
proof (cases p)
  case Nil
  then show ?thesis by auto
next
  case (Cons c q)
  show ?thesis
  proof (cases "49 \<le> c \<and> c \<le> 57")
    case True
    then show ?thesis using Cons by (auto simp: string2ll_end_Some string2ll_unsigned)
  next
    case False
    then have "p \<noteq> dec n" if "1 \<le> n" for n using dec_hd [of n c q] that Cons by auto
    then show ?thesis using Cons False by auto
  qed
qed

lemma sdec_minus:
  "(LLONG_MIN \<le> v \<and> v \<le> LLONG_MAX \<and> 45 # p = sdec v) \<longleftrightarrow> (\<exists>n. 1 \<le> n \<and> n \<le> 2 ^ 63 \<and> v = - int n \<and> p = dec n)"
proof
  assume a: "LLONG_MIN \<le> v \<and> v \<le> LLONG_MAX \<and> 45 # p = sdec v"
  have "v < 0"
  proof (rule ccontr)
    assume "\<not> v < 0"
    then have c: "dec (nat v) = 45 # p" using a by (simp add: sdec_def)
    have "nat v \<noteq> 0"
    proof
      assume "nat v = 0"
      with c have "dec 0 = 45 # p" by simp
      then show False by (simp add: dec_0)
    qed
    then have "1 \<le> nat v" by linarith
    from dec_hd [OF this c] show False by simp
  qed
  then show "\<exists>n. 1 \<le> n \<and> n \<le> 2 ^ 63 \<and> v = - int n \<and> p = dec n"
    using a by (intro exI [of _ "nat (- v)"]) (auto simp: sdec_def)
next
  assume "\<exists>n. 1 \<le> n \<and> n \<le> 2 ^ 63 \<and> v = - int n \<and> p = dec n"
  then obtain n where "1 \<le> n" "n \<le> 2 ^ 63" "v = - int n" "p = dec n" by blast
  then show "LLONG_MIN \<le> v \<and> v \<le> LLONG_MAX \<and> 45 # p = sdec v" by (simp add: sdec_def)
qed

lemma sdec_plus:
  assumes "s \<noteq> [48]" and "hd s \<noteq> 45"
  shows "(LLONG_MIN \<le> v \<and> v \<le> LLONG_MAX \<and> s = sdec v) \<longleftrightarrow> (\<exists>n. 1 \<le> n \<and> n \<le> 2 ^ 63 - 1 \<and> v = int n \<and> s = dec n)"
proof
  assume a: "LLONG_MIN \<le> v \<and> v \<le> LLONG_MAX \<and> s = sdec v"
  then have "\<not> v < 0" "v \<noteq> 0" using assms by (auto simp: sdec_def dec_0)
  moreover from this have "1 \<le> nat v" "nat v \<le> 2 ^ 63 - 1" using a by auto
  ultimately show "\<exists>n. 1 \<le> n \<and> n \<le> 2 ^ 63 - 1 \<and> v = int n \<and> s = dec n"
    using a by (intro exI [of _ "nat v"]) (simp add: sdec_def)
next
  assume "\<exists>n. 1 \<le> n \<and> n \<le> 2 ^ 63 - 1 \<and> v = int n \<and> s = dec n"
  then obtain n where "1 \<le> n" "n \<le> 2 ^ 63 - 1" "v = int n" "s = dec n" by blast
  then show "LLONG_MIN \<le> v \<and> v \<le> LLONG_MAX \<and> s = sdec v" by (simp add: sdec_def)
qed

lemma string2ll_Some: "string2ll s = Some v \<longleftrightarrow> LLONG_MIN \<le> v \<and> v \<le> LLONG_MAX \<and> s = sdec v"
proof -
  consider "s = []" | "s = [48]" | "s \<noteq> [48]" "s \<noteq> []" "hd s = 45" | "s \<noteq> [48]" "s \<noteq> []" "hd s \<noteq> 45" by blast
  then show ?thesis
  proof cases
    case 1
    then show ?thesis by (simp add: string2ll_def sdec_def)
  next
    case 2
    have "[48] = sdec v \<longleftrightarrow> v = 0"
    proof (cases "1 \<le> v")
      case True
      then have "1 \<le> nat v" by linarith
      from dec_hd [OF this, of 48 "[]"] have "dec (nat v) \<noteq> [48]" by auto
      then show ?thesis using True by (auto simp: sdec_def)
    next
      case False
      then show ?thesis by (cases "v = 0") (simp_all add: sdec_def dec_0)
    qed
    then show ?thesis using 2 by (auto simp: string2ll_def)
  next
    case 3
    then obtain p where p: "s = 45 # p" by (cases s) auto
    have "string2ll s = (case p of [] \<Rightarrow> None
       | c # p \<Rightarrow> if 49 \<le> c \<and> c \<le> 57 then Option.bind (string2ll_loop p (unat (c - 48))) (string2ll_end True) else None)"
      by (simp add: p string2ll_def Let_def)
    then have "string2ll s = Some v \<longleftrightarrow> (\<exists>n. 1 \<le> n \<and> n \<le> 2 ^ 63 \<and> v = - int n \<and> p = dec n)"
      by (simp only: string2ll_digits if_True)
    then show ?thesis unfolding p sdec_minus by simp
  next
    case 4
    then have "string2ll s = (case s of [] \<Rightarrow> None
       | c # p \<Rightarrow> if 49 \<le> c \<and> c \<le> 57 then Option.bind (string2ll_loop p (unat (c - 48))) (string2ll_end False) else None)"
      by (cases s) (auto simp: string2ll_def Let_def)
    then have "string2ll s = Some v \<longleftrightarrow> (\<exists>n. 1 \<le> n \<and> n \<le> 2 ^ 63 - 1 \<and> v = int n \<and> s = dec n)"
      by (simp only: string2ll_digits if_False)
    then show ?thesis unfolding sdec_plus [OF 4(1,3)] by simp
  qed
qed

section \<open>Properties\<close>

text \<open>
  C12: \<open>string2ll\<close> accepts exactly the canonical decimal representations of the 64-bit
  signed integers, and returns the integer: no leading zeros, no \<open>-0\<close>, no plus sign, no
  blanks and no overflow, so that the string is recovered from the number.
\<close>

theorem string2ll_exact: "string2ll s = Some v \<longleftrightarrow> LLONG_MIN \<le> v \<and> v \<le> LLONG_MAX \<and> s = sdec v"
  by (rule string2ll_Some)

text \<open>
  C13: \<open>ll2string\<close> writes the decimal representation of every 64-bit signed integer
  and a terminator, and nothing else, when they fit; otherwise it returns 0 and
  leaves the buffer alone. It never writes outside the buffer.
\<close>

theorem ll2string_exact:
  assumes "LLONG_MIN \<le> v" and "v \<le> LLONG_MAX" and "dstlen \<le> length dst"
  shows "ll2string dst dstlen v =
    (if length (sdec v) < dstlen then Some (sdec v @ 0 # drop (Suc (length (sdec v))) dst, length (sdec v)) else Some (dst, 0))"
  using ll2string_correct [OF assms(1,2) _ assms(3)] ll2string_short [OF assms(1,2)] by auto

theorem ll2string_exact_witness:
  "ll2string (replicate 32 7) 32 (- 9223372036854775808) = Some ([45,57,50,50,51,51,55,50,48,51,54,56,53,52,55,55,53,56,48,56] @ 0 # replicate 11 7, 20) \<and>
   ll2string (replicate 32 7) 3 (- 10) = Some (replicate 32 7, 0)"
proof -
  have "sdec (- 9223372036854775808) = [45,57,50,50,51,51,55,50,48,51,54,56,53,52,55,55,53,56,48,56]"
    by (simp add: sdec_def dec.simps)
  moreover have "sdec (- 10) = [45, 49, 48]"
    by (simp add: sdec_def dec.simps)
  ultimately show ?thesis
    using ll2string_exact [of "- 9223372036854775808" 32 "replicate 32 7"] ll2string_exact [of "- 10" 3 "replicate 32 7"] by simp
qed

text \<open>
  Printing with \<open>ll2string\<close> and parsing what was printed with \<open>string2ll\<close> gives
  the number back.
\<close>

theorem ll2string_string2ll:
  assumes "LLONG_MIN \<le> v" and "v \<le> LLONG_MAX" and "length dst = 32"
  shows "\<exists>b n. ll2string dst 32 v = Some (b, n) \<and> string2ll (take n b) = Some v"
proof -
  have "length (sdec v) < 32"
  proof -
    have "nat \<bar>v\<bar> < 10 ^ 20" using assms(1,2) by simp
    then have "length (dec (nat \<bar>v\<bar>)) \<le> 20" using length_dec_le [of "nat \<bar>v\<bar>" 19] by simp
    then show ?thesis by (auto simp: sdec_def abs_if)
  qed
  then show ?thesis
    using ll2string_correct [OF assms(1,2), of 32 dst] assms string2ll_Some [of "sdec v" v] by simp
qed

theorem ll2string_string2ll_witness:
  "\<exists>b n. ll2string (replicate 32 0) 32 (- 1234567) = Some (b, n) \<and> string2ll (take n b) = Some (- 1234567)"
  by (rule ll2string_string2ll) simp_all

section \<open>Amounts of memory\<close>

lemma dec_digits: "list_all is_digit (dec n) \<and> dec_val 0 (dec n) = n"
proof (cases "n = 0")
  case True
  then show ?thesis by (simp add: dec_0)
next
  case False
  then have "1 \<le> n" by simp
  from dec_canonical [OF this] obtain c p where c: "dec n = c # p" "49 \<le> c" "c \<le> 57" "list_all is_digit p"
    "dec_val (unat (c - 48)) p = n" by blast
  have "48 \<le> c" using c(2) by (simp add: word_le_nat_alt)
  then show ?thesis using c by simp
qed

lemma dec_takeWhile: "takeWhile is_digit (dec n) = dec n"
  using dec_digits [of n] by (simp add: takeWhile_eq_all_conv list_all_iff)

lemma dec_dropWhile: "u = [] \<or> \<not> is_digit (hd u) \<Longrightarrow> dropWhile is_digit (dec n @ u) = u"
  using dec_digits [of n] by (cases u) (auto simp: dropWhile_append list_all_iff)

lemma dec_hd_digit: "is_digit (hd (dec n))"
  using dec_digits [of n] by (cases "dec n") auto

lemma strtoll_sdec:
  assumes "LLONG_MIN \<le> v" "v \<le> LLONG_MAX"
  shows "strtoll e (sdec v) = (v, length (sdec v), False)"
proof (cases "v < 0")
  case True
  then show ?thesis
    using assms dec_digits [of "nat (- v)"] by (simp add: strtoll_def sdec_def dec_takeWhile Let_def)
next
  case False
  have "hd (dec (nat v)) \<noteq> 45" using dec_hd_digit [of "nat v"] by auto
  then show ?thesis
    using False assms dec_digits [of "nat v"] by (simp add: strtoll_def sdec_def dec_takeWhile Let_def)
qed

lemma memtoll_sdec:
  assumes v: "LLONG_MIN \<le> v" "v \<le> LLONG_MAX" and u: "memory_unit u = Some mul" "u = [] \<or> \<not> is_digit (hd u)"
    and r: "LLONG_MIN \<le> v * mul" "v * mul \<le> LLONG_MAX"
  shows "memtoll e (sdec v @ u) = Some (v * mul, False)"
proof -
  have drop: "dropWhile is_digit (if sdec v @ u \<noteq> [] \<and> hd (sdec v @ u) = 45 then tl (sdec v @ u) else sdec v @ u) = u"
  proof (cases "v < 0")
    case True
    then show ?thesis using dec_dropWhile [OF u(2)] by (simp add: sdec_def)
  next
    case False
    have "hd (dec (nat v) @ u) \<noteq> 45" using dec_hd_digit [of "nat v"] by (auto simp: hd_append)
    then show ?thesis using False dec_dropWhile [OF u(2)] by (simp add: sdec_def)
  qed
  have "nat \<bar>v\<bar> < 10 ^ 20" using v by simp
  then have "length (dec (nat \<bar>v\<bar>)) \<le> 20" using length_dec_le [of "nat \<bar>v\<bar>" 19] by simp
  then have "length (sdec v) < 128" by (auto simp: sdec_def abs_if)
  then show ?thesis
    unfolding memtoll_def drop Let_def using u(1) r strtoll_sdec [OF v] by simp
qed

text \<open>
  C14: \<open>memtoll\<close> reads a decimal number with a unit (none, \<open>b\<close>, \<open>k\<close>, \<open>kb\<close>, \<open>m\<close>, \<open>mb\<close>, \<open>g\<close>, \<open>gb\<close>, in
  either case) as the number of bytes that it denotes, if that number is in range.
\<close>

theorem memtoll_units:
  assumes "LLONG_MIN \<le> v" "v \<le> LLONG_MAX" and "LLONG_MIN \<le> v * mul" "v * mul \<le> LLONG_MAX"
    and "(map to_lower u, mul) \<in> {([], 1), ([98], 1), ([107], 1000), ([107, 98], 1024), ([109], 1000000), ([109, 98], 1048576),
      ([103], 1000000000), ([103, 98], 1073741824)}"
  shows "memtoll e (sdec v @ u) = Some (v * mul, False)"
proof (rule memtoll_sdec [OF assms(1,2) _ _ assms(3,4)])
  show "memory_unit u = Some mul" using assms(5) by (auto simp: memory_unit_def Let_def)
  show "u = [] \<or> \<not> is_digit (hd u)"
  proof (cases u)
    case (Cons c w)
    have "to_lower c = c" if "is_digit c"
    proof -
      have "\<not> 65 \<le> c" using that by (auto simp: word_le_nat_alt)
      then show ?thesis by (simp add: to_lower_def)
    qed
    then show ?thesis using Cons assms(5) by auto
  qed simp
qed

theorem memtoll_units_witness:
  "memtoll False ([45, 52, 50] @ [77, 98]) = Some (- 42 * 1048576, False)"
proof -
  have "sdec (- 42) = [45, 52, 50]" by (simp add: sdec_def dec.simps)
  moreover have "memtoll False (sdec (- 42) @ [77, 98]) = Some (- 42 * 1048576, False)"
    by (rule memtoll_units) (simp_all add: to_lower_def)
  ultimately show ?thesis by simp
qed


end
