(* ===== verification/Util_Glob.thy ===== *)
theory Util_Glob
  imports Redis_Prelude
begin

text \<open>
  \<^verbatim>\<open>util.c\<close>, glob-style matching: \<open>stringmatchlen\<close>, used by \<open>KEYS\<close>, \<open>SCAN\<close>, \<open>PSUBSCRIBE\<close> and
  \<open>CONFIG GET\<close>. The pattern is a position in memory and a remaining length, as in the code, which reads one
  byte past the pattern in several places; the theory proves that with the terminator
  that follows every sds string all reads are in bounds, that the function returns, and that
  it decides a declarative matching relation.
\<close>

section \<open>Definitions\<close>

text \<open>\<open>char\<close> is signed; \<open>tolower\<close> in the C locale.\<close>

definition tolower_int :: "int \<Rightarrow> int" where
  "tolower_int c = (if 65 \<le> c \<and> c \<le> 90 then c + 32 else c)"

definition char_eq :: "bool \<Rightarrow> byte \<Rightarrow> byte \<Rightarrow> bool" where
  "char_eq nocase a b = (if \<not> nocase then a = b else tolower_int (sint a) = tolower_int (sint b))"

text \<open>\<open>while (pattern[1] == '*') { pattern++; patternLen--; }\<close>\<close>

function star_skip :: "buf \<Rightarrow> nat \<Rightarrow> int \<Rightarrow> (nat \<times> int) option" where
  "star_skip pm i plen =
     (if i + 1 < length pm
      then (if pm ! (i + 1) = 42 then star_skip pm (i + 1) (plen - 1) else Some (i, plen))
      else None)"
  by pat_completeness auto
termination
  by (relation "measure (\<lambda>(pm, i, plen). length pm - i)") auto

text \<open>\<open>while (*pattern == '*') { pattern++; patternLen--; }\<close>\<close>

function trailing_stars :: "buf \<Rightarrow> nat \<Rightarrow> int \<Rightarrow> (nat \<times> int) option" where
  "trailing_stars pm i plen =
     (if i < length pm
      then (if pm ! i = 42 then trailing_stars pm (i + 1) (plen - 1) else Some (i, plen))
      else None)"
  by pat_completeness auto
termination
  by (relation "measure (\<lambda>(pm, i, plen). length pm - i)") auto

text \<open>A range \<open>a-b\<close> of a class, with its ends in either order.\<close>

definition range_match :: "bool \<Rightarrow> byte \<Rightarrow> byte \<Rightarrow> byte \<Rightarrow> bool" where
  "range_match nocase a b c =
     (let start = sint a; stop = sint b; c = sint c;
          (start, stop) = (if start > stop then (stop, start) else (start, stop));
          (start, stop, c) = (if nocase then (tolower_int start, tolower_int stop, tolower_int c) else (start, stop, c))
      in c \<ge> start \<and> c \<le> stop)"

text \<open>
  The loop over the members of a class \<open>[...]\<close>, at string character \<open>c\<close>. The result is the
  position of the closing bracket, or of the last byte of the pattern when there is none.
\<close>

function class_loop :: "bool \<Rightarrow> buf \<Rightarrow> nat \<Rightarrow> int \<Rightarrow> byte \<Rightarrow> bool \<Rightarrow> (nat \<times> int \<times> bool) option" where
  "class_loop nocase pm i plen c match =
     (if i < length pm then
        (let p0 = pm ! i in
         if p0 = 92 \<and> plen \<ge> 2 then
           (case nth_opt pm (i + 1) of None \<Rightarrow> None
            | Some p1 \<Rightarrow> class_loop nocase pm (i + 2) (plen - 2) c (match \<or> p1 = c))
         else if p0 = 93 then Some (i, plen, match)
         else if plen = 0 then Some (i - 1, plen + 1, match)
         else
           (case nth_opt pm (i + 1) of None \<Rightarrow> None
            | Some p1 \<Rightarrow>
                if p1 = 45 \<and> plen \<ge> 3 then
                  (case nth_opt pm (i + 2) of None \<Rightarrow> None
                   | Some p2 \<Rightarrow>
                       class_loop nocase pm (i + 3) (plen - 3) c (match \<or> range_match nocase p0 p2 c))
                else class_loop nocase pm (i + 1) (plen - 1) c (match \<or> char_eq nocase p0 c)))
      else None)"
  by pat_completeness auto
termination
  by (relation "measure (\<lambda>(nocase, pm, i, plen, c, match). length pm - i)") auto

declare star_skip.simps [simp del] trailing_stars.simps [simp del] class_loop.simps [simp del]

text \<open>
  One element of the pattern other than \<open>*\<close>, at string character \<open>c\<close>: whether it
  matches, and the position of its last byte.
\<close>

definition match_one :: "bool \<Rightarrow> buf \<Rightarrow> nat \<Rightarrow> int \<Rightarrow> byte \<Rightarrow> (nat \<times> int \<times> bool) option" where
  "match_one nocase pm i plen c = do {
     p0 \<leftarrow> nth_opt pm i;
     if p0 = 63 then Some (i, plen, True)
     else if p0 = 91 then do {
       p1 \<leftarrow> nth_opt pm (i + 1);
       (i, plen, match) \<leftarrow> (if p1 = 94 then class_loop nocase pm (i + 2) (plen - 2) c False
         else class_loop nocase pm (i + 1) (plen - 1) c False);
       Some (i, plen, if p1 = 94 then \<not> match else match) }
     else do {
       (i, plen) \<leftarrow> Some (if p0 = 92 \<and> plen \<ge> 2 then (i + 1, plen - 1) else (i, plen));
       p \<leftarrow> nth_opt pm i;
       Some (i, plen, char_eq nocase p c) } }"

text \<open>\<open>while (stringLen) { if (stringmatchlen(...)) return 1; string++; stringLen--; } return 0;\<close>\<close>

fun star_tries :: "(nat \<Rightarrow> nat \<Rightarrow> bool option) \<Rightarrow> nat \<Rightarrow> nat \<Rightarrow> bool option" where
  "star_tries f j 0 = Some False"
| "star_tries f j (Suc slen) = do {
     r \<leftarrow> f j (Suc slen);
     if r then Some True else star_tries f (j + 1) slen }"

lemma star_tries_cong [fundef_cong]:
  "j = j' \<Longrightarrow> n = n' \<Longrightarrow> (\<And>i m. f i m = g i m) \<Longrightarrow> star_tries f j n = star_tries g j' n'"
proof (induction n arbitrary: j j' n')
  case (Suc n)
  have "star_tries f (j + 1) n = star_tries g (j + 1) n" using Suc.IH Suc.prems(3) by blast
  then show ?case using Suc.prems by auto
qed simp

lemma star_skip_ge: "star_skip pm i plen = Some (i', plen') \<Longrightarrow> i \<le> i' \<and> i' < length pm"
proof (induction pm i plen rule: star_skip.induct)
  case (1 pm i plen)
  then show ?case by (subst (asm) (2) star_skip.simps) (auto split: if_splits)
qed

lemma class_loop_ge:
  "class_loop nocase pm i plen c m = Some (i', plen', m') \<Longrightarrow> i \<le> i' + 1 \<and> i' < length pm"
proof (induction nocase pm i plen c m rule: class_loop.induct)
  case (1 nocase pm i plen c m)
  have "i < length pm" using "1.prems" by (subst (asm) class_loop.simps) (auto split: if_splits)
  then show ?case
    using "1.prems" "1.IH"(1) [OF _ refl] "1.IH"(2) [OF _ refl] "1.IH"(3) [OF _ refl]
    by (subst (asm) (1) class_loop.simps) (fastforce simp: Let_def split: if_splits option.splits)
qed

lemma match_one_ge: "match_one nocase pm i plen c = Some (i', plen', m) \<Longrightarrow> i \<le> i' \<and> i < length pm"
  by (auto simp: match_one_def nth_opt_def split: if_splits bind_splits dest!: class_loop_ge)

function stringmatch_loop :: "bool \<Rightarrow> buf \<Rightarrow> nat \<Rightarrow> int \<Rightarrow> buf \<Rightarrow> nat \<Rightarrow> nat \<Rightarrow> bool option" where
  "stringmatch_loop nocase pm i plen sm j slen =
     (if plen = 0 \<or> slen = 0 then Some (plen = 0 \<and> slen = 0)
      else if \<not> i < length pm then None
      else if pm ! i = 42 then
        (case star_skip pm i plen of None \<Rightarrow> None
         | Some (i', plen') \<Rightarrow>
             if plen' = 1 then Some True
             else star_tries (\<lambda>j slen. stringmatch_loop nocase pm (i' + 1) (plen' - 1) sm j slen) j slen)
      else
        (case nth_opt sm j of None \<Rightarrow> None
         | Some c \<Rightarrow>
             (case match_one nocase pm i plen c of None \<Rightarrow> None
              | Some (i', plen', match) \<Rightarrow>
                  if \<not> match then Some False
                  else if slen - 1 = 0 then
                    (case trailing_stars pm (i' + 1) (plen' - 1) of None \<Rightarrow> None
                     | Some (i'', plen'') \<Rightarrow> Some (plen'' = 0))
                  else stringmatch_loop nocase pm (i' + 1) (plen' - 1) sm (j + 1) (slen - 1))))"
  by pat_completeness auto
termination
  by (relation "measure (\<lambda>(nocase, pm, i, plen, sm, j, slen). length pm - i)")
    (auto dest!: star_skip_ge match_one_ge)

declare stringmatch_loop.simps [simp del]

definition stringmatchlen :: "buf \<Rightarrow> nat \<Rightarrow> buf \<Rightarrow> nat \<Rightarrow> bool \<Rightarrow> bool option" where
  "stringmatchlen pattern patternLen string stringLen nocase =
     stringmatch_loop nocase pattern 0 (int patternLen) string 0 stringLen"

text \<open>C strings are memory up to and with the first zero byte.\<close>

definition stringmatch :: "buf \<Rightarrow> buf \<Rightarrow> bool \<Rightarrow> bool option" where
  "stringmatch pattern string nocase =
     stringmatchlen pattern (length (takeWhile (\<lambda>c. c \<noteq> 0) pattern)) string (length (takeWhile (\<lambda>c. c \<noteq> 0) string)) nocase"

section \<open>The matching relation\<close>

datatype class_item = CExact byte | CChar byte | CRange byte byte

datatype glob_item = GStar | GAny | GClass bool "class_item list" | GChar byte

text \<open>The members of a class, up to the closing bracket or the end of the pattern, and what follows it.\<close>

fun parse_class :: "buf \<Rightarrow> class_item list \<times> buf" where
  "parse_class [] = ([], [])"
| "parse_class (p0 # ps) =
     (if p0 = 92 \<and> ps \<noteq> [] then (let (cs, r) = parse_class (tl ps) in (CExact (hd ps) # cs, r))
      else if p0 = 93 then ([], ps)
      else if ps \<noteq> [] \<and> hd ps = 45 \<and> tl ps \<noteq> []
      then (let (cs, r) = parse_class (tl (tl ps)) in (CRange p0 (hd (tl ps)) # cs, r))
      else (let (cs, r) = parse_class ps in (CChar p0 # cs, r)))"

lemma parse_class_length: "length (snd (parse_class ps)) \<le> length ps"
  by (induction ps rule: parse_class.induct) (auto simp: case_prod_beta)

function parse_glob :: "buf \<Rightarrow> glob_item list" where
  "parse_glob [] = []"
| "parse_glob (p0 # ps) =
     (if p0 = 42 then GStar # parse_glob ps
      else if p0 = 63 then GAny # parse_glob ps
      else if p0 = 91 then
        (let neg = (ps \<noteq> [] \<and> hd ps = 94);
             (cs, r) = parse_class (if neg then tl ps else ps)
         in GClass neg cs # parse_glob r)
      else if p0 = 92 \<and> ps \<noteq> [] then GChar (hd ps) # parse_glob (tl ps)
      else GChar p0 # parse_glob ps)"
  by pat_completeness auto
termination
proof (relation "measure length", simp_all)
  fix p0 :: byte and ps and x and cs r
  assume "(cs, r) = parse_class (if ps \<noteq> [] \<and> hd ps = 94 then tl ps else ps)"
  then show "length r < Suc (length ps)"
    using parse_class_length [of "if ps \<noteq> [] \<and> hd ps = 94 then tl ps else ps"]
    by (auto split: if_splits dest!: arg_cong [of _ _ snd])
qed

fun class_item_match :: "bool \<Rightarrow> class_item \<Rightarrow> byte \<Rightarrow> bool" where
  "class_item_match nocase (CExact a) c = (a = c)"
| "class_item_match nocase (CChar a) c = char_eq nocase a c"
| "class_item_match nocase (CRange a b) c = range_match nocase a b c"

definition item_match :: "bool \<Rightarrow> glob_item \<Rightarrow> byte \<Rightarrow> bool" where
  "item_match nocase g c = (case g of
      GStar \<Rightarrow> False | GAny \<Rightarrow> True | GChar a \<Rightarrow> char_eq nocase a c
    | GClass neg cs \<Rightarrow> (list_ex (\<lambda>m. class_item_match nocase m c) cs) \<noteq> neg)"

inductive glob :: "bool \<Rightarrow> glob_item list \<Rightarrow> buf \<Rightarrow> bool" for nocase where
  glob_Nil: "glob nocase [] []"
| glob_star_end: "glob nocase gs s \<Longrightarrow> glob nocase (GStar # gs) s"
| glob_star_more: "glob nocase (GStar # gs) s \<Longrightarrow> glob nocase (GStar # gs) (c # s)"
| glob_item: "g \<noteq> GStar \<Longrightarrow> item_match nocase g c \<Longrightarrow> glob nocase gs s \<Longrightarrow> glob nocase (g # gs) (c # s)"

inductive_cases glob_NilE: "glob nocase [] s"
inductive_cases glob_emptyE: "glob nocase (g # gs) []"
inductive_cases glob_starE: "glob nocase (GStar # gs) s"

inductive_simps glob_Nil_simp [simp]: "glob nocase [] s"
inductive_simps glob_empty_simp: "glob nocase (g # gs) []"
inductive_simps glob_Cons_simp: "glob nocase (g # gs) (c # s)"

section \<open>The parts of the matcher\<close>

text \<open>Memory is a pattern \<open>pat\<close> between what precedes it and its terminator.\<close>

lemma star_skip_correct:
  "star_skip (pre @ 42 # rest @ 0 # post) (length pre) plen =
    Some (length pre + length (takeWhile (\<lambda>a. a = 42) rest), plen - int (length (takeWhile (\<lambda>a. a = 42) rest)))"
proof (induction rest arbitrary: pre plen)
  case Nil
  then show ?case by (subst star_skip.simps) (simp add: nth_append)
next
  case (Cons a rest)
  show ?case
  proof (cases "a = 42")
    case True
    then show ?thesis
      using Cons [of "pre @ [42]" "plen - 1"] by (subst star_skip.simps) (simp add: nth_append)
  next
    case False
    then show ?thesis by (subst star_skip.simps) (simp add: nth_append)
  qed
qed

lemma trailing_stars_correct:
  "trailing_stars (pre @ rest @ 0 # post) (length pre) (int (length rest)) =
    Some (length pre + length (takeWhile (\<lambda>a. a = 42) rest), int (length (dropWhile (\<lambda>a. a = 42) rest)))"
proof (induction rest arbitrary: pre)
  case Nil
  then show ?case by (subst trailing_stars.simps) (simp add: nth_append)
next
  case (Cons a rest)
  show ?case
  proof (cases "a = 42")
    case True
    then show ?thesis
      using Cons [of "pre @ [42]"] by (subst trailing_stars.simps) (simp add: nth_append)
  next
    case False
    then show ?thesis by (subst trailing_stars.simps) (simp add: nth_append)
  qed
qed

lemma parse_class_suffix: "\<exists>q. ps = q @ snd (parse_class ps)"
proof (induction ps rule: parse_class.induct)
  case (2 p0 ps)
  show ?case
  proof (cases "p0 = 92 \<and> ps \<noteq> []")
    case True
    then obtain q where "tl ps = q @ snd (parse_class (tl ps))" using 2 by auto
    then have "p0 # ps = (p0 # hd ps # q) @ snd (parse_class (tl ps))" using True by (metis append_Cons hd_Cons_tl)
    moreover have "snd (parse_class (p0 # ps)) = snd (parse_class (tl ps))" using True by (simp add: case_prod_beta)
    ultimately show ?thesis by metis
  next
    case esc: False
    show ?thesis
    proof (cases "ps \<noteq> [] \<and> hd ps = 45 \<and> tl ps \<noteq> [] \<and> p0 \<noteq> 93")
      case True
      then obtain q where "tl (tl ps) = q @ snd (parse_class (tl (tl ps)))" using "2.IH"(2) esc by blast
      then have "p0 # ps = (p0 # hd ps # hd (tl ps) # q) @ snd (parse_class (tl (tl ps)))"
        using True by (metis append_Cons hd_Cons_tl)
      moreover have "snd (parse_class (p0 # ps)) = snd (parse_class (tl (tl ps)))" using True esc by (simp add: case_prod_beta)
      ultimately show ?thesis by metis
    next
      case False
      show ?thesis
      proof (cases "p0 = 93")
        case True
        then show ?thesis by (intro exI [of _ "[p0]"]) simp
      next
        case np: False
        then obtain q where "ps = q @ snd (parse_class ps)" using "2.IH"(3) esc False by blast
        then have "p0 # ps = (p0 # q) @ snd (parse_class ps)" by simp
        moreover have "snd (parse_class (p0 # ps)) = snd (parse_class ps)" using esc False np by (auto simp: case_prod_beta)
        ultimately show ?thesis by metis
      qed
    qed
  qed
qed simp

abbreviation class_match :: "bool \<Rightarrow> class_item list \<Rightarrow> byte \<Rightarrow> bool" where
  "class_match nocase cs c \<equiv> list_ex (\<lambda>m. class_item_match nocase m c) cs"

lemma class_loop_correct:
  assumes "pre \<noteq> []"
  shows "class_loop nocase (pre @ ps @ 0 # post) (length pre) (int (length ps)) c m =
    Some (length pre + length ps - length (snd (parse_class ps)) - 1, int (length (snd (parse_class ps))) + 1,
      m \<or> class_match nocase (fst (parse_class ps)) c)"
  using assms
proof (induction ps arbitrary: pre m rule: parse_class.induct)
  case 1
  then show ?case by (subst class_loop.simps) (simp add: nth_append Let_def)
next
  case (2 p0 ps)
  have nth0: "(pre @ (p0 # ps) @ 0 # post) ! length pre = p0" by (simp add: nth_append)
  have nth1: "nth_opt (pre @ (p0 # ps) @ 0 # post) (length pre + 1) = Some (if ps = [] then 0 else hd ps)"
    by (cases ps) (simp_all add: nth_opt_def nth_append)
  show ?case
  proof (cases "p0 = 92 \<and> ps \<noteq> []")
    case True
    then obtain p1 qs where ps: "ps = p1 # qs" by (cases ps) auto
    have len: "length (snd (parse_class qs)) \<le> length qs" by (rule parse_class_length)
    have "class_loop nocase (pre @ (p0 # ps) @ 0 # post) (length pre) (int (length (p0 # ps))) c m =
        class_loop nocase ((pre @ [p0, p1]) @ qs @ 0 # post) (length (pre @ [p0, p1])) (int (length qs)) c (m \<or> p1 = c)"
      using True nth0 nth1 ps by (subst class_loop.simps) (simp add: Let_def)
    also have "\<dots> = Some (length (pre @ [p0, p1]) + length qs - length (snd (parse_class qs)) - 1, int (length (snd (parse_class qs))) + 1,
        (m \<or> p1 = c) \<or> class_match nocase (fst (parse_class qs)) c)"
      using "2.IH"(1) [OF True, of "pre @ [p0, p1]" "m \<or> p1 = c"] ps by simp
    finally show ?thesis using True ps len by (simp add: case_prod_beta)
  next
    case esc: False
    then have nesc: "\<not> (p0 = 92 \<and> 2 \<le> int (length (p0 # ps)))" by (cases ps) auto
    show ?thesis
    proof (cases "p0 = 93")
      case True
      then show ?thesis using nth0 by (subst class_loop.simps) (simp add: Let_def)
    next
      case np: False
      show ?thesis
      proof (cases "ps \<noteq> [] \<and> hd ps = 45 \<and> tl ps \<noteq> []")
        case True
        then obtain p2 qs where ps: "ps = 45 # p2 # qs" by (cases ps; cases "tl ps") auto
        have nth2: "nth_opt (pre @ (p0 # ps) @ 0 # post) (length pre + 2) = Some p2"
          using ps by (simp add: nth_opt_def nth_append)
        have len: "length (snd (parse_class qs)) \<le> length qs" by (rule parse_class_length)
        have "class_loop nocase (pre @ (p0 # ps) @ 0 # post) (length pre) (int (length (p0 # ps))) c m =
            class_loop nocase ((pre @ [p0, 45, p2]) @ qs @ 0 # post) (length (pre @ [p0, 45, p2])) (int (length qs)) c (m \<or> range_match nocase p0 p2 c)"
          using True nth0 nth1 nth2 nesc np ps by (subst class_loop.simps) (simp add: Let_def numeral_3_eq_3)
        also have "\<dots> = Some (length (pre @ [p0, 45, p2]) + length qs - length (snd (parse_class qs)) - 1, int (length (snd (parse_class qs))) + 1,
            (m \<or> range_match nocase p0 p2 c) \<or> class_match nocase (fst (parse_class qs)) c)"
          using "2.IH"(2) [OF esc np True, of "pre @ [p0, 45, p2]" "m \<or> range_match nocase p0 p2 c"] ps by simp
        finally show ?thesis using esc np ps len by (simp add: case_prod_beta)
      next
        case False
        have len: "length (snd (parse_class ps)) \<le> length ps" by (rule parse_class_length)
        have nrange: "\<not> ((if ps = [] then 0 else hd ps) = 45 \<and> 3 \<le> int (length (p0 # ps)))"
          using False by (cases ps; cases "tl ps") auto
        have "class_loop nocase (pre @ (p0 # ps) @ 0 # post) (length pre) (int (length (p0 # ps))) c m =
            class_loop nocase ((pre @ [p0]) @ ps @ 0 # post) (length (pre @ [p0])) (int (length ps)) c (m \<or> char_eq nocase p0 c)"
          using nth0 nth1 nesc np nrange by (subst class_loop.simps) (auto simp: Let_def)
        also have "\<dots> = Some (length (pre @ [p0]) + length ps - length (snd (parse_class ps)) - 1, int (length (snd (parse_class ps))) + 1,
            (m \<or> char_eq nocase p0 c) \<or> class_match nocase (fst (parse_class ps)) c)"
          by (rule "2.IH"(3) [OF esc np False]) simp
        moreover have "parse_class (p0 # ps) = (CChar p0 # fst (parse_class ps), snd (parse_class ps))"
          using esc np False by (auto simp: case_prod_beta)
        ultimately show ?thesis using len by (simp del: parse_class.simps)
      qed
    qed
  qed
qed

lemma nth_opt_mid: "nth_opt (pre @ x # xs) (length pre) = Some x"
  by (simp add: nth_opt_def)

text \<open>One element of the pattern: what it stands for and where it ends.\<close>

lemma match_one_correct:
  assumes "p0 \<noteq> 42"
  shows "\<exists>g q r. p0 # ps = q @ r \<and> q \<noteq> [] \<and> parse_glob (p0 # ps) = g # parse_glob r \<and> g \<noteq> GStar \<and>
    match_one nocase (pre @ (p0 # ps) @ 0 # post) (length pre) (int (length (p0 # ps))) c =
      Some (length pre + length q - 1, int (length r) + 1, item_match nocase g c)"
proof -
  have nth0: "nth_opt (pre @ (p0 # ps) @ 0 # post) (length pre) = Some p0" by (simp add: nth_opt_def)
  have nth1: "nth_opt (pre @ (p0 # ps) @ 0 # post) (length pre + 1) = Some (if ps = [] then 0 else hd ps)"
    by (cases ps) (simp_all add: nth_opt_def nth_append)
  consider "p0 = 63" | "p0 = 91" | "p0 = 92" "ps \<noteq> []" | "p0 \<notin> {63, 91}" "p0 \<noteq> 92 \<or> ps = []" by blast
  then show ?thesis
  proof cases
    case 1
    then show ?thesis using nth0
      by (intro exI [of _ GAny] exI [of _ "[p0]"] exI [of _ ps]) (simp add: match_one_def item_match_def)
  next
    case 2
    define neg where "neg \<longleftrightarrow> ps \<noteq> [] \<and> hd ps = 94"
    define ps' where "ps' = (if neg then tl ps else ps)"
    define pre' where "pre' = pre @ (if neg then [p0, 94] else [p0])"
    obtain cs r where cr: "parse_class ps' = (cs, r)" by fastforce
    obtain q where q: "ps' = q @ r" using parse_class_suffix [of ps'] cr by auto
    have mem: "pre @ (p0 # ps) @ 0 # post = pre' @ ps' @ 0 # post"
      by (cases ps) (auto simp: pre'_def ps'_def neg_def)
    have pq: "p0 # ps = (if neg then [p0, 94] else [p0]) @ q @ r"
      unfolding q [symmetric] by (cases ps) (auto simp: ps'_def neg_def)
    have cl: "class_loop nocase (pre @ (p0 # ps) @ 0 # post) (length pre') (int (length ps')) c False =
        Some (length pre' + length q - 1, int (length r) + 1, class_match nocase cs c)"
      unfolding mem using class_loop_correct [of pre' nocase ps' post c False] cr q by (simp add: pre'_def)
    have "match_one nocase (pre @ (p0 # ps) @ 0 # post) (length pre) (int (length (p0 # ps))) c =
        Some (length pre' + length q - 1, int (length r) + 1, class_match nocase cs c \<noteq> neg)"
    proof (cases neg)
      case True
      then obtain ps2 where ps2: "ps = 94 # ps2" by (cases ps) (auto simp: neg_def)
      then show ?thesis using True cl nth0 nth1 2
        by (simp add: match_one_def pre'_def ps'_def)
    next
      case False
      then have "(if ps = [] then 0 else hd ps) \<noteq> 94" by (auto simp: neg_def)
      then show ?thesis using False cl nth0 nth1 2
        by (simp add: match_one_def pre'_def ps'_def)
    qed
    moreover have "parse_glob (p0 # ps) = GClass neg cs # parse_glob r"
      using 2 cr by (simp add: neg_def [symmetric] ps'_def [symmetric] Let_def)
    ultimately show ?thesis using pq
      by (intro exI [of _ "GClass neg cs"] exI [of _ "(if neg then [p0, 94] else [p0]) @ q"] exI [of _ r])
        (simp add: item_match_def pre'_def)
  next
    case 3
    then obtain p1 qs where ps: "ps = p1 # qs" by (cases ps) auto
    have "match_one nocase (pre @ (p0 # ps) @ 0 # post) (length pre) (int (length (p0 # ps))) c =
        Some (length pre + 1, int (length ps), char_eq nocase p1 c)"
      using 3 nth0 nth1 ps by (simp add: match_one_def)
    then show ?thesis using 3 ps
      by (intro exI [of _ "GChar p1"] exI [of _ "[p0, p1]"] exI [of _ qs]) (simp add: item_match_def)
  next
    case 4
    then have "match_one nocase (pre @ (p0 # ps) @ 0 # post) (length pre) (int (length (p0 # ps))) c =
        Some (length pre, int (length ps) + 1, char_eq nocase p0 c)"
      using nth0 by (cases ps) (auto simp: match_one_def)
    then show ?thesis using 4 assms
      by (intro exI [of _ "GChar p0"] exI [of _ "[p0]"] exI [of _ ps]) (auto simp: item_match_def)
  qed
qed

section \<open>Correctness of the matcher\<close>

lemma glob_star_iff: "glob nocase (GStar # gs) s \<longleftrightarrow> (\<exists>k \<le> length s. glob nocase gs (drop k s))"
proof
  assume "glob nocase (GStar # gs) s"
  then show "\<exists>k \<le> length s. glob nocase gs (drop k s)"
  proof (induction "GStar # gs" s rule: glob.induct)
    case (glob_star_end s)
    then show ?case by (intro exI [of _ 0]) simp
  next
    case (glob_star_more s c)
    then obtain k where "k \<le> length s" "glob nocase gs (drop k s)" by blast
    then show ?case by (intro exI [of _ "Suc k"]) simp
  qed simp_all
next
  assume "\<exists>k \<le> length s. glob nocase gs (drop k s)"
  then obtain k where "k \<le> length s" "glob nocase gs (drop k s)" by blast
  then show "glob nocase (GStar # gs) s"
  proof (induction k arbitrary: s)
    case 0
    then show ?case by (simp add: glob_star_end)
  next
    case (Suc k)
    then obtain c t where "s = c # t" by (cases s) auto
    then show ?case using Suc by (auto intro: glob_star_more)
  qed
qed

lemma glob_star_star: "glob nocase (GStar # GStar # gs) s \<longleftrightarrow> glob nocase (GStar # gs) s"
proof
  assume "glob nocase (GStar # GStar # gs) s"
  then obtain k where k: "k \<le> length s" "glob nocase (GStar # gs) (drop k s)" by (auto simp: glob_star_iff [of _ "GStar # gs"])
  then obtain j where "j \<le> length s - k" "glob nocase gs (drop j (drop k s))" by (auto simp: glob_star_iff)
  then show "glob nocase (GStar # gs) s"
    using k unfolding glob_star_iff by (intro exI [of _ "j + k"]) auto
qed (rule glob_star_end)

lemma glob_nonstar: "g \<noteq> GStar \<Longrightarrow> glob nocase (g # gs) s \<longleftrightarrow> s \<noteq> [] \<and> item_match nocase g (hd s) \<and> glob nocase gs (tl s)"
  by (cases s) (simp_all add: glob_empty_simp glob_Cons_simp)

text \<open>Several stars in a row are one.\<close>

lemma parse_stars:
  "glob nocase (parse_glob (42 # rest)) s \<longleftrightarrow>
    glob nocase (GStar # parse_glob (dropWhile (\<lambda>a. a = 42) rest)) s"
proof (induction rest arbitrary: s)
  case (Cons a rest)
  then show ?case by (cases "a = 42") (simp_all add: glob_star_star)
qed simp

text \<open>On the empty string only stars match.\<close>

lemma parse_nonstar_empty: "p0 \<noteq> 42 \<Longrightarrow> \<not> glob nocase (parse_glob (p0 # ps)) []"
proof -
  assume "p0 \<noteq> 42"
  then obtain g r where "parse_glob (p0 # ps) = g # parse_glob r" "g \<noteq> GStar"
    using match_one_correct [of p0 ps] by blast
  then show ?thesis by (simp add: glob_nonstar)
qed

lemma glob_empty: "glob nocase (parse_glob rest) [] \<longleftrightarrow> dropWhile (\<lambda>a. a = 42) rest = []"
proof (induction rest)
  case (Cons a rest)
  show ?case
  proof (cases "a = 42")
    case True
    then show ?thesis using Cons by (auto simp: glob_star_iff)
  next
    case False
    then show ?thesis using parse_nonstar_empty [of a nocase rest] by (simp del: parse_glob.simps)
  qed
qed simp

text \<open>The tries behind a star: some nonempty rest of the string matches.\<close>

lemma star_tries_correct:
  assumes "\<And>k. k < slen \<Longrightarrow> f (j + k) (slen - k) = Some (P k)"
  shows "star_tries f j slen = Some (\<exists>k < slen. P k)"
  using assms
proof (induction slen arbitrary: j P)
  case (Suc slen)
  have h: "f j (Suc slen) = Some (P 0)" using Suc.prems [of 0] by simp
  have "f (j + 1 + k) (slen - k) = Some (P (Suc k))" if "k < slen" for k
    using Suc.prems [of "Suc k"] that by simp
  from Suc.IH [OF this] have "star_tries f (j + 1) slen = Some (\<exists>k < slen. P (Suc k))" .
  moreover have "(\<exists>k < Suc slen. P k) \<longleftrightarrow> P 0 \<or> (\<exists>k < slen. P (Suc k))"
    by (metis Ex_less_Suc2)
  ultimately show ?case using h by simp
qed simp

definition str_ok :: "buf \<Rightarrow> buf \<Rightarrow> bool \<Rightarrow> bool" where
  "str_ok pat str r \<longleftrightarrow> r \<and> (str = [] \<longrightarrow> pat = [])"

text \<open>A star: stars after it are skipped, and then every nonempty rest of the string is tried.\<close>

lemma stringmatch_star:
  assumes IH: "\<And>pat' pre' spre' str'. length pat' < length (42 # rest) \<Longrightarrow>
      stringmatch_loop nocase (pre' @ pat' @ 0 # post) (length pre') (int (length pat')) (spre' @ str' @ spost) (length spre') (length str') =
      Some (str_ok pat' str' (glob nocase (parse_glob pat') str'))"
    and str: "str \<noteq> []"
  shows "stringmatch_loop nocase (pre @ (42 # rest) @ 0 # post) (length pre) (int (length (42 # rest))) (spre @ str @ spost) (length spre) (length str) =
    Some (glob nocase (parse_glob (42 # rest)) str)"
proof -
  define k where "k = length (takeWhile (\<lambda>a. a = 42) rest)"
  define rest' where "rest' = dropWhile (\<lambda>a. a = 42) rest"
  have rest: "rest = takeWhile (\<lambda>a. a = 42) rest @ rest'" by (simp add: rest'_def)
  have len: "length rest = k + length rest'" using arg_cong [OF rest, of length] by (simp add: k_def)
  have sk: "star_skip (pre @ (42 # rest) @ 0 # post) (length pre) (int (length (42 # rest))) = Some (length pre + k, int (length rest') + 1)"
    using star_skip_correct [of pre rest post "int (length (42 # rest))"] len by (simp add: k_def)
  show ?thesis
  proof (cases "rest' = []")
    case True
    then have "glob nocase (parse_glob (42 # rest)) str"
      unfolding parse_stars rest'_def [symmetric] by (auto simp: glob_star_iff)
    moreover have "stringmatch_loop nocase (pre @ (42 # rest) @ 0 # post) (length pre) (int (length (42 # rest))) (spre @ str @ spost) (length spre) (length str) = Some True"
      using sk True str by (subst stringmatch_loop.simps) (simp add: nth_append)
    ultimately show ?thesis by simp
  next
    case False
    define pre' where "pre' = pre @ 42 # takeWhile (\<lambda>a. a = 42) rest"
    have mem: "pre @ (42 # rest) @ 0 # post = pre' @ rest' @ 0 # post"
      by (subst rest) (simp add: pre'_def)
    have lp: "length pre' = length pre + k + 1" by (simp add: pre'_def k_def)
    let ?f = "\<lambda>j slen. stringmatch_loop nocase (pre @ (42 # rest) @ 0 # post) (length pre + k + 1) (int (length rest')) (spre @ str @ spost) j slen"
    have f: "?f (length spre + i) (length str - i) = Some (glob nocase (parse_glob rest') (drop i str))" if "i < length str" for i
    proof -
      have m2: "(spre @ take i str) @ drop i str @ spost = spre @ str @ spost" by (metis append.assoc append_take_drop_id)
      have "length (spre @ take i str) = length spre + i" using that by simp
      moreover have "drop i str \<noteq> []" using that by simp
      ultimately show ?thesis
        using IH [of rest' pre' "spre @ take i str" "drop i str", unfolded m2] len unfolding mem lp [symmetric] by (simp add: str_ok_def)
    qed
    have "stringmatch_loop nocase (pre @ (42 # rest) @ 0 # post) (length pre) (int (length (42 # rest))) (spre @ str @ spost) (length spre) (length str) =
        star_tries ?f (length spre) (length str)"
      using sk False str by (subst stringmatch_loop.simps) (simp add: nth_append)
    also have "\<dots> = Some (\<exists>i < length str. glob nocase (parse_glob rest') (drop i str))"
      by (rule star_tries_correct) (rule f)
    also have "(\<exists>i < length str. glob nocase (parse_glob rest') (drop i str)) \<longleftrightarrow> glob nocase (GStar # parse_glob rest') str"
    proof -
      obtain p0 ps where "rest' = p0 # ps" using False by (cases rest') auto
      moreover have "p0 \<noteq> 42" using calculation hd_dropWhile [of "\<lambda>a. a = 42" rest] by (auto simp: rest'_def)
      ultimately have "\<not> glob nocase (parse_glob rest') []" using parse_nonstar_empty by simp
      then show ?thesis unfolding glob_star_iff by (metis drop_all le_neq_implies_less less_imp_le order_refl)
    qed
    finally show ?thesis unfolding parse_stars rest'_def [symmetric] .
  qed
qed

lemma stringmatch_loop_correct:
  "stringmatch_loop nocase (pre @ pat @ 0 # post) (length pre) (int (length pat)) (spre @ str @ spost) (length spre) (length str) =
    Some (str_ok pat str (glob nocase (parse_glob pat) str))"
proof (induction "length pat" arbitrary: pat pre spre str rule: less_induct)
  case less
  show ?case
  proof (cases "pat = [] \<or> str = []")
    case True
    then show ?thesis by (subst stringmatch_loop.simps) (auto simp: str_ok_def)
  next
    case False
    then obtain p0 ps c t where pat: "pat = p0 # ps" and str: "str = c # t" by (meson neq_Nil_conv)
    show ?thesis
    proof (cases "p0 = 42")
      case True
      have "stringmatch_loop nocase (pre @ (42 # ps) @ 0 # post) (length pre) (int (length (42 # ps))) (spre @ str @ spost) (length spre) (length str) =
          Some (glob nocase (parse_glob (42 # ps)) str)"
        using less pat True False by (intro stringmatch_star) auto
      then show ?thesis using True pat str by (simp add: str_ok_def)
    next
      case ns: False
      obtain g q r where g: "pat = q @ r" "q \<noteq> []" "parse_glob pat = g # parse_glob r" "g \<noteq> GStar"
        "match_one nocase (pre @ pat @ 0 # post) (length pre) (int (length pat)) c =
          Some (length pre + length q - 1, int (length r) + 1, item_match nocase g c)"
        using match_one_correct [OF ns, of ps nocase pre post c] unfolding pat by blast
      have mem: "pre @ pat @ 0 # post = (pre @ q) @ r @ 0 # post" by (simp add: g(1))
      have p0: "(pre @ pat @ 0 # post) ! length pre \<noteq> 42" using ns pat by (simp add: nth_append)
      have c: "nth_opt (spre @ str @ spost) (length spre) = Some c" using str by (simp add: nth_opt_def)
      have i': "length pre + length q - 1 + 1 = length (pre @ q)" using g(2) by (cases q) auto
      have step: "stringmatch_loop nocase (pre @ pat @ 0 # post) (length pre) (int (length pat)) (spre @ str @ spost) (length spre) (length str) =
          (if \<not> item_match nocase g c then Some False
           else if t = [] then
             (case trailing_stars (pre @ pat @ 0 # post) (length (pre @ q)) (int (length r)) of None \<Rightarrow> None
              | Some (i'', plen'') \<Rightarrow> Some (plen'' = 0))
           else stringmatch_loop nocase (pre @ pat @ 0 # post) (length (pre @ q)) (int (length r)) (spre @ str @ spost) (length spre + 1) (length t))"
        unfolding i' [symmetric] using False p0 c g(5) str pat
        by (subst stringmatch_loop.simps) simp
      have "glob nocase (parse_glob pat) str \<longleftrightarrow> item_match nocase g c \<and> glob nocase (parse_glob r) t"
        unfolding g(3) using g(4) str by (simp add: glob_nonstar)
      moreover have "stringmatch_loop nocase (pre @ pat @ 0 # post) (length (pre @ q)) (int (length r)) (spre @ str @ spost) (length spre + 1) (length t) =
          Some (glob nocase (parse_glob r) t)" if "t \<noteq> []"
      proof -
        have "length r < length pat" using g(1,2) by (cases q) auto
        from less [OF this, of "pre @ q" "spre @ [c]" t] show ?thesis
          unfolding mem using that str by (simp add: str_ok_def)
      qed
      moreover have "trailing_stars (pre @ pat @ 0 # post) (length (pre @ q)) (int (length r)) =
          Some (length (pre @ q) + length (takeWhile (\<lambda>a. a = 42) r), int (length (dropWhile (\<lambda>a. a = 42) r)))"
        unfolding mem by (rule trailing_stars_correct)
      ultimately show ?thesis
        unfolding step using str by (simp add: str_ok_def glob_empty)
    qed
  qed
qed

section \<open>Properties\<close>

text \<open>
  C11: \<open>stringmatchlen\<close> returns for every pattern and string, never reads past the terminator of the
  pattern, and decides the matching relation of glob patterns (stars, any character, classes with
  ranges and negation, escapes, with or without case), except that on the empty
  string only the empty pattern matches.
\<close>

theorem stringmatchlen_glob:
  "stringmatchlen (pat @ 0 # post) (length pat) str (length str) nocase =
    Some (glob nocase (parse_glob pat) str \<and> (str = [] \<longrightarrow> pat = []))"
  using stringmatch_loop_correct [of nocase "[]" pat post "[]" str "[]"] by (simp add: stringmatchlen_def str_ok_def)

theorem stringmatchlen_glob_witness:
  "stringmatchlen [104, 91, 94, 101, 93, 42, 111, 0] 7 [72, 65, 108, 79] 4 True = Some True \<and>
   stringmatchlen [42, 0] 1 [] 0 False = Some False"
proof
  have "glob True (parse_glob [104, 91, 94, 101, 93, 42, 111]) [72, 65, 108, 79]"
    by (simp add: glob_star_iff glob_nonstar item_match_def char_eq_def tolower_int_def)
      (intro exI [of _ 1], simp add: glob_nonstar item_match_def char_eq_def tolower_int_def)
  then show "stringmatchlen [104, 91, 94, 101, 93, 42, 111, 0] 7 [72, 65, 108, 79] 4 True = Some True"
    using stringmatchlen_glob [of "[104, 91, 94, 101, 93, 42, 111]" "[]" "[72, 65, 108, 79]" True] by (simp add: numeral_eq_Suc)
  show "stringmatchlen [42, 0] 1 [] 0 False = Some False"
    using stringmatchlen_glob [of "[42]" "[]" "[]" False] by simp
qed

end
