(* ===== verification/Lzf.thy ===== *)
theory Lzf
  imports Redis_Prelude
begin

text \<open>
  \<^verbatim>\<open>lzf_c.c\<close> and \<^verbatim>\<open>lzf_d.c\<close>: the compression of strings in dump files and of list nodes, in
  the configuration of \<^verbatim>\<open>lzfP.h\<close> (\<open>HLOG\<close> 16, \<open>VERY_FAST\<close>, no \<open>INIT_HTAB\<close>, offsets in the hash table,
  \<open>CHECK_INPUT\<close>). Pointers are offsets from the start of their buffer. The hash table is not
  initialised: its contents are a parameter, and everything proved holds for all of them.
\<close>

section \<open>Compression\<close>

record lzf =
  lz_ip :: nat
  lz_op :: nat
  lz_lit :: nat
  lz_hval :: "32 word"
  lz_htab :: "nat \<Rightarrow> 32 word"
  lz_out :: buf

abbreviation (input) MAX_LIT :: nat where "MAX_LIT \<equiv> 32"
abbreviation (input) MAX_OFF :: "64 word" where "MAX_OFF \<equiv> 8192"
abbreviation (input) MAX_REF :: nat where "MAX_REF \<equiv> 264"

definition FRST :: "byte \<Rightarrow> byte \<Rightarrow> 32 word" where
  "FRST p0 p1 = push_bit 8 (ucast p0) OR ucast p1"

definition NEXT :: "32 word \<Rightarrow> byte \<Rightarrow> 32 word" where
  "NEXT v p2 = push_bit 8 v OR ucast p2"

definition IDX :: "32 word \<Rightarrow> nat" where
  "IDX h = unat ((drop_bit 8 h - h * 5) AND 0xffff)"

text \<open>\<open>op [- lit - 1] = lit - 1\<close>\<close>

definition stop_run :: "lzf \<Rightarrow> lzf option" where
  "stop_run s =
     (if lz_op s < lz_lit s + 1 then None
      else do {
        b \<leftarrow> upd_opt (lz_out s) (lz_op s - lz_lit s - 1) (of_nat (lz_lit s) - 1);
        Some (s\<lparr>lz_out := b\<rparr>) })"

text \<open>\<open>lit++; *op++ = *ip++;\<close> and the end of a run of 32 literals\<close>

definition put_literal :: "buf \<Rightarrow> lzf \<Rightarrow> lzf option" where
  "put_literal inp s = do {
     c \<leftarrow> nth_opt inp (lz_ip s);
     b \<leftarrow> upd_opt (lz_out s) (lz_op s) c;
     s \<leftarrow> Some (s\<lparr>lz_lit := lz_lit s + 1, lz_out := b, lz_op := lz_op s + 1, lz_ip := lz_ip s + 1\<rparr>);
     if lz_lit s = MAX_LIT
     then do { s \<leftarrow> stop_run s; Some (s\<lparr>lz_lit := 0, lz_op := lz_op s + 1\<rparr>) }
     else Some s }"

text \<open>The unrolled comparisons; the flag says that one of them failed.\<close>

fun lzf_unrolled :: "nat \<Rightarrow> buf \<Rightarrow> nat \<Rightarrow> nat \<Rightarrow> nat \<Rightarrow> (nat \<times> bool) option" where
  "lzf_unrolled 0 inp ref ip len = Some (len, False)"
| "lzf_unrolled (Suc n) inp ref ip len = do {
     len \<leftarrow> Some (len + 1);
     a \<leftarrow> nth_opt inp (ref + len);
     b \<leftarrow> nth_opt inp (ip + len);
     if a \<noteq> b then Some (len, True) else lzf_unrolled n inp ref ip len }"

text \<open>\<open>do len++; while (len < maxlen && ref[len] == ip[len]);\<close>\<close>

function lzf_extend :: "buf \<Rightarrow> nat \<Rightarrow> nat \<Rightarrow> nat \<Rightarrow> nat \<Rightarrow> nat option" where
  "lzf_extend inp ref ip len maxlen =
     (if len + 1 < maxlen then
        (case (nth_opt inp (ref + len + 1), nth_opt inp (ip + len + 1)) of
           (Some a, Some b) \<Rightarrow> if a = b then lzf_extend inp ref ip (len + 1) maxlen else Some (len + 1)
         | _ \<Rightarrow> None)
      else Some (len + 1))"
  by pat_completeness auto
termination
  by (relation "measure (\<lambda>(inp, ref, ip, len, maxlen). maxlen - len)") auto

declare lzf_extend.simps [simp del]

definition lzf_match_len :: "buf \<Rightarrow> nat \<Rightarrow> nat \<Rightarrow> nat \<Rightarrow> nat option" where
  "lzf_match_len inp ref ip maxlen = do {
     (len, broken) \<leftarrow> (if maxlen > 16 then lzf_unrolled 16 inp ref ip 2 else Some (2, False));
     if broken then Some len else lzf_extend inp ref ip len maxlen }"

text \<open>The condition of the match, with its short circuits.\<close>

definition lzf_is_match :: "buf \<Rightarrow> nat \<Rightarrow> nat \<Rightarrow> bool option" where
  "lzf_is_match inp ref ip =
     (if (of_nat ip - of_nat ref - 1 :: 64 word) < MAX_OFF \<and> ref > 0 then do {
        r2 \<leftarrow> nth_opt inp (ref + 2);
        i2 \<leftarrow> nth_opt inp (ip + 2);
        if r2 = i2 then do {
          r0 \<leftarrow> nth_opt inp ref;
          r1 \<leftarrow> nth_opt inp (ref + 1);
          i0 \<leftarrow> nth_opt inp ip;
          i1 \<leftarrow> nth_opt inp (ip + 1);
          Some (r0 = i0 \<and> r1 = i1) }
        else Some False }
      else Some False)"

text \<open>The two positions before the end of a match go into the hash table.\<close>

definition lzf_rehash :: "buf \<Rightarrow> lzf \<Rightarrow> lzf option" where
  "lzf_rehash inp s = do {
     ip \<leftarrow> Some (lz_ip s - 2);
     p0 \<leftarrow> nth_opt inp ip;
     p1 \<leftarrow> nth_opt inp (ip + 1);
     p2 \<leftarrow> nth_opt inp (ip + 2);
     hval \<leftarrow> Some (NEXT (FRST p0 p1) p2);
     htab \<leftarrow> Some ((lz_htab s)(IDX hval := of_nat ip));
     ip \<leftarrow> Some (ip + 1);
     p2 \<leftarrow> nth_opt inp (ip + 2);
     hval \<leftarrow> Some (NEXT hval p2);
     htab \<leftarrow> Some (htab(IDX hval := of_nat ip));
     Some (s\<lparr>lz_hval := hval, lz_htab := htab, lz_ip := ip + 1\<rparr>) }"

text \<open>The bytes of a back reference; \<open>len\<close> is two less than the number of octets.\<close>

definition put_ref :: "buf \<Rightarrow> nat \<Rightarrow> nat \<Rightarrow> nat \<Rightarrow> (buf \<times> nat) option" where
  "put_ref b op off len = do {
     (b, op) \<leftarrow>
       (if len < 7 then do {
          b \<leftarrow> upd_opt b op (of_nat (off div 256 + len * 32));
          Some (b, op + 1) }
        else do {
          b \<leftarrow> upd_opt b op (of_nat (off div 256 + 7 * 32));
          b \<leftarrow> upd_opt b (op + 1) (of_nat (len - 7));
          Some (b, op + 2) });
     b \<leftarrow> upd_opt b op (of_nat off);
     Some (b, op + 1) }"

text \<open>
  A back reference. \<open>Inl\<close> is the return of 0 because the output buffer is full.
\<close>

definition lzf_reference :: "buf \<Rightarrow> nat \<Rightarrow> nat \<Rightarrow> lzf \<Rightarrow> (lzf + lzf) option" where
  "lzf_reference inp out_len ref s =
     (let ip = lz_ip s; op = lz_op s; lit = lz_lit s;
          off = ip - ref - 1;
          maxlen = min (length inp - ip - 2) MAX_REF
      in if op + 3 + 1 \<ge> out_len \<and> op - (if lit = 0 then 1 else 0) + 3 + 1 \<ge> out_len then Some (Inl s)
         else do {
           s \<leftarrow> stop_run s;
           op \<leftarrow> Some (op - (if lit = 0 then 1 else 0));
           len \<leftarrow> lzf_match_len inp ref ip maxlen;
           len \<leftarrow> Some (len - 2);
           (b, op) \<leftarrow> put_ref (lz_out s) op off len;
           s \<leftarrow> Some (s\<lparr>lz_out := b, lz_op := op + 1, lz_lit := 0, lz_ip := ip + 1 + (len + 1)\<rparr>);
           if lz_ip s + 2 \<ge> length inp then Some (Inr s)
           else map_option Inr (lzf_rehash inp s) })"

text \<open>One iteration of \<open>while (ip < in_end - 2)\<close>.\<close>

definition lzf_step :: "buf \<Rightarrow> nat \<Rightarrow> lzf \<Rightarrow> (lzf + lzf) option" where
  "lzf_step inp out_len s = do {
     p2 \<leftarrow> nth_opt inp (lz_ip s + 2);
     hval \<leftarrow> Some (NEXT (lz_hval s) p2);
     ref \<leftarrow> Some (unat (lz_htab s (IDX hval)));
     s \<leftarrow> Some (s\<lparr>lz_hval := hval, lz_htab := (lz_htab s)(IDX hval := of_nat (lz_ip s))\<rparr>);
     m \<leftarrow> lzf_is_match inp ref (lz_ip s);
     if m then lzf_reference inp out_len ref s
     else if lz_op s \<ge> out_len then Some (Inl s)
     else map_option Inr (put_literal inp s) }"

lemma put_literal_ip: "put_literal inp s = Some s' \<Longrightarrow> lz_ip s' = lz_ip s + 1"
  by (auto simp: put_literal_def stop_run_def split: bind_splits if_splits)

lemma lzf_step_ip: "lzf_step inp out_len s = Some (Inr s') \<Longrightarrow> lz_ip s < lz_ip s'"
  by (auto simp: lzf_step_def lzf_reference_def lzf_rehash_def stop_run_def Let_def
      split: bind_splits if_splits dest: put_literal_ip)

function lzf_loop :: "buf \<Rightarrow> nat \<Rightarrow> lzf \<Rightarrow> (lzf + lzf) option" where
  "lzf_loop inp out_len s =
     (if lz_ip s + 2 < length inp then
        (case lzf_step inp out_len s of
           None \<Rightarrow> None
         | Some (Inl s') \<Rightarrow> Some (Inl s')
         | Some (Inr s') \<Rightarrow> lzf_loop inp out_len s')
      else Some (Inr s))"
  by pat_completeness auto
termination
  by (relation "measure (\<lambda>(inp, out_len, s). length inp - lz_ip s)") (auto dest: lzf_step_ip)

text \<open>\<open>while (ip < in_end)\<close>: the last bytes are literals.\<close>

function lzf_tail :: "buf \<Rightarrow> lzf \<Rightarrow> lzf option" where
  "lzf_tail inp s =
     (if lz_ip s < length inp then
        (case put_literal inp s of None \<Rightarrow> None | Some s' \<Rightarrow> lzf_tail inp s')
      else Some s)"
  by pat_completeness auto
termination
  by (relation "measure (\<lambda>(inp, s). length inp - lz_ip s)") (auto dest: put_literal_ip)

declare lzf_loop.simps [simp del] lzf_tail.simps [simp del]

text \<open>The result: the output buffer and the return value.\<close>

definition lzf_compress :: "(nat \<Rightarrow> 32 word) \<Rightarrow> buf \<Rightarrow> buf \<Rightarrow> nat \<Rightarrow> (buf \<times> nat) option" where
  "lzf_compress htab inp out out_len =
     (if length inp = 0 \<or> out_len = 0 then Some (out, 0)
      else do {
        p0 \<leftarrow> nth_opt inp 0;
        p1 \<leftarrow> nth_opt inp 1;
        r \<leftarrow> lzf_loop inp out_len \<lparr>lz_ip = 0, lz_op = 1, lz_lit = 0, lz_hval = FRST p0 p1, lz_htab = htab, lz_out = out\<rparr>;
        case r of Inl s \<Rightarrow> Some (lz_out s, 0)
        | Inr s \<Rightarrow>
            if lz_op s + 3 > out_len then Some (lz_out s, 0)
            else do {
              s \<leftarrow> lzf_tail inp s;
              s \<leftarrow> stop_run s;
              Some (lz_out s, lz_op s - (if lz_lit s = 0 then 1 else 0)) } })"

section \<open>Decompression\<close>

datatype lzf_error = E2BIG | EINVAL

text \<open>\<open>*op++ = *ref++\<close>, \<open>n\<close> times\<close>

fun copy_octets :: "nat \<Rightarrow> buf \<Rightarrow> nat \<Rightarrow> nat \<Rightarrow> buf option" where
  "copy_octets 0 out op ref = Some out"
| "copy_octets (Suc n) out op ref = do {
     c \<leftarrow> nth_opt out ref;
     out \<leftarrow> upd_opt out op c;
     copy_octets n out (op + 1) (ref + 1) }"

text \<open>The copy of \<open>len + 2\<close> octets: short ones octet by octet, long ones in a block when the areas are disjoint.\<close>

definition lzf_copy_ref :: "buf \<Rightarrow> nat \<Rightarrow> nat \<Rightarrow> nat \<Rightarrow> buf option" where
  "lzf_copy_ref out op ref len =
     (if len \<le> 9 then copy_octets (len + 2) out op ref
      else if op \<ge> ref + (len + 2) then do {
        b \<leftarrow> load_bytes out ref (len + 2);
        store_bytes out op b }
      else copy_octets (len + 2) out op ref)"

text \<open>
  The last part of a back reference: its second offset byte, the checks and the copy. The result is the new
  position, the buffer and the new end, or the error that is reported.
\<close>

definition lzf_dref :: "buf \<Rightarrow> nat \<Rightarrow> nat \<Rightarrow> buf \<Rightarrow> nat \<Rightarrow> nat \<Rightarrow> int \<Rightarrow> (lzf_error + nat \<times> buf \<times> nat) option" where
  "lzf_dref inp out_len ip out op len ref = do {
     lo \<leftarrow> nth_opt inp ip;
     ref \<leftarrow> Some (ref - int (unat lo));
     ip \<leftarrow> Some (ip + 1);
     if op + len + 2 > out_len then Some (Inl E2BIG)
     else if ref < 0 then Some (Inl EINVAL)
     else do {
       out \<leftarrow> lzf_copy_ref out op (nat ref) len;
       Some (Inr (ip, out, op + (len + 2))) } }"

text \<open>One iteration of the loop.\<close>

definition lzf_dstep :: "buf \<Rightarrow> nat \<Rightarrow> nat \<Rightarrow> buf \<Rightarrow> nat \<Rightarrow> (lzf_error + nat \<times> buf \<times> nat) option" where
  "lzf_dstep inp out_len ip out op = do {
     c \<leftarrow> nth_opt inp ip;
     ctrl \<leftarrow> Some (unat c);
     ip \<leftarrow> Some (ip + 1);
     if ctrl < 32 then
       (let ctrl = ctrl + 1 in
        if op + ctrl > out_len then Some (Inl E2BIG)
        else if ip + ctrl > length inp then Some (Inl EINVAL)
        else do {
          b \<leftarrow> load_bytes inp ip ctrl;
          out \<leftarrow> store_bytes out op b;
          Some (Inr (ip + ctrl, out, op + ctrl)) })
     else
       (let len = ctrl div 32;
            ref = int op - int (ctrl mod 32) * 256 - 1
        in if ip \<ge> length inp then Some (Inl EINVAL)
           else if len = 7 then do {
             e \<leftarrow> nth_opt inp ip;
             ip \<leftarrow> Some (ip + 1);
             if ip \<ge> length inp then Some (Inl EINVAL)
             else lzf_dref inp out_len ip out op (len + unat e) ref }
           else lzf_dref inp out_len ip out op len ref) }"

lemma lzf_dstep_ip: "lzf_dstep inp out_len ip out op = Some (Inr (ip', out', op')) \<Longrightarrow> ip < ip'"
  by (auto simp: lzf_dstep_def lzf_dref_def Let_def split: bind_splits if_splits)

text \<open>\<open>do { ... } while (ip < in_end)\<close>; an error returns 0.\<close>

function lzf_dloop :: "buf \<Rightarrow> nat \<Rightarrow> nat \<Rightarrow> buf \<Rightarrow> nat \<Rightarrow> (buf \<times> (lzf_error + nat)) option" where
  "lzf_dloop inp out_len ip out op =
     (case lzf_dstep inp out_len ip out op of
        None \<Rightarrow> None
      | Some (Inl e) \<Rightarrow> Some (out, Inl e)
      | Some (Inr (ip', out', op')) \<Rightarrow>
          if ip' < length inp then lzf_dloop inp out_len ip' out' op' else Some (out', Inr op'))"
  by pat_completeness auto
termination
  by (relation "measure (\<lambda>(inp, out_len, ip, out, op). length inp - ip)") (auto dest: lzf_dstep_ip)

declare lzf_dloop.simps [simp del]

definition lzf_decompress :: "buf \<Rightarrow> buf \<Rightarrow> nat \<Rightarrow> (buf \<times> (lzf_error + nat)) option" where
  "lzf_decompress inp out out_len = lzf_dloop inp out_len 0 out 0"

end
