(* ===== verification/Lzf_Correct.thy ===== *)
theory Lzf_Correct
  imports Lzf
begin

text \<open>
  The compressed format as a function on lists, \<open>lz_dec\<close>: \<open>lzf_decompress\<close> computes it, and
  \<open>lzf_compress\<close> produces sequences that it maps to the input.
\<close>

section \<open>The format\<close>

fun back_copy :: "nat \<Rightarrow> nat \<Rightarrow> 'a list \<Rightarrow> 'a list" where
  "back_copy 0 off acc = acc"
| "back_copy (Suc n) off acc = back_copy n off (acc @ [acc ! (length acc - 1 - off)])"

text \<open>A back reference of \<open>len + 2\<close> octets, and one instruction: the output after it and the rest of the input.\<close>

definition lz_ref :: "nat \<Rightarrow> nat \<Rightarrow> buf \<Rightarrow> buf \<Rightarrow> (buf \<times> buf) option" where
  "lz_ref hi len cs acc = (case cs of [] \<Rightarrow> None | lo # cs' \<Rightarrow>
     if hi * 256 + unat lo < length acc then Some (back_copy (len + 2) (hi * 256 + unat lo) acc, cs') else None)"

definition lz_instr :: "buf \<Rightarrow> buf \<Rightarrow> (buf \<times> buf) option" where
  "lz_instr inp acc = (case inp of [] \<Rightarrow> None | c # cs \<Rightarrow>
     if unat c < 32 then
       (if unat c < length cs then Some (acc @ take (unat c + 1) cs, drop (unat c + 1) cs) else None)
     else if unat c div 32 = 7 then
       (case cs of [] \<Rightarrow> None | e # cs' \<Rightarrow> lz_ref (unat c mod 32) (7 + unat e) cs' acc)
     else lz_ref (unat c mod 32) (unat c div 32) cs acc)"

lemma lz_ref_shorter: "lz_ref hi len cs acc = Some (acc', rest) \<Longrightarrow> length rest < length cs"
  by (auto simp: lz_ref_def split: list.splits if_splits)

lemma lz_ref_append: "lz_ref hi len cs acc = Some (acc', rest) \<Longrightarrow> lz_ref hi len (cs @ zs) acc = Some (acc', rest @ zs)"
  by (cases cs) (auto simp: lz_ref_def split: if_splits)

lemma lz_instr_shorter: "lz_instr inp acc = Some (acc', rest) \<Longrightarrow> length rest < length inp"
  by (auto simp: lz_instr_def split: list.splits if_splits dest!: lz_ref_shorter)

lemma lz_instr_append: "lz_instr inp acc = Some (acc', rest) \<Longrightarrow> lz_instr (inp @ zs) acc = Some (acc', rest @ zs)"
  by (cases inp) (auto simp: lz_instr_def lz_ref_append split: if_splits list.splits)

function lz_dec :: "buf \<Rightarrow> buf \<Rightarrow> buf option" where
  "lz_dec inp acc =
     (if inp = [] then Some acc
      else case lz_instr inp acc of None \<Rightarrow> None | Some (acc', rest) \<Rightarrow> lz_dec rest acc')"
  by pat_completeness auto
termination
  by (relation "measure (\<lambda>(inp, acc). length inp)") (auto dest: lz_instr_shorter)

declare lz_dec.simps [simp del]

lemma lz_dec_Nil [simp]: "lz_dec [] acc = Some acc"
  by (simp add: lz_dec.simps)

lemma lz_dec_step: "lz_instr inp acc = Some (acc', rest) \<Longrightarrow> lz_dec inp acc = lz_dec rest acc'"
  by (subst lz_dec.simps) (auto simp: lz_instr_def split: list.splits)

lemma lz_dec_append: "lz_dec a acc = Some acc' \<Longrightarrow> lz_dec (a @ b) acc = lz_dec b acc'"
proof (induction a acc rule: lz_dec.induct)
  case (1 a acc)
  show ?case
  proof (cases "a = []")
    case False
    then obtain acc1 rest where i: "lz_instr a acc = Some (acc1, rest)" and r: "lz_dec rest acc1 = Some acc'"
      using "1.prems" by (subst (asm) lz_dec.simps) (auto split: option.splits)
    then have "lz_dec (rest @ b) acc1 = lz_dec b acc'"
      using "1.IH" False by blast
    then show ?thesis
      using lz_dec_step [OF lz_instr_append [OF i]] by simp
  qed (use "1.prems" in simp)
qed

lemma lz_dec_snoc:
  "lz_dec a [] = Some acc \<Longrightarrow> lz_instr b acc = Some (acc', []) \<Longrightarrow> lz_dec (a @ b) [] = Some acc'"
  by (simp add: lz_dec_append lz_dec_step)

lemma length_back_copy [simp]: "length (back_copy n off acc) = length acc + n"
  by (induction n arbitrary: acc) auto

lemma back_copy_prefix: "\<exists>e. back_copy n off acc = acc @ e"
proof (induction n arbitrary: acc)
  case (Suc n)
  show ?case using Suc [of "acc @ [acc ! (length acc - 1 - off)]"] by auto
qed simp

lemma back_copy_match:
  assumes "ref < ip" "ip + n \<le> length xs" "\<And>i. i < n \<Longrightarrow> xs ! (ref + i) = xs ! (ip + i)"
  shows "back_copy n (ip - ref - 1) (take ip xs) = take (ip + n) xs"
  using assms
proof (induction n arbitrary: ip ref)
  case (Suc n)
  have "xs ! ref = xs ! ip" using Suc.prems(3) [of 0] by simp
  then have *: "take ip xs @ [take ip xs ! (length (take ip xs) - 1 - (ip - ref - 1))] = take (Suc ip) xs"
    using Suc.prems(1,2) by (simp add: take_Suc_conv_app_nth min_absorb2)
  have "back_copy n (Suc ip - Suc ref - 1) (take (Suc ip) xs) = take (Suc ip + n) xs"
    using Suc.prems(1,2) Suc.prems(3) [of "Suc i" for i] by (intro Suc.IH) auto
  then show ?case using * by simp
qed simp

declare back_copy.simps(2) [simp del]

section \<open>Encoded instructions\<close>

lemma unat_byte: "n < 256 \<Longrightarrow> unat (of_nat n :: byte) = n"
  by (simp add: unat_of_nat)

lemma lz_instr_literals:
  assumes "0 < length ls" "length ls \<le> 32"
  shows "lz_instr ((of_nat (length ls) - 1) # ls) acc = Some (acc @ ls, [])"
proof -
  obtain n where n: "length ls = Suc n" using assms(1) by (cases "length ls") auto
  then have "unat (of_nat (length ls) - 1 :: byte) = n" using assms(2) by (simp add: unat_byte)
  then show ?thesis using n assms(2) by (simp add: lz_instr_def)
qed

lemma off_bytes: "off div 256 * 256 + off mod 256 = (off :: nat)"
  by simp

lemma lz_instr_short:
  assumes "off < 8192" "0 < len" "len < 7" "off < length acc"
  shows "lz_instr [of_nat (off div 256 + len * 32), of_nat off] acc = Some (back_copy (len + 2) off acc, [])"
proof -
  have h: "off div 256 < 32" using assms by simp
  have c: "unat (of_nat (off div 256 + len * 32) :: byte) = off div 256 + len * 32"
    using assms h by (intro unat_byte) linarith
  have o0: "unat (of_nat off :: byte) = off mod 256" by (simp add: unat_of_nat)
  have d: "(off div 256 + len * 32) div 32 = len" "(off div 256 + len * 32) mod 32 = off div 256" using h by simp_all
  show ?thesis
    unfolding lz_instr_def lz_ref_def list.case c d o0 off_bytes using assms by simp
qed

lemma lz_instr_long:
  assumes "off < 8192" "7 \<le> len" "len \<le> 262" "off < length acc"
  shows "lz_instr [of_nat (off div 256 + 7 * 32), of_nat (len - 7), of_nat off] acc = Some (back_copy (len + 2) off acc, [])"
proof -
  have h: "off div 256 < 32" using assms by simp
  have c: "unat (of_nat (off div 256 + 7 * 32) :: byte) = off div 256 + 7 * 32"
    using h by (intro unat_byte) linarith
  have l: "unat (of_nat (len - 7) :: byte) = len - 7" using assms by (intro unat_byte) simp
  have o0: "unat (of_nat off :: byte) = off mod 256" by (simp add: unat_of_nat)
  have d: "(off div 256 + 7 * 32) div 32 = 7" "(off div 256 + 7 * 32) mod 32 = off div 256"
    using h mod_less [OF h] by (simp_all add: mod_add_eq [symmetric, of _ 224])
  have "7 + (len - 7) + 2 = len + 2" using assms by simp
  then show ?thesis
    unfolding lz_instr_def lz_ref_def list.case c d l o0 off_bytes using assms by simp
qed

section \<open>Decompression\<close>

lemma copy_octets_correct:
  "ref < op \<Longrightarrow> op + n \<le> length out \<Longrightarrow>
   copy_octets n out op ref = Some (back_copy n (op - ref - 1) (take op out) @ drop (op + n) out)"
proof (induction n arbitrary: out op ref)
  case (Suc n)
  have "take (Suc op) (out[op := out ! ref]) = take op out @ [out ! ref]"
    using Suc.prems by (simp add: take_Suc_conv_app_nth)
  moreover have "take op out ! (length (take op out) - 1 - (op - ref - 1)) = out ! ref"
    using Suc.prems by (simp add: min_absorb2)
  ultimately show ?case
    using Suc.prems Suc.IH [of "Suc ref" "Suc op" "out[op := out ! ref]"] by (simp add: buf_simps back_copy.simps)
qed simp

lemma back_copy_disjoint:
  assumes "n \<le> Suc off" "off < length acc"
  shows "back_copy n off acc = acc @ take n (drop (length acc - 1 - off) acc)"
proof -
  let ?r = "length acc - 1 - off"
  let ?xs = "acc @ take n (drop ?r acc)"
  have "back_copy n (length acc - ?r - 1) (take (length acc) ?xs) = take (length acc + n) ?xs"
    using assms by (intro back_copy_match) (auto simp: nth_append)
  then show ?thesis using assms by simp
qed

lemma lzf_copy_ref_correct:
  assumes "ref < op" "op + len + 2 \<le> length out"
  shows "lzf_copy_ref out op ref len = Some (back_copy (len + 2) (op - ref - 1) (take op out) @ drop (op + len + 2) out)"
proof (cases "len \<le> 9 \<or> op < ref + (len + 2)")
  case True
  then show ?thesis using assms copy_octets_correct [of ref op "len + 2" out] by (auto simp: lzf_copy_ref_def add.assoc)
next
  case False
  have "len + 2 \<le> Suc (op - ref - 1)" using False assms(1) by linarith
  then have "back_copy (len + 2) (op - ref - 1) (take op out) = take op out @ take (len + 2) (drop ref out)"
    using assms back_copy_disjoint [of "len + 2" "op - ref - 1" "take op out"]
    by (simp add: min_absorb2 drop_take)
  moreover have m: "min (length out - ref) (Suc (Suc len)) = Suc (Suc len)" using assms by linarith
  ultimately show ?thesis using False assms by (simp add: lzf_copy_ref_def buf_simps add.assoc m)
qed

text \<open>One iteration performs one instruction, or reports that it cannot.\<close>

definition dstep_ok :: "buf \<Rightarrow> nat \<Rightarrow> nat \<Rightarrow> buf \<Rightarrow> (lzf_error + nat \<times> buf \<times> nat) option \<Rightarrow> (buf \<times> buf) option \<Rightarrow> bool" where
  "dstep_ok inp out_len ip out r i = (case i of
     None \<Rightarrow> r = Some (Inl E2BIG) \<or> r = Some (Inl EINVAL)
   | Some (acc, rest) \<Rightarrow>
       if length acc \<le> out_len
       then (\<exists>ip'. r = Some (Inr (ip', acc @ drop (length acc) out, length acc)) \<and> ip < ip' \<and> ip' \<le> length inp \<and> drop ip' inp = rest)
       else r = Some (Inl E2BIG))"

lemma dstep_literals:
  assumes "ip < length inp" "op \<le> out_len" "out_len \<le> length out" "unat (inp ! ip) < 32"
  shows "dstep_ok inp out_len ip out (lzf_dstep inp out_len ip out op) (lz_instr (drop ip inp) (take op out))"
proof -
  let ?n = "unat (inp ! ip) + 1"
  have i: "lz_instr (drop ip inp) (take op out) =
      (if ip + ?n < length inp then Some (take op out @ take ?n (drop (ip + 1) inp), drop (ip + 1 + ?n) inp) else None)"
    using assms by (auto simp: lz_instr_def take_drop_eq_nth_cons [of ip] add.commute)
  have "lzf_dstep inp out_len ip out op =
      (if op + ?n > out_len then Some (Inl E2BIG)
       else if ip + 1 + ?n > length inp then Some (Inl EINVAL)
       else Some (Inr (ip + 1 + ?n, take op out @ take ?n (drop (ip + 1) inp) @ drop (op + ?n) out, op + ?n)))"
    using assms by (simp add: lzf_dstep_def buf_simps)
  then show ?thesis using assms i by (auto simp: dstep_ok_def min_absorb2)
qed

lemma dstep_reference:
  assumes "ip < length inp" "op \<le> out_len" "out_len \<le> length out" "ip0 \<le> ip"
  shows "dstep_ok inp out_len ip0 out (lzf_dref inp out_len ip out op len (int op - int hi * 256 - 1))
    (lz_ref hi len (drop ip inp) (take op out))"
proof -
  let ?off = "hi * 256 + unat (inp ! ip)"
  let ?ref = "int op - int hi * 256 - 1 - int (unat (inp ! ip))"
  have r0: "?ref = int op - 1 - int ?off" by simp
  have neg: "int op - 1 - int ?off < 0 \<longleftrightarrow> op \<le> ?off" by linarith
  have i: "lz_ref hi len (drop ip inp) (take op out) =
      (if ?off < op then Some (back_copy (len + 2) ?off (take op out), drop (ip + 1) inp) else None)"
    using assms by (simp add: lz_ref_def take_drop_eq_nth_cons [of ip] min_absorb2)
  have l: "lzf_dref inp out_len ip out op len (int op - int hi * 256 - 1) =
      (if op + len + 2 > out_len then Some (Inl E2BIG)
       else if op \<le> ?off then Some (Inl EINVAL)
       else do { out \<leftarrow> lzf_copy_ref out op (nat (int op - 1 - int ?off)) len; Some (Inr (ip + 1, out, op + (len + 2))) })"
    unfolding lzf_dref_def nth_opt_Some [OF assms(1)] Option.bind_lunit r0 neg ..
  show ?thesis
  proof (cases "?off < op \<and> op + len + 2 \<le> out_len")
    case True
    then have r: "nat (int op - 1 - int ?off) = op - 1 - ?off" by linarith
    have o0: "op - (op - 1 - ?off) - 1 = ?off" "op - 1 - ?off < op" using True by linarith+
    have "lzf_copy_ref out op (nat (int op - 1 - int ?off)) len =
        Some (back_copy (len + 2) ?off (take op out) @ drop (op + len + 2) out)"
      unfolding r using lzf_copy_ref_correct [of "op - 1 - ?off" op len out] o0 True assms by simp
    then show ?thesis
      using True assms by (simp add: l i dstep_ok_def min_absorb2 add.assoc del: of_nat_add of_nat_mult)
  next
    case False
    then show ?thesis
      using assms by (auto simp: l i dstep_ok_def min_absorb2)
  qed
qed

lemma dstep_correct:
  assumes "ip < length inp" "op \<le> out_len" "out_len \<le> length out"
  shows "dstep_ok inp out_len ip out (lzf_dstep inp out_len ip out op) (lz_instr (drop ip inp) (take op out))"
proof -
  let ?c = "unat (inp ! ip)"
  have d: "drop ip inp = inp ! ip # drop (ip + 1) inp" using assms take_drop_eq_nth_cons [of ip] by simp
  consider "?c < 32" | "\<not> ?c < 32" "ip + 1 \<ge> length inp" | "\<not> ?c < 32" "?c div 32 = 7" "ip + 2 = length inp"
    | "\<not> ?c < 32" "?c div 32 = 7" "ip + 2 < length inp" | "\<not> ?c < 32" "?c div 32 \<noteq> 7" "ip + 1 < length inp"
    using assms(1) by linarith
  then show ?thesis
  proof cases
    case 1
    then show ?thesis using dstep_literals assms by blast
  next
    case 2
    then show ?thesis using assms by (simp add: dstep_ok_def lzf_dstep_def lz_instr_def lz_ref_def d buf_simps)
  next
    case 3
    then show ?thesis
      using assms take_drop_eq_nth_cons [of "ip + 1" inp]
      by (simp add: dstep_ok_def lzf_dstep_def lz_instr_def lz_ref_def d buf_simps)
  next
    case 4
    then show ?thesis
      using assms dstep_reference [of "ip + 2" inp op out_len out ip "7 + unat (inp ! (ip + 1))" "?c mod 32"]
        take_drop_eq_nth_cons [of "ip + 1" inp]
      by (simp add: lzf_dstep_def lz_instr_def d nth_opt_Some)
  next
    case 5
    have "?c < 256" using unsigned_less [of "inp ! ip", where 'a = nat] by simp
    then have "?c div 32 < 7" using 5(2) by linarith
    then show ?thesis
      using 5 assms dstep_reference [of "ip + 1" inp op out_len out ip "?c div 32" "?c mod 32"]
      by (simp add: lzf_dstep_def lz_instr_def d nth_opt_Some)
  qed
qed

lemma lz_instr_extends: "lz_instr inp acc = Some (acc', rest) \<Longrightarrow> \<exists>e. acc' = acc @ e"
  by (auto simp: lz_instr_def lz_ref_def back_copy_prefix split: list.splits if_splits)

lemma lz_dec_length: "lz_dec inp acc = Some acc' \<Longrightarrow> length acc \<le> length acc'"
proof (induction inp acc rule: lz_dec.induct)
  case (1 inp acc)
  show ?case
  proof (cases "inp = []")
    case False
    then obtain acc1 rest where i: "lz_instr inp acc = Some (acc1, rest)" and r: "lz_dec rest acc1 = Some acc'"
      using "1.prems" by (subst (asm) lz_dec.simps) (auto split: option.splits)
    then have "length acc1 \<le> length acc'" using "1.IH" False by blast
    then show ?thesis using lz_instr_extends [OF i] by auto
  qed (use "1.prems" in simp)
qed

text \<open>What a run of the loop returns, given what the format says.\<close>

definition dloop_ok :: "nat \<Rightarrow> buf \<Rightarrow> (buf \<times> (lzf_error + nat)) option \<Rightarrow> buf option \<Rightarrow> bool" where
  "dloop_ok out_len out r d = (case d of
     None \<Rightarrow> (\<exists>out' e. r = Some (out', Inl e) \<and> length out' = length out \<and> drop out_len out' = drop out_len out)
   | Some acc \<Rightarrow>
       if length acc \<le> out_len then r = Some (acc @ drop (length acc) out, Inr (length acc))
       else (\<exists>out'. r = Some (out', Inl E2BIG) \<and> length out' = length out \<and> drop out_len out' = drop out_len out))"

lemma dloop_ok_cong:
  assumes "dloop_ok out_len (acc @ drop (length acc) out) r d"
    and "length acc \<le> out_len" "out_len \<le> length out" "\<And>acc'. d = Some acc' \<Longrightarrow> length acc \<le> length acc'"
  shows "dloop_ok out_len out r d"
  using assms by (auto simp: dloop_ok_def split: option.splits if_splits)

lemma lzf_dloop_correct:
  "ip < length inp \<Longrightarrow> op \<le> out_len \<Longrightarrow> out_len \<le> length out \<Longrightarrow>
   dloop_ok out_len out (lzf_dloop inp out_len ip out op) (lz_dec (drop ip inp) (take op out))"
proof (induction inp out_len ip out op rule: lzf_dloop.induct)
  case (1 inp out_len ip out op)
  note ok = dstep_correct [OF "1.prems", unfolded dstep_ok_def]
  have ne: "drop ip inp \<noteq> []" using "1.prems"(1) by simp
  show ?case
  proof (cases "lz_instr (drop ip inp) (take op out)")
    case None
    then have d: "lz_dec (drop ip inp) (take op out) = None" using ne by (subst lz_dec.simps) simp
    obtain e where "lzf_dstep inp out_len ip out op = Some (Inl e)" using ok None by auto
    then show ?thesis by (subst lzf_dloop.simps) (simp add: d dloop_ok_def)
  next
    case (Some p)
    then obtain acc rest where p: "lz_instr (drop ip inp) (take op out) = Some (acc, rest)" by (cases p) auto
    have d: "lz_dec (drop ip inp) (take op out) = lz_dec rest acc" using lz_dec_step [OF p] .
    show ?thesis
    proof (cases "length acc \<le> out_len")
      case False
      then have "lzf_dstep inp out_len ip out op = Some (Inl E2BIG)" using ok p by simp
      then show ?thesis
        using False by (subst lzf_dloop.simps) (auto simp: d dloop_ok_def dest: lz_dec_length split: option.splits)
    next
      case True
      then obtain ip' where s: "lzf_dstep inp out_len ip out op = Some (Inr (ip', acc @ drop (length acc) out, length acc))"
        and ip': "ip' \<le> length inp" and rest: "drop ip' inp = rest"
        using ok p by auto
      show ?thesis
      proof (cases "ip' < length inp")
        case False
        then show ?thesis
          using s rest True by (subst lzf_dloop.simps) (auto simp: d dloop_ok_def)
      next
        case more: True
        have "dloop_ok out_len (acc @ drop (length acc) out) (lzf_dloop inp out_len ip' (acc @ drop (length acc) out) (length acc))
            (lz_dec rest acc)"
          using "1.IH" [OF s refl refl refl more] more True "1.prems"(3) rest by simp
        then have "dloop_ok out_len out (lzf_dloop inp out_len ip' (acc @ drop (length acc) out) (length acc)) (lz_dec rest acc)"
          using True "1.prems"(3) lz_dec_length by (rule dloop_ok_cong)
        then show ?thesis using s more by (subst lzf_dloop.simps) (simp add: d)
      qed
    qed
  qed
qed

section \<open>Compression\<close>

abbreviation same_upto :: "buf \<Rightarrow> nat \<Rightarrow> nat \<Rightarrow> nat \<Rightarrow> bool" where
  "same_upto inp ref ip n \<equiv> \<forall>i < n. inp ! (ref + i) = inp ! (ip + i)"

lemma same_upto_Suc: "same_upto inp ref ip n \<Longrightarrow> inp ! (ref + n) = inp ! (ip + n) \<Longrightarrow> same_upto inp ref ip (Suc n)"
  by (simp add: less_Suc_eq)

lemma off_small:
  assumes "ip < 2 ^ 32" "ref < 2 ^ 32"
  shows "(of_nat ip - of_nat ref - 1 :: 64 word) < 8192 \<longleftrightarrow> ref < ip \<and> ip - ref - 1 < 8192"
proof -
  have "(of_nat ip - of_nat ref - 1 :: 64 word) = word_of_int (int ip - int ref - 1)" by simp
  then have u: "uint (of_nat ip - of_nat ref - 1 :: 64 word) = (int ip - int ref - 1) mod 2 ^ 64"
    by (simp only: uint_word_of_int) simp
  show ?thesis
  proof (cases "ref < ip")
    case True
    then have "(int ip - int ref - 1) mod 2 ^ 64 = int (ip - ref - 1)" using assms by (simp add: of_nat_diff)
    then have "(int ip - int ref - 1) mod 2 ^ 64 < 8192 \<longleftrightarrow> ip - ref - 1 < 8192" by linarith
    then show ?thesis using True unfolding word_less_def u by simp
  next
    case False
    have "(int ip - int ref - 1) mod 2 ^ 64 = (int ip - int ref - 1 + 2 ^ 64) mod 2 ^ 64" by (rule mod_add_self2 [symmetric])
    also have "\<dots> = int ip - int ref - 1 + 2 ^ 64" using False assms by (intro mod_pos_pos_trivial) auto
    finally show ?thesis using False assms unfolding word_less_def u by simp
  qed
qed

lemma lzf_is_match_correct:
  assumes "ip + 2 < length inp" "length inp < 2 ^ 32" "ref < 2 ^ 32"
  obtains m where "lzf_is_match inp ref ip = Some m"
    and "m \<longrightarrow> ref < ip \<and> ip - ref - 1 < 8192 \<and> same_upto inp ref ip 3"
proof -
  have small: "(of_nat ip - of_nat ref - 1 :: 64 word) < 8192 \<longleftrightarrow> ref < ip \<and> ip - ref - 1 < 8192"
    using assms by (intro off_small) auto
  have three: "same_upto inp ref ip 3 \<longleftrightarrow> inp ! ref = inp ! ip \<and> inp ! Suc ref = inp ! Suc ip \<and> inp ! Suc (Suc ref) = inp ! Suc (Suc ip)"
    by (simp add: numeral_3_eq_3 less_Suc_eq all_conj_distrib)
  show thesis
  proof (cases "ref < ip \<and> ip - ref - 1 < 8192 \<and> 0 < ref")
    case True
    then show thesis
      using that assms three unfolding lzf_is_match_def small
      by (cases "inp ! (ref + 2) = inp ! (ip + 2)") (auto simp: nth_opt_Some)
  next
    case False
    then show thesis using that [of False] unfolding lzf_is_match_def small by auto
  qed
qed

lemma lzf_unrolled_correct:
  assumes "ref < ip" "ip + len + k < length inp" "same_upto inp ref ip (Suc len)"
  obtains n broken where "lzf_unrolled k inp ref ip len = Some (n, broken)"
    and "broken \<longrightarrow> len < n \<and> n \<le> len + k \<and> same_upto inp ref ip n"
    and "\<not> broken \<longrightarrow> n = len + k \<and> same_upto inp ref ip (Suc n)"
  using assms
proof (induction k arbitrary: len thesis)
  case (Suc k)
  show thesis
  proof (cases "inp ! (ref + Suc len) = inp ! (ip + Suc len)")
    case True
    have "same_upto inp ref ip (Suc (Suc len))" using same_upto_Suc Suc.prems(4) True by blast
    then obtain n broken where "lzf_unrolled k inp ref ip (Suc len) = Some (n, broken)"
      and "broken \<longrightarrow> Suc len < n \<and> n \<le> Suc len + k \<and> same_upto inp ref ip n"
      and "\<not> broken \<longrightarrow> n = Suc len + k \<and> same_upto inp ref ip (Suc n)"
      using Suc.IH [of "Suc len"] Suc.prems by auto
    then show thesis using Suc.prems True by (intro Suc.prems(1) [of n broken]) (auto simp: nth_opt_Some)
  next
    case False
    then show thesis
      using Suc.prems by (intro Suc.prems(1) [of "Suc len" True]) (simp_all add: nth_opt_Some)
  qed
next
  case 0
  show thesis using 0(4) by (intro 0(1) [of len False]) simp_all
qed

lemma lzf_extend_correct:
  assumes "ref < ip" "ip + maxlen \<le> length inp" "same_upto inp ref ip (Suc len)"
  obtains n where "lzf_extend inp ref ip len maxlen = Some n"
    and "len < n" "n \<le> max (Suc len) maxlen" "same_upto inp ref ip n"
  using assms
proof (induction inp ref ip len maxlen arbitrary: thesis rule: lzf_extend.induct)
  case (1 inp ref ip len maxlen)
  show thesis
  proof (cases "len + 1 < maxlen \<and> inp ! (ref + Suc len) = inp ! (ip + Suc len)")
    case True
    have s: "same_upto inp ref ip (Suc (Suc len))" using same_upto_Suc "1.prems"(4) True by blast
    have a: "nth_opt inp (ref + len + 1) = Some (inp ! (ref + Suc len))" "nth_opt inp (ip + len + 1) = Some (inp ! (ref + Suc len))"
      using "1.prems" True by (simp_all add: nth_opt_Some)
    obtain n where "lzf_extend inp ref ip (len + 1) maxlen = Some n" "len + 1 < n" "n \<le> max (Suc (len + 1)) maxlen" "same_upto inp ref ip n"
      using "1.IH" [OF _ refl a refl] True s "1.prems"(2,3) by auto
    then show thesis using a True by (intro "1.prems"(1) [of n]) (simp_all add: lzf_extend.simps [of inp ref ip len])
  next
    case False
    then show thesis
      using "1.prems" by (intro "1.prems"(1) [of "Suc len"]) (auto simp: lzf_extend.simps [of inp ref ip len] nth_opt_Some)
  qed
qed

lemma lzf_match_len_correct:
  assumes "ref < ip" "ip + 2 < length inp" "same_upto inp ref ip 3"
  obtains n where "lzf_match_len inp ref ip (min (length inp - ip - 2) 264) = Some n"
    and "3 \<le> n" "n \<le> 264" "ip + n \<le> length inp" "same_upto inp ref ip n"
proof -
  let ?m = "min (length inp - ip - 2) 264"
  have s: "same_upto inp ref ip (Suc 2)" using assms(3) by simp
  have m: "ip + ?m \<le> length inp" "ip + ?m + 2 \<le> length inp" using assms(2) by linarith+
  show thesis
  proof (cases "16 < ?m")
    case False
    obtain n where "lzf_extend inp ref ip 2 ?m = Some n" "2 < n" "n \<le> max (Suc 2) ?m" "same_upto inp ref ip n"
      using lzf_extend_correct [OF assms(1) m(1) s] by blast
    then show thesis using False assms(2) m by (intro that [of n]) (auto simp: lzf_match_len_def)
  next
    case True
    then have "ip + 2 + 16 < length inp" by linarith
    then obtain n broken where u: "lzf_unrolled 16 inp ref ip 2 = Some (n, broken)"
      and b: "broken \<longrightarrow> 2 < n \<and> n \<le> 2 + 16 \<and> same_upto inp ref ip n"
      and nb: "\<not> broken \<longrightarrow> n = 2 + 16 \<and> same_upto inp ref ip (Suc n)"
      using lzf_unrolled_correct [OF assms(1) _ s] by blast
    show thesis
    proof (cases broken)
      case br: True
      then show thesis using True u b m by (intro that [of n]) (auto simp: lzf_match_len_def)
    next
      case nbr: False
      then have "same_upto inp ref ip (Suc n)" and n: "n = 18" using nb by auto
      then obtain k where "lzf_extend inp ref ip n ?m = Some k" "n < k" "k \<le> max (Suc n) ?m" "same_upto inp ref ip k"
        using lzf_extend_correct [OF assms(1) m(1)] by blast
      then show thesis using True u nbr m n by (intro that [of k]) (auto simp: lzf_match_len_def)
    qed
  qed
qed

text \<open>
  The invariant: what stands before the placeholder of the current run decodes to the input before the
  run, and the literals of the run stand after the placeholder.
\<close>

definition lz_inv :: "buf \<Rightarrow> buf \<Rightarrow> nat \<Rightarrow> lzf \<Rightarrow> bool" where
  "lz_inv inp out0 out_len s \<longleftrightarrow>
     lz_ip s \<le> length inp \<and> lz_lit s < 32 \<and> lz_lit s \<le> lz_ip s \<and> lz_lit s < lz_op s
     \<and> lz_op s \<le> out_len + 1 \<and> (0 < lz_lit s \<longrightarrow> lz_op s \<le> out_len)
     \<and> length (lz_out s) = length out0 \<and> drop out_len (lz_out s) = drop out_len out0
     \<and> lz_dec (take (lz_op s - lz_lit s - 1) (lz_out s)) [] = Some (take (lz_ip s - lz_lit s) inp)
     \<and> take (lz_lit s) (drop (lz_op s - lz_lit s) (lz_out s)) = take (lz_lit s) (drop (lz_ip s - lz_lit s) inp)"

lemma drop_update_below: "i < n \<Longrightarrow> drop n (xs[i := v]) = drop n xs"
  by (rule nth_equalityI) auto

lemma drop_frame: "drop m xs = drop m ys \<Longrightarrow> m \<le> n \<Longrightarrow> drop n xs = drop n ys"
  by (metis drop_drop le_add_diff_inverse2)

lemma take_split_at: "k < length xs \<Longrightarrow> take (k + 1 + n) xs = take k xs @ [xs ! k] @ take n (drop (Suc k) xs)"
  using take_add [of "Suc k" n xs] by (simp add: take_Suc_conv_app_nth)

text \<open>Closing a run; \<open>op - (if lit = 0 then 1 else 0)\<close> is where the next instruction goes.\<close>

lemma stop_run_correct:
  fixes s :: lzf
  assumes "lz_lit s \<le> 32" "lz_lit s \<le> lz_ip s" "lz_lit s < lz_op s" "lz_ip s \<le> length inp"
    and room: "lz_op s - (if lz_lit s = 0 then 1 else 0) \<le> length (lz_out s)" "lz_op s - lz_lit s - 1 < length (lz_out s)"
    and pre: "lz_dec (take (lz_op s - lz_lit s - 1) (lz_out s)) [] = Some (take (lz_ip s - lz_lit s) inp)"
    and lits: "take (lz_lit s) (drop (lz_op s - lz_lit s) (lz_out s)) = take (lz_lit s) (drop (lz_ip s - lz_lit s) inp)"
  obtains b where "stop_run s = Some (s\<lparr>lz_out := b\<rparr>)" "length b = length (lz_out s)"
    and "b = (lz_out s)[lz_op s - lz_lit s - 1 := of_nat (lz_lit s) - 1]"
    and "lz_dec (take (lz_op s - (if lz_lit s = 0 then 1 else 0)) b) [] = Some (take (lz_ip s) inp)"
proof -
  let ?k = "lz_op s - lz_lit s - 1" and ?lit = "lz_lit s"
  let ?b = "(lz_out s)[?k := of_nat ?lit - 1]"
  have st: "stop_run s = Some (s\<lparr>lz_out := ?b\<rparr>)" using assms by (simp add: stop_run_def upd_opt_Some)
  have op: "lz_op s = ?k + 1 + ?lit" using assms(3) by simp
  have "lz_dec (take (lz_op s - (if ?lit = 0 then 1 else 0)) ?b) [] = Some (take (lz_ip s) inp)"
  proof (cases "?lit = 0")
    case True
    then show ?thesis using pre by simp
  next
    case False
    let ?ls = "take ?lit (drop (lz_ip s - ?lit) inp)"
    have l: "length ?ls = ?lit" using assms by simp
    have "take (lz_op s) ?b = take ?k ?b @ [?b ! ?k] @ take ?lit (drop (Suc ?k) ?b)"
      using take_split_at [of ?k ?b ?lit, folded op] room(2) by simp
    also have "\<dots> = take ?k (lz_out s) @ ((of_nat (length ?ls) - 1) # ?ls)"
      using room lits op l by (simp add: drop_update_below Suc_diff_Suc)
    finally have "lz_dec (take (lz_op s) ?b) [] = Some (take (lz_ip s - ?lit) inp @ ?ls)"
      using lz_dec_snoc [OF pre lz_instr_literals [of ?ls]] False l assms(1) by simp
    moreover have "take (lz_ip s - ?lit) inp @ ?ls = take (lz_ip s) inp"
      using assms(2) by (simp flip: take_add)
    ultimately show ?thesis using False by simp
  qed
  then show thesis using st that [of ?b] by simp
qed

lemma put_literal_correct:
  assumes inv: "lz_inv inp out0 out_len s" and "lz_ip s < length inp" "lz_op s < out_len" "out_len \<le> length out0"
  obtains s' where "put_literal inp s = Some s'" "lz_inv inp out0 out_len s'" "lz_ip s' = lz_ip s + 1"
    "lz_op s' = lz_op s + (if lz_lit s = 31 then 2 else 1)" "lz_lit s' = (if lz_lit s = 31 then 0 else lz_lit s + 1)"
proof -
  let ?op = "lz_op s" and ?ip = "lz_ip s" and ?lit = "lz_lit s"
  let ?b = "(lz_out s)[?op := inp ! ?ip]"
  define s1 where "s1 = s\<lparr>lz_lit := ?lit + 1, lz_out := ?b, lz_op := ?op + 1, lz_ip := ?ip + 1\<rparr>"
  note i = inv [unfolded lz_inv_def]
  have len: "?op < length (lz_out s)" using i assms by simp
  have pre: "lz_dec (take (?op - ?lit - 1) ?b) [] = Some (take (?ip - ?lit) inp)" using i by simp
  have "take (Suc ?lit) (drop (?op - ?lit) ?b) = take ?lit (drop (?op - ?lit) (lz_out s)) @ [inp ! ?ip]"
    using i len by (simp add: take_Suc_conv_app_nth nth_list_update drop_update_swap)
  also have "\<dots> = take (Suc ?lit) (drop (?ip - ?lit) inp)"
    using i assms(2) by (simp add: take_Suc_conv_app_nth)
  finally have lits: "take (Suc ?lit) (drop (?op - ?lit) ?b) = take (Suc ?lit) (drop (?ip - ?lit) inp)" .
  have frame: "drop out_len ?b = drop out_len out0" using i assms by (simp add: drop_update_below)
  have p: "put_literal inp s = (if ?lit + 1 = 32 then map_option (\<lambda>s. s\<lparr>lz_lit := 0, lz_op := lz_op s + 1\<rparr>) (stop_run s1) else Some s1)"
    using assms(2) len unfolding put_literal_def s1_def
    by (simp add: nth_opt_Some upd_opt_Some map_conv_bind_option comp_def)
  show thesis
  proof (cases "?lit = 31")
    case False
    have "lz_inv inp out0 out_len s1"
      using i False assms pre lits frame unfolding lz_inv_def s1_def by simp
    then show thesis using False p that [of s1] by (simp add: s1_def)
  next
    case True
    obtain b where b: "stop_run s1 = Some (s1\<lparr>lz_out := b\<rparr>)" "length b = length (lz_out s1)"
      "b = ?b[?op - ?lit - 1 := of_nat 32 - 1]" "lz_dec (take (?op + 1) b) [] = Some (take (?ip + 1) inp)"
      by (rule stop_run_correct [of s1 inp])
        (use True i pre lits len assms(2) in \<open>simp_all add: s1_def\<close>)
    let ?s = "s1\<lparr>lz_out := b, lz_lit := 0, lz_op := ?op + 2\<rparr>"
    have "drop out_len b = drop out_len out0" using b(3) frame i assms(3) by (simp add: drop_update_below)
    then have "lz_inv inp out0 out_len ?s"
      using i b assms unfolding lz_inv_def by (simp add: s1_def)
    moreover have "put_literal inp s = Some ?s" using p True b(1) by (simp add: s1_def)
    ultimately show thesis using True that [of ?s] by (simp add: s1_def)
  qed
qed

lemma lzf_rehash_correct:
  assumes "2 \<le> lz_ip s" "lz_ip s + 2 < length inp"
  obtains hval htab where "lzf_rehash inp s = Some (s\<lparr>lz_hval := hval, lz_htab := htab\<rparr>)"
proof -
  have "Suc (Suc (lz_ip s - 2)) = lz_ip s" using assms(1) by simp
  then show thesis using that assms unfolding lzf_rehash_def
    by (simp add: nth_opt_Some Suc_diff_Suc numeral_2_eq_2)
qed

lemma put_ref_correct:
  assumes "lz_dec (take op b) [] = Some acc" "off < length acc" "off < 8192" "1 \<le> len" "len \<le> 262" "op + 3 \<le> length b"
  obtains b' op' where "put_ref b op off len = Some (b', op')" "length b' = length b" "op < op'" "op' \<le> op + 3"
    "drop (op + 3) b' = drop (op + 3) b" "lz_dec (take op' b') [] = Some (back_copy (len + 2) off acc)"
proof (cases "len < 7")
  case True
  let ?b = "b[op := of_nat (off div 256 + len * 32), op + 1 := of_nat off]"
  have "put_ref b op off len = Some (?b, op + 2)"
    using True assms(6) by (simp add: put_ref_def upd_opt_Some del: of_nat_add of_nat_mult)
  moreover have "take (op + 2) ?b = take op b @ [of_nat (off div 256 + len * 32), of_nat off]"
    using assms(6) by (simp add: take_Suc_conv_app_nth del: of_nat_add of_nat_mult)
  then have "lz_dec (take (op + 2) ?b) [] = Some (back_copy (len + 2) off acc)"
    using lz_dec_snoc [OF assms(1) lz_instr_short] assms True by simp
  ultimately show thesis using that by (simp add: drop_update_below)
next
  case False
  let ?b = "b[op := of_nat (off div 256 + 7 * 32), op + 1 := of_nat (len - 7), op + 2 := of_nat off]"
  have "put_ref b op off len = Some (?b, op + 3)"
    using False assms(6) by (simp add: put_ref_def upd_opt_Some numeral_3_eq_3 del: of_nat_add of_nat_mult of_nat_diff)
  moreover have "take (op + 3) ?b = take op b @ [of_nat (off div 256 + 7 * 32), of_nat (len - 7), of_nat off]"
    using assms(6) by (simp add: take_Suc_conv_app_nth numeral_3_eq_3 del: of_nat_add of_nat_mult of_nat_diff)
  then have "lz_dec (take (op + 3) ?b) [] = Some (back_copy (len + 2) off acc)"
    using lz_dec_snoc [OF assms(1) lz_instr_long] assms False by simp
  ultimately show thesis using that by (simp add: drop_update_below)
qed

lemma lzf_reference_correct:
  assumes inv: "lz_inv inp out0 out_len s" and ip: "lz_ip s + 2 < length inp" and "out_len \<le> length out0"
    and m: "ref < lz_ip s" "lz_ip s - ref - 1 < 8192" "same_upto inp ref (lz_ip s) 3"
  obtains r where "lzf_reference inp out_len ref s = Some r"
    and "case r of Inl s' \<Rightarrow> s' = s | Inr s' \<Rightarrow> lz_inv inp out0 out_len s'"
proof (cases "lz_op s + 3 + 1 \<ge> out_len \<and> lz_op s - (if lz_lit s = 0 then 1 else 0) + 3 + 1 \<ge> out_len")
  case True
  then show thesis using that [of "Inl s"] by (simp add: lzf_reference_def)
next
  case False
  let ?op = "lz_op s - (if lz_lit s = 0 then 1 else 0)" and ?ip = "lz_ip s"
  let ?off = "?ip - ref - 1"
  note i = inv [unfolded lz_inv_def]
  have room: "?op + 4 < out_len" using False by (auto split: if_splits)
  obtain b where b: "stop_run s = Some (s\<lparr>lz_out := b\<rparr>)" "length b = length (lz_out s)"
      "b = (lz_out s)[lz_op s - lz_lit s - 1 := of_nat (lz_lit s) - 1]"
      "lz_dec (take ?op b) [] = Some (take ?ip inp)"
    by (rule stop_run_correct [of s inp]) (use i room assms(3) in auto)
  have fb: "drop out_len b = drop out_len out0"
    using b(3) i room by (simp add: drop_update_below split: if_splits)
  obtain n where n: "lzf_match_len inp ref ?ip (min (length inp - ?ip - 2) 264) = Some n"
    "3 \<le> n" "n \<le> 264" "?ip + n \<le> length inp" "same_upto inp ref ?ip n"
    using lzf_match_len_correct [OF m(1) ip m(3)] by blast
  have pre: "?off < length (take ?ip inp)" "1 \<le> n - 2" "n - 2 \<le> 262" "?op + 3 \<le> length b"
    using m n ip room b(2) i assms(3) by simp_all
  obtain b' op' where b': "put_ref b ?op ?off (n - 2) = Some (b', op')" "length b' = length b" "?op < op'" "op' \<le> ?op + 3"
    "drop (?op + 3) b' = drop (?op + 3) b" "lz_dec (take op' b') [] = Some (back_copy (n - 2 + 2) ?off (take ?ip inp))"
    by (rule put_ref_correct [OF b(4) pre(1) m(2) pre(2-4)])
  have fb': "drop out_len b' = drop out_len out0"
    using drop_frame [OF b'(5)] fb room by simp
  have dec: "lz_dec (take op' b') [] = Some (take (?ip + n) inp)"
  proof -
    have "n - 2 + 2 = n" using n(2) by simp
    then show ?thesis using b'(6) back_copy_match [OF m(1) n(4)] n(5) by metis
  qed
  define s1 where "s1 = s\<lparr>lz_out := b', lz_op := op' + 1, lz_lit := 0, lz_ip := ?ip + 1 + (n - 2 + 1)\<rparr>"
  have ipn: "?ip + 1 + (n - 2 + 1) = ?ip + n" using n(2) by simp
  have inv1: "lz_inv inp out0 out_len s1"
    using dec n b(2) b'(2,4) i room fb' unfolding s1_def ipn by (simp add: lz_inv_def)
  have r: "lzf_reference inp out_len ref s = (if lz_ip s1 + 2 \<ge> length inp then Some (Inr s1) else map_option Inr (lzf_rehash inp s1))"
    unfolding lzf_reference_def Let_def if_not_P [OF False] b(1) n(1) Option.bind_lunit
    using b'(1) by (simp add: s1_def)
  show thesis
  proof (cases "lz_ip s1 + 2 \<ge> length inp")
    case True
    then show thesis using r inv1 that [of "Inr s1"] by simp
  next
    case more: False
    have "2 \<le> lz_ip s1" "lz_ip s1 + 2 < length inp" using more n(2) unfolding s1_def ipn by auto
    then obtain hval htab where "lzf_rehash inp s1 = Some (s1\<lparr>lz_hval := hval, lz_htab := htab\<rparr>)"
      by (rule lzf_rehash_correct)
    then show thesis using r more inv1 by (intro that) (auto simp: lz_inv_def)
  qed
qed

lemma lz_inv_hash: "lz_inv inp out0 out_len (s\<lparr>lz_hval := h, lz_htab := t\<rparr>) = lz_inv inp out0 out_len s"
  by (simp add: lz_inv_def)

lemma lzf_step_correct:
  assumes "lz_inv inp out0 out_len s" "lz_ip s + 2 < length inp" "length inp < 2 ^ 32" "out_len \<le> length out0"
  obtains r where "lzf_step inp out_len s = Some r"
    and "case r of Inl s' \<Rightarrow> lz_inv inp out0 out_len s' | Inr s' \<Rightarrow> lz_inv inp out0 out_len s'"
proof -
  define hval where "hval = NEXT (lz_hval s) (inp ! (lz_ip s + 2))"
  define ref where "ref = unat (lz_htab s (IDX hval))"
  define s1 where "s1 = s\<lparr>lz_hval := hval, lz_htab := (lz_htab s)(IDX hval := of_nat (lz_ip s))\<rparr>"
  have s1: "lz_inv inp out0 out_len s1" "lz_ip s1 = lz_ip s" "lz_op s1 = lz_op s"
    using assms(1) by (simp_all add: s1_def lz_inv_hash)
  have "ref < 2 ^ 32" unfolding ref_def using unsigned_less [of "lz_htab s (IDX hval)", where 'a = nat] by simp
  then obtain m where m: "lzf_is_match inp ref (lz_ip s) = Some m"
    "m \<longrightarrow> ref < lz_ip s \<and> lz_ip s - ref - 1 < 8192 \<and> same_upto inp ref (lz_ip s) 3"
    using lzf_is_match_correct [OF assms(2,3)] by blast
  have step: "lzf_step inp out_len s =
      (if m then lzf_reference inp out_len ref s1 else if lz_op s1 \<ge> out_len then Some (Inl s1) else map_option Inr (put_literal inp s1))"
    unfolding lzf_step_def using assms(2) m(1) by (simp add: nth_opt_Some s1_def hval_def ref_def)
  consider m | "\<not> m" "lz_op s1 \<ge> out_len" | "\<not> m" "lz_op s1 < out_len" by linarith
  then show thesis
  proof cases
    case 1
    then obtain r where "lzf_reference inp out_len ref s1 = Some r" "case r of Inl s' \<Rightarrow> s' = s1 | Inr s' \<Rightarrow> lz_inv inp out0 out_len s'"
      using lzf_reference_correct [OF s1(1) _ assms(4)] assms(2) m(2) s1(2) by metis
    then show thesis using 1 step s1(1) by (intro that [of r]) (auto split: sum.splits)
  next
    case 2
    then show thesis using step s1(1) that [of "Inl s1"] by simp
  next
    case 3
    then obtain s' where "put_literal inp s1 = Some s'" "lz_inv inp out0 out_len s'"
      using put_literal_correct [OF s1(1) _ _ assms(4)] assms(2) s1(2) by (metis add_lessD1)
    then show thesis using 3 step that [of "Inr s'"] by simp
  qed
qed

lemma lzf_loop_correct:
  assumes "length inp < 2 ^ 32" "out_len \<le> length out0"
  shows "lz_inv inp out0 out_len s \<Longrightarrow>
    \<exists>r. lzf_loop inp out_len s = Some r \<and>
      (case r of Inl s' \<Rightarrow> lz_inv inp out0 out_len s' | Inr s' \<Rightarrow> lz_inv inp out0 out_len s' \<and> length inp \<le> lz_ip s' + 2)"
  using assms
proof (induction inp out_len s rule: lzf_loop.induct)
  case (1 inp out_len s)
  show ?case
  proof (cases "lz_ip s + 2 < length inp")
    case True
    obtain r where r: "lzf_step inp out_len s = Some r"
      "case r of Inl s' \<Rightarrow> lz_inv inp out0 out_len s' | Inr s' \<Rightarrow> lz_inv inp out0 out_len s'"
      using lzf_step_correct [OF "1.prems"(1) True "1.prems"(2,3)] by blast
    show ?thesis
    proof (cases r)
      case (Inl s')
      then show ?thesis using r True by (subst lzf_loop.simps) simp
    next
      case (Inr s')
      then show ?thesis using "1.IH" [OF True r(1) Inr] r True "1.prems"(2,3) by (subst lzf_loop.simps) simp
    qed
  next
    case False
    then show ?thesis using "1.prems"(1) by (subst lzf_loop.simps) simp
  qed
qed

lemma lzf_tail_correct:
  assumes "lz_inv inp out0 out_len s" "out_len \<le> length out0" "length inp \<le> lz_ip s + 2"
    and "lz_op s + (length inp - lz_ip s) + of_bool (32 \<le> lz_lit s + (length inp - lz_ip s)) \<le> out_len"
  shows "\<exists>s'. lzf_tail inp s = Some s' \<and> lz_inv inp out0 out_len s' \<and> lz_ip s' = length inp \<and> lz_op s' \<le> out_len"
  using assms
proof (induction inp s rule: lzf_tail.induct)
  case (1 inp s)
  show ?case
  proof (cases "lz_ip s < length inp")
    case True
    have "lz_op s < out_len" using True "1.prems"(4) by linarith
    then obtain s' where p: "put_literal inp s = Some s'" "lz_inv inp out0 out_len s'" "lz_ip s' = lz_ip s + 1"
      "lz_op s' = lz_op s + (if lz_lit s = 31 then 2 else 1)" "lz_lit s' = (if lz_lit s = 31 then 0 else lz_lit s + 1)"
      using put_literal_correct [OF "1.prems"(1) True _ "1.prems"(2)] by blast
    have "lz_op s' + (length inp - lz_ip s') + of_bool (32 \<le> lz_lit s' + (length inp - lz_ip s')) \<le> out_len"
      using "1.prems"(3,4) True p(3-5) by (auto simp: of_bool_def split: if_splits)
    then show ?thesis
      using "1.IH" [OF True p(1)] p "1.prems"(2,3) True by (subst lzf_tail.simps) simp
  next
    case False
    then show ?thesis
      using "1.prems" by (subst lzf_tail.simps) (auto simp: lz_inv_def)
  qed
qed

lemma lzf_compress_correct:
  assumes "2 \<le> length inp" "length inp < 2 ^ 32" "out_len \<le> length out"
  obtains out' n where "lzf_compress htab inp out out_len = Some (out', n)" "n \<le> out_len"
    "length out' = length out" "drop out_len out' = drop out_len out"
    "n \<noteq> 0 \<longrightarrow> lz_dec (take n out') [] = Some inp"
proof (cases "out_len = 0")
  case True
  then show thesis using that [of out 0] by (simp add: lzf_compress_def)
next
  case False
  let ?s0 = "\<lparr>lz_ip = 0, lz_op = 1, lz_lit = 0, lz_hval = FRST (inp ! 0) (inp ! 1), lz_htab = htab, lz_out = out\<rparr>"
  have "lz_inv inp out out_len ?s0" by (simp add: lz_inv_def)
  then obtain r where r: "lzf_loop inp out_len ?s0 = Some r"
    and ok: "case r of Inl s' \<Rightarrow> lz_inv inp out out_len s' | Inr s' \<Rightarrow> lz_inv inp out out_len s' \<and> length inp \<le> lz_ip s' + 2"
    using lzf_loop_correct [OF assms(2,3)] by blast
  have c: "lzf_compress htab inp out out_len = (case r of Inl s \<Rightarrow> Some (lz_out s, 0)
      | Inr s \<Rightarrow> if lz_op s + 3 > out_len then Some (lz_out s, 0)
         else do { s \<leftarrow> lzf_tail inp s; s \<leftarrow> stop_run s; Some (lz_out s, lz_op s - (if lz_lit s = 0 then 1 else 0)) })"
  proof -
    have "inp \<noteq> []" "1 < length inp" using assms(1) by auto
    then show ?thesis unfolding lzf_compress_def using False r by (simp add: nth_opt_Some)
  qed
  show thesis
  proof (cases r)
    case (Inl s)
    then show thesis using c ok that [of "lz_out s" 0] by (simp add: lz_inv_def)
  next
    case (Inr s)
    then have inv: "lz_inv inp out out_len s" "length inp \<le> lz_ip s + 2" using ok by simp_all
    show thesis
    proof (cases "lz_op s + 3 > out_len")
      case True
      then show thesis using c Inr inv that [of "lz_out s" 0] by (simp add: lz_inv_def)
    next
      case room: False
      have "lz_op s + (length inp - lz_ip s) + of_bool (32 \<le> lz_lit s + (length inp - lz_ip s)) \<le> out_len"
        using room inv(2) unfolding of_bool_def by (cases "32 \<le> lz_lit s + (length inp - lz_ip s)") simp_all
      then obtain t where t: "lzf_tail inp s = Some t" "lz_inv inp out out_len t" "lz_ip t = length inp" "lz_op t \<le> out_len"
        using lzf_tail_correct [OF inv(1) assms(3) inv(2)] by blast
      note i = t(2) [unfolded lz_inv_def]
      obtain b where b: "stop_run t = Some (t\<lparr>lz_out := b\<rparr>)" "length b = length (lz_out t)"
        "b = (lz_out t)[lz_op t - lz_lit t - 1 := of_nat (lz_lit t) - 1]"
        "lz_dec (take (lz_op t - (if lz_lit t = 0 then 1 else 0)) b) [] = Some (take (lz_ip t) inp)"
        by (rule stop_run_correct [of t inp]) (use i t(3,4) assms(3) in auto)
      have "lz_op t - lz_lit t - 1 < out_len" using i t(4) by linarith
      then have "drop out_len b = drop out_len out" using b(3) i by (simp add: drop_update_below)
      then show thesis
        using c Inr room t b i by (intro that [of b "lz_op t - (if lz_lit t = 0 then 1 else 0)"]) simp_all
    qed
  qed
qed

section \<open>Properties\<close>

lemma lzf_sample:
  "lzf_compress (\<lambda>_. 7) [1, 1, 1, 1, 1, 1] [0, 0, 0, 0, 0, 0, 0, 0, 0, 0] 10 = Some ([1, 1, 1, 32, 0, 0, 1, 0, 0, 0], 7)"
  by (simp add: lzf_compress_def nth_opt_def upd_opt_def FRST_def lzf_loop.simps lzf_step_def NEXT_def IDX_def
      lzf_is_match_def put_literal_def lzf_reference_def stop_run_def put_ref_def lzf_match_len_def lzf_extend.simps lzf_tail.simps)

lemma numeral_6_eq_Suc: "(6 :: nat) = Suc (Suc (Suc (Suc (Suc (Suc 0)))))"
  by simp


text \<open>
  C16: for every string of at least two bytes, whatever the uninitialised hash table contains, \<open>lzf_compress\<close>
  returns without touching memory outside its buffers or writing behind \<open>out_len\<close>. If the result is not 0,
  \<open>lzf_decompress\<close> restores the string from the bytes written, into any buffer that is large enough.
\<close>

theorem lzf_roundtrip:
  assumes "2 \<le> length inp" "length inp < 2 ^ 32" "out_len \<le> length out" "length inp \<le> length dst"
  shows "\<exists>out' n. lzf_compress htab inp out out_len = Some (out', n) \<and> n \<le> out_len
    \<and> length out' = length out \<and> drop out_len out' = drop out_len out
    \<and> (n \<noteq> 0 \<longrightarrow> lzf_decompress (take n out') dst (length inp) = Some (inp @ drop (length inp) dst, Inr (length inp)))"
proof -
  obtain out' n where c: "lzf_compress htab inp out out_len = Some (out', n)" "n \<le> out_len"
    "length out' = length out" "drop out_len out' = drop out_len out"
    and d: "n \<noteq> 0 \<longrightarrow> lz_dec (take n out') [] = Some inp"
    by (rule lzf_compress_correct [OF assms(1-3)])
  have "lzf_decompress (take n out') dst (length inp) = Some (inp @ drop (length inp) dst, Inr (length inp))" if "n \<noteq> 0"
    using lzf_dloop_correct [of 0 "take n out'" 0 "length inp" dst] that c d assms
    by (auto simp: lzf_decompress_def dloop_ok_def)
  then show ?thesis using c by blast
qed

theorem lzf_roundtrip_witness:
  "lzf_compress (\<lambda>_. 7) [1, 1, 1, 1, 1, 1] [0, 0, 0, 0, 0, 0, 0, 0, 0, 0] 10 = Some ([1, 1, 1, 32, 0, 0, 1, 0, 0, 0], 7)
    \<and> lzf_decompress [1, 1, 1, 32, 0, 0, 1] [0, 0, 0, 0, 0, 0, 9] 6 = Some ([1, 1, 1, 1, 1, 1, 9], Inr 6)"
  using lzf_roundtrip [of "[1, 1, 1, 1, 1, 1]" 10 "[0, 0, 0, 0, 0, 0, 0, 0, 0, 0]" "[0, 0, 0, 0, 0, 0, 9]" "\<lambda>_. 7"] lzf_sample
  by (simp add: numeral_6_eq_Suc)



end
