(* ===== verification/Adlist.thy ===== *)
theory Adlist
  imports Redis_Prelude
begin

text \<open>
  \<^verbatim>\<open>adlist.c\<close>: doubly linked lists. The nodes live in a memory of cells, so that sharing, dangling pointers
  and use after free are visible: following a pointer to a cell that is not allocated is \<open>None\<close>. The allocator
  is outside the model: \<open>upcoming\<close> holds the addresses that it is going to return, and an exhausted list
  aborts the process as \<^verbatim>\<open>zmalloc\<close> does. List lengths count cells of the address space and are natural numbers.
\<close>

section \<open>Memory and lists\<close>

record 'v listNode =
  n_prev :: "nat option"
  n_next :: "nat option"
  n_value :: 'v

record 'v mem =
  cells :: "nat \<Rightarrow> 'v listNode option"
  upcoming :: "nat list"
  released :: "'v list"

record 'v adlist =
  l_head :: "nat option"
  l_tail :: "nat option"
  l_dup :: "('v \<Rightarrow> 'v option) option"
  l_free :: bool
  l_match :: "('v \<Rightarrow> 'v \<Rightarrow> bool) option"
  l_len :: nat

datatype direction = AL_START_HEAD | AL_START_TAIL

record listIter =
  it_next :: "nat option"
  it_direction :: direction

definition zmalloc_node :: "'v mem \<Rightarrow> (nat \<times> 'v mem) option" where
  "zmalloc_node m = (case upcoming m of [] \<Rightarrow> None
     | a # as \<Rightarrow> if cells m a = None then Some (a, m\<lparr>upcoming := as\<rparr>) else None)"

definition put_node :: "nat \<Rightarrow> 'v listNode \<Rightarrow> 'v mem \<Rightarrow> 'v mem" where
  "put_node a n m = m\<lparr>cells := (cells m)(a \<mapsto> n)\<rparr>"

definition set_next :: "'v mem \<Rightarrow> nat \<Rightarrow> nat option \<Rightarrow> 'v mem option" where
  "set_next m a x = do { n \<leftarrow> cells m a; Some (put_node a (n\<lparr>n_next := x\<rparr>) m) }"

definition set_prev :: "'v mem \<Rightarrow> nat \<Rightarrow> nat option \<Rightarrow> 'v mem option" where
  "set_prev m a x = do { n \<leftarrow> cells m a; Some (put_node a (n\<lparr>n_prev := x\<rparr>) m) }"

text \<open>\<open>if (list->free) list->free(node->value); zfree(node);\<close>\<close>

definition free_node :: "'v adlist \<Rightarrow> nat \<Rightarrow> 'v mem \<Rightarrow> 'v mem option" where
  "free_node l a m = do {
     n \<leftarrow> cells m a;
     Some (m\<lparr>cells := (cells m)(a := None), released := (if l_free l then released m @ [n_value n] else released m)\<rparr>) }"

section \<open>Operations\<close>

definition listCreate :: "'v adlist" where
  "listCreate = \<lparr>l_head = None, l_tail = None, l_dup = None, l_free = False, l_match = None, l_len = 0\<rparr>"

fun listEmpty_loop :: "'v adlist \<Rightarrow> nat \<Rightarrow> nat option \<Rightarrow> 'v mem \<Rightarrow> 'v mem option" where
  "listEmpty_loop l 0 current m = Some m"
| "listEmpty_loop l (Suc len) current m = do {
     a \<leftarrow> current;
     n \<leftarrow> cells m a;
     m \<leftarrow> free_node l a m;
     listEmpty_loop l len (n_next n) m }"

definition listEmpty :: "'v adlist \<Rightarrow> 'v mem \<Rightarrow> ('v adlist \<times> 'v mem) option" where
  "listEmpty l m = do {
     m \<leftarrow> listEmpty_loop l (l_len l) (l_head l) m;
     Some (l\<lparr>l_head := None, l_tail := None, l_len := 0\<rparr>, m) }"

definition listRelease :: "'v adlist \<Rightarrow> 'v mem \<Rightarrow> 'v mem option" where
  "listRelease l m = map_option snd (listEmpty l m)"

definition listAddNodeHead :: "'v adlist \<Rightarrow> 'v \<Rightarrow> 'v mem \<Rightarrow> ('v adlist \<times> 'v mem) option" where
  "listAddNodeHead l v m = do {
     (a, m) \<leftarrow> zmalloc_node m;
     (l, m) \<leftarrow>
       (if l_len l = 0
        then Some (l\<lparr>l_head := Some a, l_tail := Some a\<rparr>, put_node a \<lparr>n_prev = None, n_next = None, n_value = v\<rparr> m)
        else do {
          m \<leftarrow> Some (put_node a \<lparr>n_prev = None, n_next = l_head l, n_value = v\<rparr> m);
          h \<leftarrow> l_head l;
          m \<leftarrow> set_prev m h (Some a);
          Some (l\<lparr>l_head := Some a\<rparr>, m) });
     Some (l\<lparr>l_len := l_len l + 1\<rparr>, m) }"

definition listAddNodeTail :: "'v adlist \<Rightarrow> 'v \<Rightarrow> 'v mem \<Rightarrow> ('v adlist \<times> 'v mem) option" where
  "listAddNodeTail l v m = do {
     (a, m) \<leftarrow> zmalloc_node m;
     (l, m) \<leftarrow>
       (if l_len l = 0
        then Some (l\<lparr>l_head := Some a, l_tail := Some a\<rparr>, put_node a \<lparr>n_prev = None, n_next = None, n_value = v\<rparr> m)
        else do {
          m \<leftarrow> Some (put_node a \<lparr>n_prev = l_tail l, n_next = None, n_value = v\<rparr> m);
          t \<leftarrow> l_tail l;
          m \<leftarrow> set_next m t (Some a);
          Some (l\<lparr>l_tail := Some a\<rparr>, m) });
     Some (l\<lparr>l_len := l_len l + 1\<rparr>, m) }"

definition listInsertNode :: "'v adlist \<Rightarrow> nat \<Rightarrow> 'v \<Rightarrow> bool \<Rightarrow> 'v mem \<Rightarrow> ('v adlist \<times> 'v mem) option" where
  "listInsertNode l old v after m = do {
     (a, m) \<leftarrow> zmalloc_node m;
     o0 \<leftarrow> cells m old;
     (l, n) \<leftarrow> Some
       (if after
        then (if l_tail l = Some old then l\<lparr>l_tail := Some a\<rparr> else l, \<lparr>n_prev = Some old, n_next = n_next o0, n_value = v\<rparr>)
        else (if l_head l = Some old then l\<lparr>l_head := Some a\<rparr> else l, \<lparr>n_prev = n_prev o0, n_next = Some old, n_value = v\<rparr>));
     m \<leftarrow> Some (put_node a n m);
     m \<leftarrow> (case n_prev n of Some p \<Rightarrow> set_next m p (Some a) | None \<Rightarrow> Some m);
     n \<leftarrow> cells m a;
     m \<leftarrow> (case n_next n of Some p \<Rightarrow> set_prev m p (Some a) | None \<Rightarrow> Some m);
     Some (l\<lparr>l_len := l_len l + 1\<rparr>, m) }"

definition listDelNode :: "'v adlist \<Rightarrow> nat \<Rightarrow> 'v mem \<Rightarrow> ('v adlist \<times> 'v mem) option" where
  "listDelNode l a m = do {
     n \<leftarrow> cells m a;
     (l, m) \<leftarrow> (case n_prev n of
         Some p \<Rightarrow> do { m \<leftarrow> set_next m p (n_next n); Some (l, m) }
       | None \<Rightarrow> Some (l\<lparr>l_head := n_next n\<rparr>, m));
     n \<leftarrow> cells m a;
     (l, m) \<leftarrow> (case n_next n of
         Some p \<Rightarrow> do { m \<leftarrow> set_prev m p (n_prev n); Some (l, m) }
       | None \<Rightarrow> Some (l\<lparr>l_tail := n_prev n\<rparr>, m));
     m \<leftarrow> free_node l a m;
     Some (l\<lparr>l_len := l_len l - 1\<rparr>, m) }"

definition listGetIterator :: "'v adlist \<Rightarrow> direction \<Rightarrow> listIter" where
  "listGetIterator l d = \<lparr>it_next = (if d = AL_START_HEAD then l_head l else l_tail l), it_direction = d\<rparr>"

definition listRewind :: "'v adlist \<Rightarrow> listIter" where
  "listRewind l = \<lparr>it_next = l_head l, it_direction = AL_START_HEAD\<rparr>"

definition listRewindTail :: "'v adlist \<Rightarrow> listIter" where
  "listRewindTail l = \<lparr>it_next = l_tail l, it_direction = AL_START_TAIL\<rparr>"

definition listNext :: "listIter \<Rightarrow> 'v mem \<Rightarrow> (nat option \<times> listIter) option" where
  "listNext it m = (case it_next it of
     None \<Rightarrow> Some (None, it)
   | Some a \<Rightarrow> do {
       n \<leftarrow> cells m a;
       Some (Some a, it\<lparr>it_next := (if it_direction it = AL_START_HEAD then n_next n else n_prev n)\<rparr>) })"

text \<open>\<open>None\<close> inside the result is the \<open>NULL\<close> that is returned when the \<open>dup\<close> method fails.\<close>

partial_function (option) listDup_loop :: "'v adlist \<Rightarrow> listIter \<Rightarrow> 'v mem \<Rightarrow> ('v adlist option \<times> 'v mem) option" where
  "listDup_loop copy it m = do {
     (node, it) \<leftarrow> listNext it m;
     case node of None \<Rightarrow> Some (Some copy, m)
     | Some a \<Rightarrow> do {
         n \<leftarrow> cells m a;
         case (case l_dup copy of Some f \<Rightarrow> f (n_value n) | None \<Rightarrow> Some (n_value n)) of
           None \<Rightarrow> do { m \<leftarrow> listRelease copy m; Some (None, m) }
         | Some v \<Rightarrow> do { (copy, m) \<leftarrow> listAddNodeTail copy v m; listDup_loop copy it m } } }"

definition listDup :: "'v adlist \<Rightarrow> 'v mem \<Rightarrow> ('v adlist option \<times> 'v mem) option" where
  "listDup orig m =
     listDup_loop (listCreate\<lparr>l_dup := l_dup orig, l_free := l_free orig, l_match := l_match orig\<rparr>) (listRewind orig) m"

partial_function (option) listSearchKey_loop :: "'v adlist \<Rightarrow> 'v \<Rightarrow> listIter \<Rightarrow> 'v mem \<Rightarrow> nat option option" where
  "listSearchKey_loop l key it m = do {
     (node, it) \<leftarrow> listNext it m;
     case node of None \<Rightarrow> Some None
     | Some a \<Rightarrow> do {
         n \<leftarrow> cells m a;
         if (case l_match l of Some f \<Rightarrow> f (n_value n) key | None \<Rightarrow> key = n_value n)
         then Some (Some a) else listSearchKey_loop l key it m } }"

definition listSearchKey :: "'v adlist \<Rightarrow> 'v \<Rightarrow> 'v mem \<Rightarrow> nat option option" where
  "listSearchKey l key m = listSearchKey_loop l key (listRewind l) m"

text \<open>\<open>while(index-- && n) n = n->prev;\<close> and the same with \<open>next\<close>\<close>

fun list_walk :: "direction \<Rightarrow> nat \<Rightarrow> nat option \<Rightarrow> 'v mem \<Rightarrow> nat option option" where
  "list_walk d 0 n m = Some n"
| "list_walk d (Suc k) None m = Some None"
| "list_walk d (Suc k) (Some a) m = do {
     n \<leftarrow> cells m a;
     list_walk d k (if d = AL_START_HEAD then n_next n else n_prev n) m }"

text \<open>\<open>-index\<close> overflows for the smallest \<open>long\<close>.\<close>

definition listIndex :: "'v adlist \<Rightarrow> int \<Rightarrow> 'v mem \<Rightarrow> nat option option" where
  "listIndex l index m =
     (if index < 0 then
        (if index = - (2 ^ 63) then None else list_walk AL_START_TAIL (nat (- index - 1)) (l_tail l) m)
      else list_walk AL_START_HEAD (nat index) (l_head l) m)"

definition listRotate :: "'v adlist \<Rightarrow> 'v mem \<Rightarrow> ('v adlist \<times> 'v mem) option" where
  "listRotate l m =
     (if l_len l \<le> 1 then Some (l, m)
      else do {
        tail \<leftarrow> l_tail l;
        t \<leftarrow> cells m tail;
        l \<leftarrow> Some (l\<lparr>l_tail := n_prev t\<rparr>);
        p \<leftarrow> l_tail l;
        m \<leftarrow> set_next m p None;
        h \<leftarrow> l_head l;
        m \<leftarrow> set_prev m h (Some tail);
        m \<leftarrow> set_prev m tail None;
        m \<leftarrow> set_next m tail (l_head l);
        Some (l\<lparr>l_head := Some tail\<rparr>, m) })"

definition listJoin :: "'v adlist \<Rightarrow> 'v adlist \<Rightarrow> 'v mem \<Rightarrow> ('v adlist \<times> 'v adlist \<times> 'v mem) option" where
  "listJoin l r m = do {
     m \<leftarrow> (case l_head r of Some h \<Rightarrow> set_prev m h (l_tail l) | None \<Rightarrow> Some m);
     (l, m) \<leftarrow> (case l_tail l of
         Some t \<Rightarrow> do { m \<leftarrow> set_next m t (l_head r); Some (l, m) }
       | None \<Rightarrow> Some (l\<lparr>l_head := l_head r\<rparr>, m));
     l \<leftarrow> Some (if l_tail r \<noteq> None then l\<lparr>l_tail := l_tail r\<rparr> else l);
     Some (l\<lparr>l_len := l_len l + l_len r\<rparr>, r\<lparr>l_head := None, l_tail := None, l_len := 0\<rparr>, m) }"

section \<open>Representation\<close>

text \<open>The first address of a sequence of nodes, and the last one.\<close>

definition first_node :: "(nat \<times> 'v) list \<Rightarrow> nat option \<Rightarrow> nat option" where
  "first_node xs n = (case xs of [] \<Rightarrow> n | x # _ \<Rightarrow> Some (fst x))"

definition last_node :: "(nat \<times> 'v) list \<Rightarrow> nat option \<Rightarrow> nat option" where
  "last_node xs p = (if xs = [] then p else Some (fst (last xs)))"

text \<open>The cells of a segment between the pointers \<open>p\<close> and \<open>n\<close>.\<close>

fun dseg :: "(nat \<Rightarrow> 'v listNode option) \<Rightarrow> nat option \<Rightarrow> (nat \<times> 'v) list \<Rightarrow> nat option \<Rightarrow> bool" where
  "dseg c p [] n = True"
| "dseg c p ((a, v) # xs) n =
     (c a = Some \<lparr>n_prev = p, n_next = first_node xs n, n_value = v\<rparr> \<and> dseg c (Some a) xs n)"

definition list_rep :: "'v mem \<Rightarrow> 'v adlist \<Rightarrow> (nat \<times> 'v) list \<Rightarrow> bool" where
  "list_rep m l xs \<longleftrightarrow>
     dseg (cells m) None xs None \<and> distinct (map fst xs)
     \<and> l_head l = first_node xs None \<and> l_tail l = last_node xs None \<and> l_len l = length xs"

abbreviation addrs :: "(nat \<times> 'v) list \<Rightarrow> nat set" where
  "addrs xs \<equiv> fst ` set xs"

lemma first_node_simps [simp]:
  "first_node [] n = n" "first_node (x # xs) n = Some (fst x)" "first_node (xs @ ys) n = first_node xs (first_node ys n)"
  by (auto simp: first_node_def split: list.splits)

lemma last_node_simps [simp]:
  "last_node [] p = p" "last_node (x # xs) p = last_node xs (Some (fst x))" "last_node (xs @ ys) p = last_node ys (last_node xs p)"
  by (auto simp: last_node_def)

lemma dseg_append [simp]:
  "dseg c p (xs @ ys) n \<longleftrightarrow> dseg c p xs (first_node ys n) \<and> dseg c (last_node xs p) ys n"
  by (induction c p xs n rule: dseg.induct) auto

lemma dseg_frame [simp]: "a \<notin> addrs xs \<Longrightarrow> dseg (c(a := x)) p xs n = dseg c p xs n"
  by (induction c p xs n rule: dseg.induct) auto

lemma put_node_simps [simp]:
  "cells (put_node a n m) = (cells m)(a \<mapsto> n)" "upcoming (put_node a n m) = upcoming m" "released (put_node a n m) = released m"
  by (simp_all add: put_node_def)

end
