(* ===== verification/Adlist_Correct.thy ===== *)
theory Adlist_Correct
  imports Adlist
begin

text \<open>
  The operations of \<open>Adlist\<close> on the sequence of nodes that a list represents: what they do to it, that they
  touch no other cell, and iteration with deletion.
\<close>

named_theorems adlist_defs

lemmas [adlist_defs] = zmalloc_node_def set_next_def set_prev_def free_node_def listAddNodeHead_def listAddNodeTail_def
  listInsertNode_def listDelNode_def listRotate_def listJoin_def list_rep_def

text \<open>\<open>same_outside A m m'\<close>: the cells outside \<open>A\<close> are unchanged.\<close>

definition same_outside :: "nat set \<Rightarrow> 'v mem \<Rightarrow> 'v mem \<Rightarrow> bool" where
  "same_outside A m m' \<longleftrightarrow> (\<forall>a. a \<notin> A \<longrightarrow> cells m' a = cells m a)"

abbreviation methods :: "'v adlist \<Rightarrow> 'v adlist \<Rightarrow> bool" where
  "methods l l' \<equiv> l_dup l' = l_dup l \<and> l_free l' = l_free l \<and> l_match l' = l_match l"

lemma dseg_allocated: "dseg c p xs n \<Longrightarrow> a \<in> addrs xs \<Longrightarrow> c a \<noteq> None"
  by (induction c p xs n rule: dseg.induct) auto

lemma dseg_fresh: "dseg c p xs n \<Longrightarrow> c a = None \<Longrightarrow> a \<notin> addrs xs"
  using dseg_allocated by fastforce

lemma dseg_cong: "(\<And>a. a \<in> addrs xs \<Longrightarrow> c' a = c a) \<Longrightarrow> dseg c' p xs n = dseg c p xs n"
  by (induction c p xs n rule: dseg.induct) auto

lemma last_node_other: "b \<notin> addrs xs \<Longrightarrow> last_node xs p = Some b \<longleftrightarrow> xs = [] \<and> p = Some b"
  by (cases xs rule: rev_cases) auto

lemma first_node_other: "b \<notin> addrs xs \<Longrightarrow> first_node xs n = Some b \<longleftrightarrow> xs = [] \<and> n = Some b"
  by (cases xs) auto

lemma list_rep_frame:
  "list_rep m l xs \<Longrightarrow> same_outside A m m' \<Longrightarrow> A \<inter> addrs xs = {} \<Longrightarrow> list_rep m' l xs"
  unfolding list_rep_def same_outside_def
  by (metis disjoint_iff dseg_cong)

lemma listAddNodeHead_correct:
  assumes "list_rep m l xs" "upcoming m = a # as" "cells m a = None"
  obtains l' m' where "listAddNodeHead l v m = Some (l', m')" "list_rep m' l' ((a, v) # xs)"
    "same_outside (insert a (addrs xs)) m m'" "upcoming m' = as" "released m' = released m" "methods l l'"
proof -
  have f: "a \<notin> addrs xs" using assms by (auto simp: list_rep_def dest: dseg_fresh)
  show thesis
    using assms f by (cases xs) (auto simp: adlist_defs same_outside_def intro!: that)
qed

lemma listAddNodeTail_correct:
  assumes "list_rep m l xs" "upcoming m = a # as" "cells m a = None"
  obtains l' m' where "listAddNodeTail l v m = Some (l', m')" "list_rep m' l' (xs @ [(a, v)])"
    "same_outside (insert a (addrs xs)) m m'" "upcoming m' = as" "released m' = released m" "methods l l'"
proof -
  have f: "a \<notin> addrs xs" using assms by (auto simp: list_rep_def dest: dseg_fresh)
  show thesis
    using assms f by (cases xs rule: rev_cases) (auto simp: adlist_defs same_outside_def intro!: that)
qed

lemma listInsertNode_after:
  assumes "list_rep m l (ys @ (b, w) # zs)" "upcoming m = a # as" "cells m a = None"
  obtains l' m' where "listInsertNode l b v True m = Some (l', m')" "list_rep m' l' (ys @ (b, w) # (a, v) # zs)"
    "same_outside (insert a (addrs (ys @ (b, w) # zs))) m m'" "upcoming m' = as" "released m' = released m" "methods l l'"
proof -
  have f: "a \<notin> addrs (ys @ (b, w) # zs)" using assms by (metis list_rep_def dseg_fresh)
  show thesis
    using assms f
    by (cases zs) (auto simp: adlist_defs same_outside_def last_node_other image_Un intro!: that)
qed

lemma listInsertNode_before:
  assumes "list_rep m l (ys @ (b, w) # zs)" "upcoming m = a # as" "cells m a = None"
  obtains l' m' where "listInsertNode l b v False m = Some (l', m')" "list_rep m' l' (ys @ (a, v) # (b, w) # zs)"
    "same_outside (insert a (addrs (ys @ (b, w) # zs))) m m'" "upcoming m' = as" "released m' = released m" "methods l l'"
proof -
  have f: "a \<notin> addrs (ys @ (b, w) # zs)" using assms by (metis list_rep_def dseg_fresh)
  show thesis
    using assms f
    by (cases ys rule: rev_cases) (auto simp: adlist_defs same_outside_def first_node_other image_Un intro!: that)
qed

lemma listInsertNode_correct:
  assumes "list_rep m l (ys @ (b, w) # zs)" "upcoming m = a # as" "cells m a = None"
  shows "\<exists>l' m'. listInsertNode l b v after m = Some (l', m')
    \<and> list_rep m' l' (if after then ys @ (b, w) # (a, v) # zs else ys @ (a, v) # (b, w) # zs)
    \<and> same_outside (insert a (addrs (ys @ (b, w) # zs))) m m' \<and> upcoming m' = as"
proof (cases after)
  case True
  obtain l' m' where "listInsertNode l b v True m = Some (l', m')" "list_rep m' l' (ys @ (b, w) # (a, v) # zs)"
    "same_outside (insert a (addrs (ys @ (b, w) # zs))) m m'" "upcoming m' = as"
    by (rule listInsertNode_after [OF assms])
  then show ?thesis using True by auto
next
  case False
  obtain l' m' where "listInsertNode l b v False m = Some (l', m')" "list_rep m' l' (ys @ (a, v) # (b, w) # zs)"
    "same_outside (insert a (addrs (ys @ (b, w) # zs))) m m'" "upcoming m' = as"
    by (rule listInsertNode_before [OF assms])
  then show ?thesis using False by auto
qed

lemma listDelNode_correct:
  assumes "list_rep m l (ys @ (b, w) # zs)"
  obtains l' m' where "listDelNode l b m = Some (l', m')" "list_rep m' l' (ys @ zs)"
    "same_outside (addrs (ys @ (b, w) # zs)) m m'" "upcoming m' = upcoming m" "methods l l'"
    "released m' = (if l_free l then released m @ [w] else released m)" "cells m' b = None"
  using assms
  by (cases ys rule: rev_cases; cases zs) (auto simp: adlist_defs same_outside_def intro!: that)

lemma listRotate_ends:
  assumes "list_rep m l ((h, v) # ys @ [(t, w)])"
  obtains l' m' where "listRotate l m = Some (l', m')" "list_rep m' l' ((t, w) # (h, v) # ys)"
    "same_outside (addrs ((h, v) # ys @ [(t, w)])) m m'" "upcoming m' = upcoming m" "released m' = released m" "methods l l'"
proof (cases ys rule: rev_cases)
  case Nil
  then show thesis using assms by (auto simp: adlist_defs same_outside_def intro!: that)
next
  case (snoc zs y)
  obtain p u where y: "y = (p, u)" by fastforce
  have c: "cells m t = Some \<lparr>n_prev = Some p, n_next = None, n_value = w\<rparr>" "l_tail l = Some t" "l_head l = Some h" "\<not> l_len l \<le> 1"
    "cells m p = Some \<lparr>n_prev = last_node zs (Some h), n_next = Some t, n_value = u\<rparr>"
    "cells m h = Some \<lparr>n_prev = None, n_next = first_node zs (Some p), n_value = v\<rparr>"
    "t \<noteq> p" "t \<noteq> h" "p \<noteq> h"
    using assms unfolding snoc y by (auto simp: list_rep_def)
  let ?m = "put_node t \<lparr>n_prev = None, n_next = Some h, n_value = w\<rparr>
    (put_node t \<lparr>n_prev = None, n_next = None, n_value = w\<rparr>
      (put_node h \<lparr>n_prev = Some t, n_next = first_node zs (Some p), n_value = v\<rparr>
        (put_node p \<lparr>n_prev = last_node zs (Some h), n_next = None, n_value = u\<rparr> m)))"
  have "listRotate l m = Some (l\<lparr>l_tail := Some p, l_head := Some t\<rparr>, ?m)"
    using c by (simp add: listRotate_def set_next_def set_prev_def)
  moreover have "list_rep ?m (l\<lparr>l_tail := Some p, l_head := Some t\<rparr>) ((t, w) # (h, v) # zs @ [(p, u)])"
    using assms c unfolding snoc y by (simp add: list_rep_def)
  moreover have "same_outside (addrs ((h, v) # ys @ [(t, w)])) m ?m" unfolding snoc y by (simp add: same_outside_def)
  ultimately show thesis using that unfolding snoc y by simp
qed

lemma listRotate_correct:
  assumes "list_rep m l xs"
  obtains l' m' where "listRotate l m = Some (l', m')" "list_rep m' l' (if length xs \<le> 1 then xs else last xs # butlast xs)"
    "same_outside (addrs xs) m m'" "upcoming m' = upcoming m" "released m' = released m" "methods l l'"
proof (cases "length xs \<le> 1")
  case True
  then show thesis using assms by (intro that [of l m]) (auto simp: listRotate_def list_rep_def same_outside_def)
next
  case False
  then obtain x zs where "xs = x # zs" "zs \<noteq> []" by (cases xs) auto
  then obtain h v ys t w where xs: "xs = (h, v) # ys @ [(t, w)]" by (cases x; cases zs rule: rev_cases) auto
  obtain l' m' where "listRotate l m = Some (l', m')" "list_rep m' l' ((t, w) # (h, v) # ys)"
    "same_outside (addrs ((h, v) # ys @ [(t, w)])) m m'" "upcoming m' = upcoming m" "released m' = released m" "methods l l'"
    by (rule listRotate_ends [OF assms [unfolded xs]])
  then show thesis by (intro that [of l' m']) (auto simp: xs)
qed

lemma listJoin_correct:
  assumes "list_rep m l xs" "list_rep m r ys" "addrs xs \<inter> addrs ys = {}"
  obtains l' r' m' where "listJoin l r m = Some (l', r', m')" "list_rep m' l' (xs @ ys)" "list_rep m' r' []"
    "same_outside (addrs xs \<union> addrs ys) m m'" "upcoming m' = upcoming m" "released m' = released m" "methods l l'" "methods r r'"
proof (cases ys)
  case Nil
  have "listJoin l r m = Some (l, r\<lparr>l_head := None, l_tail := None, l_len := 0\<rparr>, m)" if "xs = []"
    using assms that Nil by (simp add: listJoin_def list_rep_def)
  moreover have "listJoin l r m = Some (l, r\<lparr>l_head := None, l_tail := None, l_len := 0\<rparr>, m)" if xs: "xs = zs @ [x]" for zs x
  proof -
    have "cells m (fst x) = Some \<lparr>n_prev = last_node zs None, n_next = None, n_value = snd x\<rparr>" "l_tail l = Some (fst x)"
      using assms(1) xs by (cases x; simp add: list_rep_def)+
    moreover from this have "put_node (fst x) \<lparr>n_prev = last_node zs None, n_next = None, n_value = snd x\<rparr> m = m"
      by (simp add: put_node_def fun_upd_idem)
    ultimately show ?thesis using assms(2) Nil by (simp add: listJoin_def list_rep_def set_next_def)
  qed
  ultimately have "listJoin l r m = Some (l, r\<lparr>l_head := None, l_tail := None, l_len := 0\<rparr>, m)"
    by (cases xs rule: rev_cases) auto
  then show thesis
    using assms Nil by (intro that) (auto simp: list_rep_def same_outside_def)
next
  case (Cons y zs)
  obtain h v where y: "y = (h, v)" by fastforce
  have r: "l_head r = Some h" "l_tail r \<noteq> None" "cells m h = Some \<lparr>n_prev = None, n_next = first_node zs None, n_value = v\<rparr>"
    using assms(2) unfolding Cons y by (auto simp: list_rep_def last_node_def split: if_splits)
  let ?h = "put_node h \<lparr>n_prev = l_tail l, n_next = first_node zs None, n_value = v\<rparr> m"
  let ?r = "r\<lparr>l_head := None, l_tail := None, l_len := 0\<rparr>"
  show thesis
  proof (cases xs rule: rev_cases)
    case Nil
    then have "l_head l = None" "l_tail l = None" "l_len l = 0" "l_len r = length ys" using assms by (simp_all add: list_rep_def)
    then have "listJoin l r m = Some (l\<lparr>l_head := Some h, l_tail := l_tail r, l_len := length ys\<rparr>, ?r, ?h)"
      using r by (auto simp: listJoin_def set_prev_def)
    moreover have "list_rep ?h (l\<lparr>l_head := Some h, l_tail := l_tail r, l_len := length ys\<rparr>) (xs @ ys)"
      using assms Nil unfolding Cons y by (auto simp: list_rep_def)
    moreover have "same_outside (addrs xs \<union> addrs ys) m ?h" unfolding Cons y by (simp add: same_outside_def)
    ultimately show thesis
      by (intro that [of "l\<lparr>l_head := Some h, l_tail := l_tail r, l_len := length ys\<rparr>" ?r ?h]) (auto simp: list_rep_def)
  next
    case (snoc us x)
    obtain t w where x: "x = (t, w)" by fastforce
    have l: "l_tail l = Some t" "cells m t = Some \<lparr>n_prev = last_node us None, n_next = None, n_value = w\<rparr>" "t \<noteq> h"
      using assms unfolding Cons y snoc x by (auto simp: list_rep_def)
    let ?m = "put_node t \<lparr>n_prev = last_node us None, n_next = Some h, n_value = w\<rparr> ?h"
    have "listJoin l r m = Some (l\<lparr>l_tail := l_tail r, l_len := l_len l + l_len r\<rparr>, ?r, ?m)"
      using r l by (auto simp: listJoin_def set_prev_def set_next_def)
    moreover have "list_rep ?m (l\<lparr>l_tail := l_tail r, l_len := l_len l + l_len r\<rparr>) (xs @ ys)"
      using assms l unfolding Cons y snoc x by (auto simp: list_rep_def)
    moreover have "same_outside (addrs xs \<union> addrs ys) m ?m" unfolding Cons y snoc x by (simp add: same_outside_def)
    ultimately show thesis
      by (intro that [of "l\<lparr>l_tail := l_tail r, l_len := l_len l + l_len r\<rparr>" ?r ?m]) (auto simp: list_rep_def)
  qed
qed

lemma listEmpty_loop_correct:
  assumes "dseg (cells m) p xs None" "distinct (map fst xs)"
  shows "listEmpty_loop l (length xs) (first_node xs None) m =
    Some (m\<lparr>cells := \<lambda>a. if a \<in> addrs xs then None else cells m a,
      released := if l_free l then released m @ map snd xs else released m\<rparr>)"
  using assms
proof (induction xs arbitrary: p m)
  case (Cons x xs)
  obtain a v where x: "x = (a, v)" by fastforce
  define m1 where "m1 = m\<lparr>cells := (cells m)(a := None), released := (if l_free l then released m @ [v] else released m)\<rparr>"
  have c: "cells m1 = (cells m)(a := None)" by (simp add: m1_def)
  have "dseg (cells m1) (Some a) xs None" "distinct (map fst xs)" using Cons.prems x unfolding c by simp_all
  note ih = Cons.IH [OF this]
  have step: "listEmpty_loop l (length (x # xs)) (first_node (x # xs) None) m = listEmpty_loop l (length xs) (first_node xs None) m1"
    using Cons.prems x by (simp add: free_node_def m1_def)
  have "(\<lambda>b. if b \<in> addrs xs then None else cells m1 b) = (\<lambda>b. if b \<in> addrs (x # xs) then None else cells m b)"
    unfolding c x by auto
  then show ?case unfolding step ih using x by (simp add: m1_def)
qed simp

lemma listEmpty_correct:
  assumes "list_rep m l xs"
  obtains l' m' where "listEmpty l m = Some (l', m')" "list_rep m' l' []"
    "\<And>a. cells m' a = (if a \<in> addrs xs then None else cells m a)" "upcoming m' = upcoming m"
    "released m' = (if l_free l then released m @ map snd xs else released m)" "methods l l'"
proof -
  let ?m = "m\<lparr>cells := \<lambda>a. if a \<in> addrs xs then None else cells m a,
      released := if l_free l then released m @ map snd xs else released m\<rparr>"
  have "listEmpty_loop l (l_len l) (l_head l) m = Some ?m"
    using listEmpty_loop_correct [of m None xs l] assms by (simp add: list_rep_def)
  then show thesis
    by (intro that [of "l\<lparr>l_head := None, l_tail := None, l_len := 0\<rparr>" ?m]) (auto simp: listEmpty_def list_rep_def)
qed

section \<open>Reading\<close>

lemma list_walk_head:
  "dseg (cells m) p xs None \<Longrightarrow> list_walk AL_START_HEAD k (first_node xs None) m = Some (first_node (drop k xs) None)"
proof (induction k arbitrary: p xs)
  case (Suc k)
  then show ?case using Suc.IH by (cases xs) auto
qed simp

lemma list_walk_tail:
  "dseg (cells m) None xs n \<Longrightarrow>
   list_walk AL_START_TAIL k (last_node xs None) m = Some (last_node (take (length xs - k) xs) None)"
proof (induction k arbitrary: n xs)
  case (Suc k)
  then show ?case using Suc.IH by (cases xs rule: rev_cases) auto
qed simp

text \<open>The position that an index denotes, counting from the end when it is negative.\<close>

definition list_pos :: "int \<Rightarrow> 'a list \<Rightarrow> nat option" where
  "list_pos i xs = (let j = (if i < 0 then int (length xs) + i else i) in
     if 0 \<le> j \<and> j < int (length xs) then Some (nat j) else None)"

lemma listIndex_correct:
  assumes "list_rep m l xs" "- (2 ^ 63) < i"
  shows "listIndex l i m = Some (map_option (\<lambda>k. fst (xs ! k)) (list_pos i xs))"
proof (cases "i < 0")
  case True
  let ?k = "nat (- i - 1)"
  have "last_node (take (length xs - ?k) xs) None = map_option (\<lambda>k. fst (xs ! k)) (list_pos i xs)"
  proof (cases "- i \<le> int (length xs)")
    case in_range: True
    then have "length xs - ?k = Suc (nat (int (length xs) + i))" "nat (int (length xs) + i) < length xs" using True by linarith+
    then show ?thesis using True in_range by (simp add: list_pos_def take_Suc_conv_app_nth)
  next
    case False
    then have "length xs - ?k = 0" by linarith
    then show ?thesis using True False by (simp add: list_pos_def)
  qed
  then show ?thesis
    using True assms list_walk_tail [of m xs None ?k] by (simp add: listIndex_def list_rep_def)
next
  case False
  have "first_node (drop (nat i) xs) None = map_option (\<lambda>k. fst (xs ! k)) (list_pos i xs)"
  proof (cases "i < int (length xs)")
    case True
    then show ?thesis using False by (simp add: list_pos_def nat_less_iff take_drop_eq_nth_cons)
  qed (use False in \<open>simp add: list_pos_def\<close>)
  then show ?thesis
    using False assms list_walk_head [of m None xs "nat i"] by (simp add: listIndex_def list_rep_def)
qed

definition list_matches :: "'v adlist \<Rightarrow> 'v \<Rightarrow> 'v \<Rightarrow> bool" where
  "list_matches l key v = (case l_match l of Some f \<Rightarrow> f v key | None \<Rightarrow> key = v)"

lemma listSearchKey_loop_correct:
  "dseg (cells m) p xs None \<Longrightarrow>
   listSearchKey_loop l key \<lparr>it_next = first_node xs None, it_direction = AL_START_HEAD\<rparr> m =
     Some (map_option fst (find (\<lambda>x. list_matches l key (snd x)) xs))"
proof (induction xs arbitrary: p)
  case Nil
  then show ?case by (subst listSearchKey_loop.simps) (simp add: listNext_def)
next
  case (Cons x xs)
  then show ?case
    using Cons.IH by (cases x; cases "l_match l") (subst listSearchKey_loop.simps, auto simp: listNext_def list_matches_def)+
qed

lemma listSearchKey_correct:
  "list_rep m l xs \<Longrightarrow> listSearchKey l key m = Some (map_option fst (find (\<lambda>x. list_matches l key (snd x)) xs))"
  using listSearchKey_loop_correct [of m None xs l key] by (simp add: listSearchKey_def listRewind_def list_rep_def)

section \<open>Duplication\<close>

text \<open>\<open>n\<close> further allocations succeed: their addresses are free.\<close>

definition can_alloc :: "nat \<Rightarrow> 'v mem \<Rightarrow> bool" where
  "can_alloc n m \<longleftrightarrow> n \<le> length (upcoming m) \<and> distinct (upcoming m) \<and> (\<forall>a \<in> set (upcoming m). cells m a = None)"

lemma can_alloc_Suc:
  assumes "can_alloc (Suc n) m"
  obtains a as where "upcoming m = a # as" "cells m a = None" "n \<le> length as" "distinct (a # as)" "\<forall>b \<in> set as. cells m b = None"
  using assms by (cases "upcoming m") (auto simp: can_alloc_def)

lemma can_alloc_after:
  assumes "upcoming m = a # as" "can_alloc (Suc n) m" "upcoming m' = as" "same_outside (insert a (addrs xs)) m m'" "list_rep m l xs"
  shows "can_alloc n m'"
proof -
  have "cells m' b = None" if "b \<in> set as" for b
  proof -
    have "cells m b = None" "b \<noteq> a" using assms that by (auto simp: can_alloc_def)
    then show ?thesis using assms(4,5) dseg_fresh unfolding list_rep_def same_outside_def by fastforce
  qed
  then show ?thesis using assms by (auto simp: can_alloc_def)
qed

definition dup_value :: "'v adlist \<Rightarrow> 'v \<Rightarrow> 'v option" where
  "dup_value l v = (case l_dup l of Some f \<Rightarrow> f v | None \<Rightarrow> Some v)"

lemma listDup_loop_correct:
  assumes "list_rep m copy cs" "dseg (cells m) p ys None" "addrs cs \<inter> addrs ys = {}" "can_alloc (length ys) m"
  shows "case those (map (\<lambda>y. dup_value copy (snd y)) ys) of
      Some vs \<Rightarrow> \<exists>copy' m'. listDup_loop copy \<lparr>it_next = first_node ys None, it_direction = AL_START_HEAD\<rparr> m = Some (Some copy', m')
        \<and> list_rep m' copy' (cs @ zip (upcoming m) vs) \<and> same_outside (addrs cs \<union> set (upcoming m)) m m'
        \<and> released m' = released m \<and> methods copy copy'
    | None \<Rightarrow> \<exists>m'. listDup_loop copy \<lparr>it_next = first_node ys None, it_direction = AL_START_HEAD\<rparr> m = Some (None, m')
        \<and> (\<forall>a. cells m' a = (if a \<in> addrs cs then None else cells m a))"
  using assms
proof (induction ys arbitrary: m copy cs p)
  case Nil
  then show ?case by (subst listDup_loop.simps) (simp add: listNext_def same_outside_def)
next
  case (Cons y ys)
  obtain a v where y: "y = (a, v)" by fastforce
  have c: "cells m a = Some \<lparr>n_prev = p, n_next = first_node ys None, n_value = v\<rparr>" and seg: "dseg (cells m) (Some a) ys None"
    using Cons.prems(2) y by simp_all
  have unf: "listDup_loop copy \<lparr>it_next = first_node (y # ys) None, it_direction = AL_START_HEAD\<rparr> m =
    (case dup_value copy v of None \<Rightarrow> do { m \<leftarrow> listRelease copy m; Some (None, m) }
     | Some v \<Rightarrow> do { (copy, m) \<leftarrow> listAddNodeTail copy v m;
         listDup_loop copy \<lparr>it_next = first_node ys None, it_direction = AL_START_HEAD\<rparr> m })"
    using c y by (subst listDup_loop.simps) (cases "l_dup copy"; simp add: listNext_def dup_value_def)
  show ?case
  proof (cases "dup_value copy v")
    case None
    obtain l' m' where "listEmpty copy m = Some (l', m')" "\<And>a. cells m' a = (if a \<in> addrs cs then None else cells m a)"
      using listEmpty_correct [OF Cons.prems(1)] by blast
    then show ?thesis using None unf y by (simp add: listRelease_def)
  next
    case (Some w)
    obtain b as where b: "upcoming m = b # as" "cells m b = None" "distinct (b # as)"
      using can_alloc_Suc Cons.prems(4) by (metis length_Cons)
    obtain copy1 m1 where add: "listAddNodeTail copy w m = Some (copy1, m1)" "list_rep m1 copy1 (cs @ [(b, w)])"
      "same_outside (insert b (addrs cs)) m m1" "upcoming m1 = as" "released m1 = released m" "methods copy copy1"
      using listAddNodeTail_correct [OF Cons.prems(1) b(1,2)] by blast
    have bnot: "b \<notin> addrs ys" by (rule dseg_fresh [OF seg b(2)])
    have seg1: "dseg (cells m1) (Some a) ys None"
    proof -
      have "cells m1 x = cells m x" if "x \<in> addrs ys" for x
      proof -
        have "x \<noteq> b" "x \<notin> addrs cs" using that bnot Cons.prems(3) by auto
        then show ?thesis using add(3) by (simp add: same_outside_def)
      qed
      then show ?thesis using seg dseg_cong by metis
    qed
    have alloc: "can_alloc (length ys) m1"
      using can_alloc_after [OF b(1) _ add(4,3) Cons.prems(1)] Cons.prems(4) by simp
    have dv: "dup_value copy1 = dup_value copy" using add(6) by (simp add: dup_value_def fun_eq_iff)
    note ih = Cons.IH [OF add(2) seg1 _ alloc, unfolded dv add(4)]
    have dis: "addrs (cs @ [(b, w)]) \<inter> addrs ys = {}" using Cons.prems(3) bnot by auto
    show ?thesis
    proof (cases "those (map (\<lambda>y. dup_value copy (snd y)) ys)")
      case none: None
      obtain m' where "listDup_loop copy1 \<lparr>it_next = first_node ys None, it_direction = AL_START_HEAD\<rparr> m1 = Some (None, m')"
        "\<forall>a. cells m' a = (if a \<in> addrs (cs @ [(b, w)]) then None else cells m1 a)"
        using ih [OF dis] none by auto
      moreover from this(2) have "\<forall>a. cells m' a = (if a \<in> addrs cs then None else cells m a)"
        using add(3) b(2) by (auto simp: same_outside_def)
      ultimately show ?thesis using unf Some none add(1) y by simp
    next
      case vs: (Some vs)
      obtain copy' m' where m': "listDup_loop copy1 \<lparr>it_next = first_node ys None, it_direction = AL_START_HEAD\<rparr> m1 = Some (Some copy', m')"
        "list_rep m' copy' ((cs @ [(b, w)]) @ zip as vs)" "same_outside (addrs (cs @ [(b, w)]) \<union> set as) m1 m'"
        "released m' = released m1" "methods copy1 copy'"
        using ih [OF dis] vs by auto
      have "same_outside (addrs cs \<union> set (upcoming m)) m m'"
        using m'(3) add(3) b(1) by (auto simp: same_outside_def)
      then show ?thesis using unf Some vs add(1,5,6) m' b(1) y by simp
    qed
  qed
qed

section \<open>Iteration with deletion\<close>

text \<open>
  The loop of the comment at \<open>listNext\<close>, with a body that deletes the returned node when its value satisfies \<open>P\<close>:
  \<^verbatim>\<open>while((node = listNext(iter)) != NULL) if (P(node->value)) listDelNode(list,node);\<close>
\<close>

partial_function (option) list_purge :: "('v \<Rightarrow> bool) \<Rightarrow> 'v adlist \<Rightarrow> listIter \<Rightarrow> 'v mem \<Rightarrow> ('v adlist \<times> 'v mem) option" where
  "list_purge P l it m = do {
     (node, it) \<leftarrow> listNext it m;
     case node of None \<Rightarrow> Some (l, m)
     | Some a \<Rightarrow> do {
         n \<leftarrow> cells m a;
         (l, m) \<leftarrow> (if P (n_value n) then listDelNode l a m else Some (l, m));
         list_purge P l it m } }"

lemma list_rep_cell:
  "list_rep m l (ys @ (a, v) # zs) \<Longrightarrow> cells m a = Some \<lparr>n_prev = last_node ys None, n_next = first_node zs None, n_value = v\<rparr>"
  by (simp add: list_rep_def)

lemma list_purge_head:
  "list_rep m l (ys @ zs) \<Longrightarrow>
   \<exists>l' m'. list_purge P l \<lparr>it_next = first_node zs None, it_direction = AL_START_HEAD\<rparr> m = Some (l', m')
     \<and> list_rep m' l' (ys @ filter (\<lambda>x. \<not> P (snd x)) zs)
     \<and> released m' = (if l_free l then released m @ filter P (map snd zs) else released m)"
proof (induction zs arbitrary: ys m l)
  case Nil
  then show ?case by (subst list_purge.simps) (simp add: listNext_def)
next
  case (Cons z zs)
  obtain a v where z: "z = (a, v)" by fastforce
  note c = list_rep_cell [OF Cons.prems [unfolded z]]
  have unf: "list_purge P l \<lparr>it_next = first_node (z # zs) None, it_direction = AL_START_HEAD\<rparr> m =
      do { (l, m) \<leftarrow> (if P v then listDelNode l a m else Some (l, m));
           list_purge P l \<lparr>it_next = first_node zs None, it_direction = AL_START_HEAD\<rparr> m }"
    using c z by (subst list_purge.simps) (simp add: listNext_def)
  show ?case
  proof (cases "P v")
    case True
    obtain l1 m1 where d: "listDelNode l a m = Some (l1, m1)" "list_rep m1 l1 (ys @ zs)" "methods l l1"
      "released m1 = (if l_free l then released m @ [v] else released m)"
      using listDelNode_correct [OF Cons.prems [unfolded z]] by blast
    then show ?thesis using Cons.IH [OF d(2)] True unf z by auto
  next
    case False
    then show ?thesis using Cons.IH [of m l "ys @ [z]"] Cons.prems unf z by auto
  qed
qed

lemma list_purge_tail:
  "list_rep m l (ys @ zs) \<Longrightarrow>
   \<exists>l' m'. list_purge P l \<lparr>it_next = last_node ys None, it_direction = AL_START_TAIL\<rparr> m = Some (l', m')
     \<and> list_rep m' l' (filter (\<lambda>x. \<not> P (snd x)) ys @ zs)"
proof (induction ys arbitrary: zs m l rule: rev_induct)
  case Nil
  then show ?case by (subst list_purge.simps) (simp add: listNext_def)
next
  case (snoc y ys)
  obtain a v where y: "y = (a, v)" by fastforce
  have rep: "list_rep m l (ys @ (a, v) # zs)" using snoc.prems y by simp
  note c = list_rep_cell [OF this]
  have unf: "list_purge P l \<lparr>it_next = last_node (ys @ [y]) None, it_direction = AL_START_TAIL\<rparr> m =
      do { (l, m) \<leftarrow> (if P v then listDelNode l a m else Some (l, m));
           list_purge P l \<lparr>it_next = last_node ys None, it_direction = AL_START_TAIL\<rparr> m }"
    using c y by (subst list_purge.simps) (simp add: listNext_def)
  show ?case
  proof (cases "P v")
    case True
    obtain l1 m1 where d: "listDelNode l a m = Some (l1, m1)" "list_rep m1 l1 (ys @ zs)"
      using listDelNode_correct [OF rep] by blast
    then show ?thesis using snoc.IH [OF d(2)] True unf y by auto
  next
    case False
    then show ?thesis using snoc.IH [OF rep] unf y by auto
  qed
qed

section \<open>Sequences of operations\<close>

text \<open>Operations by position, as the callers combine them, and the same operations on the sequence of values.\<close>

datatype 'v list_op = AddHead 'v | AddTail 'v | InsertAt int 'v bool | DelAt int | Rotate | Clear

fun list_step :: "'v list_op \<Rightarrow> 'v adlist \<times> 'v mem \<Rightarrow> ('v adlist \<times> 'v mem) option" where
  "list_step (AddHead v) (l, m) = listAddNodeHead l v m"
| "list_step (AddTail v) (l, m) = listAddNodeTail l v m"
| "list_step (InsertAt i v after) (l, m) = do {
     n \<leftarrow> listIndex l i m;
     case n of None \<Rightarrow> Some (l, m) | Some a \<Rightarrow> listInsertNode l a v after m }"
| "list_step (DelAt i) (l, m) = do {
     n \<leftarrow> listIndex l i m;
     case n of None \<Rightarrow> Some (l, m) | Some a \<Rightarrow> listDelNode l a m }"
| "list_step Rotate (l, m) = listRotate l m"
| "list_step Clear (l, m) = listEmpty l m"

fun vals_step :: "'v list_op \<Rightarrow> 'v list \<Rightarrow> 'v list" where
  "vals_step (AddHead v) vs = v # vs"
| "vals_step (AddTail v) vs = vs @ [v]"
| "vals_step (InsertAt i v after) vs =
     (case list_pos i vs of None \<Rightarrow> vs | Some k \<Rightarrow> ins_at (if after then Suc k else k) v vs)"
| "vals_step (DelAt i) vs = (case list_pos i vs of None \<Rightarrow> vs | Some k \<Rightarrow> del_at k vs)"
| "vals_step Rotate vs = (if length vs \<le> 1 then vs else last vs # butlast vs)"
| "vals_step Clear vs = []"

fun list_run :: "'v list_op list \<Rightarrow> 'v adlist \<times> 'v mem \<Rightarrow> ('v adlist \<times> 'v mem) option" where
  "list_run [] s = Some s"
| "list_run (x # xs) s = do { s \<leftarrow> list_step x s; list_run xs s }"

fun op_index_ok :: "'v list_op \<Rightarrow> bool" where
  "op_index_ok (InsertAt i v after) \<longleftrightarrow> - (2 ^ 63) < i"
| "op_index_ok (DelAt i) \<longleftrightarrow> - (2 ^ 63) < i"
| "op_index_ok _ \<longleftrightarrow> True"

lemma list_pos_map [simp]: "list_pos i (map f xs) = list_pos i xs"
  by (simp add: list_pos_def)

lemma list_pos_split:
  assumes "list_pos i xs = Some k"
  obtains ys a v zs where "xs = ys @ (a, v) # zs" "length ys = k" "fst (xs ! k) = a"
proof -
  have "k < length xs" using assms by (auto simp: list_pos_def Let_def split: if_splits)
  then show thesis using that [of "take k xs" "fst (xs ! k)" "snd (xs ! k)" "drop (Suc k) xs"] by (simp add: id_take_nth_drop)
qed

lemma can_alloc_same:
  assumes "can_alloc n m" "upcoming m' = upcoming m" "\<And>a. cells m a = None \<Longrightarrow> cells m' a = None" "k \<le> n"
  shows "can_alloc k m'"
  using assms by (auto simp: can_alloc_def)

lemma outside_free:
  assumes "list_rep m l xs" "same_outside (addrs xs) m m'" "cells m a = None"
  shows "cells m' a = None"
  using assms dseg_fresh unfolding list_rep_def same_outside_def by metis

lemma list_step_refines:
  assumes rep: "list_rep m l xs" and alloc: "can_alloc (Suc n) m" and ok: "op_index_ok x"
  shows "\<exists>l' m' xs'. list_step x (l, m) = Some (l', m') \<and> list_rep m' l' xs' \<and> can_alloc n m'
    \<and> map snd xs' = vals_step x (map snd xs)"
proof -
  obtain a as where a: "upcoming m = a # as" "cells m a = None" using can_alloc_Suc [OF alloc] by blast
  note after_add = can_alloc_after [OF a(1) alloc]
  have keep: "can_alloc n m'" if "upcoming m' = upcoming m" "same_outside (addrs xs) m m'" for m'
    using can_alloc_same [OF alloc that(1)] outside_free [OF rep that(2)] by simp
  show ?thesis
  proof (cases x)
    case (AddHead v)
    obtain l' m' where "listAddNodeHead l v m = Some (l', m')" "list_rep m' l' ((a, v) # xs)"
      "same_outside (insert a (addrs xs)) m m'" "upcoming m' = as"
      using listAddNodeHead_correct [OF rep a] by blast
    then show ?thesis using AddHead after_add rep by fastforce
  next
    case (AddTail v)
    obtain l' m' where "listAddNodeTail l v m = Some (l', m')" "list_rep m' l' (xs @ [(a, v)])"
      "same_outside (insert a (addrs xs)) m m'" "upcoming m' = as"
      using listAddNodeTail_correct [OF rep a] by blast
    then show ?thesis using AddTail after_add rep by fastforce
  next
    case (InsertAt i v after)
    have idx: "listIndex l i m = Some (map_option (\<lambda>k. fst (xs ! k)) (list_pos i xs))"
      using listIndex_correct [OF rep] ok InsertAt by simp
    show ?thesis
    proof (cases "list_pos i xs")
      case None
      then show ?thesis using InsertAt idx rep can_alloc_same [OF alloc refl] by auto
    next
      case (Some k)
      then obtain ys b w zs where xs: "xs = ys @ (b, w) # zs" "length ys = k" "fst (xs ! k) = b" by (rule list_pos_split)
      let ?xs = "if after then ys @ (b, w) # (a, v) # zs else ys @ (a, v) # (b, w) # zs"
      obtain l' m' where "listInsertNode l b v after m = Some (l', m')" "list_rep m' l' ?xs"
        "same_outside (insert a (addrs xs)) m m'" "upcoming m' = as"
        using listInsertNode_correct [OF rep [unfolded xs(1)] a] unfolding xs(1) by blast
      moreover have "map snd ?xs = vals_step x (map snd xs)"
      proof -
        have "vals_step x (map snd xs) = ins_at (if after then Suc k else k) v (map snd xs)" using InsertAt Some by simp
        then show ?thesis using xs(1,2) by (simp add: ins_at_def)
      qed
      ultimately show ?thesis using InsertAt idx Some xs(3) after_add rep by fastforce
    qed
  next
    case (DelAt i)
    have idx: "listIndex l i m = Some (map_option (\<lambda>k. fst (xs ! k)) (list_pos i xs))"
      using listIndex_correct [OF rep] ok DelAt by simp
    show ?thesis
    proof (cases "list_pos i xs")
      case None
      then show ?thesis using DelAt idx rep can_alloc_same [OF alloc refl] by auto
    next
      case (Some k)
      then obtain ys b w zs where xs: "xs = ys @ (b, w) # zs" "length ys = k" "fst (xs ! k) = b" by (rule list_pos_split)
      obtain l' m' where "listDelNode l b m = Some (l', m')" "list_rep m' l' (ys @ zs)"
        "same_outside (addrs xs) m m'" "upcoming m' = upcoming m"
        using listDelNode_correct [OF rep [unfolded xs(1)]] unfolding xs(1) by blast
      moreover have "map snd (ys @ zs) = vals_step x (map snd xs)" 
      proof -
        have "vals_step x (map snd xs) = del_at k (map snd xs)" using DelAt Some by simp
        then show ?thesis using xs(1,2) by (simp add: del_at_def)
      qed
      ultimately show ?thesis using DelAt idx Some xs(3) keep by fastforce
    qed
  next
    case Rotate
    obtain l' m' where "listRotate l m = Some (l', m')" "list_rep m' l' (if length xs \<le> 1 then xs else last xs # butlast xs)"
      "same_outside (addrs xs) m m'" "upcoming m' = upcoming m"
      using listRotate_correct [OF rep] by blast
    moreover have "map snd (if length xs \<le> 1 then xs else last xs # butlast xs) = vals_step x (map snd xs)"
      using Rotate by (cases "xs = []") (auto simp: last_map map_butlast)
    ultimately show ?thesis using Rotate keep by fastforce
  next
    case Clear
    obtain l' m' where "listEmpty l m = Some (l', m')" "list_rep m' l' []"
      "\<And>a. cells m' a = (if a \<in> addrs xs then None else cells m a)" "upcoming m' = upcoming m"
      using listEmpty_correct [OF rep] by blast
    then show ?thesis using Clear can_alloc_same [OF alloc] by fastforce
  qed
qed

section \<open>Properties\<close>

text \<open>
  C18: every sequence of insertions at the ends, next to a position, deletions by position, rotations and
  clearings of a linked list runs without touching a cell that is not allocated, keeps the list well
  formed (links in both directions, ends and length), and changes its values as the same operations on the
  sequence of values do.
\<close>

theorem adlist_run_refines:
  assumes "list_rep m l xs" "can_alloc (length ops) m" "list_all op_index_ok ops"
  shows "\<exists>l' m' xs'. list_run ops (l, m) = Some (l', m') \<and> list_rep m' l' xs'
    \<and> map snd xs' = fold vals_step ops (map snd xs)"
  using assms
proof (induction ops arbitrary: l m xs)
  case (Cons x ops)
  obtain l1 m1 xs1 where s: "list_step x (l, m) = Some (l1, m1)" "list_rep m1 l1 xs1" "can_alloc (length ops) m1"
    "map snd xs1 = vals_step x (map snd xs)"
    using list_step_refines [OF Cons.prems(1), of "length ops" x] Cons.prems(2,3) by auto
  then show ?case using Cons.IH [OF s(2,3)] Cons.prems(3) by auto
qed auto

text \<open>A new list in a memory with four free cells.\<close>

definition new_mem :: "'v mem" where
  "new_mem = \<lparr>cells = \<lambda>_. None, upcoming = [1, 2, 3, 4], released = []\<rparr>"

lemma new_list: "list_rep new_mem listCreate []" "can_alloc (Suc (Suc (Suc (Suc 0)))) new_mem"
  by (simp_all add: list_rep_def listCreate_def can_alloc_def new_mem_def)

theorem adlist_run_refines_witness:
  "\<exists>l' m' xs'. list_run [AddHead 10, AddTail 20, InsertAt (-1) 15 False, Rotate] (listCreate, new_mem) = Some (l', m')
    \<and> list_rep m' l' xs' \<and> map snd xs' = [20, 10, 15::nat]"
  using adlist_run_refines [OF new_list(1), of "[AddHead (10 :: nat), AddTail 20, InsertAt (-1) 15 False, Rotate]"] new_list(2)
  by (simp add: list_pos_def ins_at_def)

text \<open>
  C19: deleting the node that the iterator has just returned is safe in both directions: a loop that deletes the
  nodes whose values satisfy a predicate visits every node, and leaves the others in order.
\<close>

theorem iteration_with_deletion:
  assumes "list_rep m l xs"
  shows "\<exists>l' m'. list_purge P l (listGetIterator l d) m = Some (l', m') \<and> list_rep m' l' (filter (\<lambda>x. \<not> P (snd x)) xs)"
proof (cases d)
  case AL_START_HEAD
  then show ?thesis
    using list_purge_head [of m l "[]" xs P] assms by (auto simp: listGetIterator_def list_rep_def)
next
  case AL_START_TAIL
  then show ?thesis
    using list_purge_tail [of m l xs "[]" P] assms by (auto simp: listGetIterator_def list_rep_def)
qed

definition two_nodes :: "nat mem" where
  "two_nodes = \<lparr>cells = [1 \<mapsto> \<lparr>n_prev = None, n_next = Some 2, n_value = 7\<rparr>, 2 \<mapsto> \<lparr>n_prev = Some 1, n_next = None, n_value = 8\<rparr>],
     upcoming = [3, 4], released = []\<rparr>"

definition two_list :: "nat adlist" where
  "two_list = \<lparr>l_head = Some 1, l_tail = Some 2, l_dup = Some (\<lambda>v. if v < 8 then Some v else None), l_free = True, l_match = None, l_len = 2\<rparr>"

lemma two_rep: "list_rep two_nodes two_list [(1, 7), (2, 8)]" "can_alloc (Suc (Suc 0)) two_nodes"
  by (simp_all add: list_rep_def two_nodes_def two_list_def can_alloc_def)

theorem iteration_with_deletion_witness:
  "\<exists>l' m'. list_purge (\<lambda>v. v = 8) two_list (listGetIterator two_list AL_START_TAIL) two_nodes = Some (l', m')
    \<and> list_rep m' l' [(1, 7)]"
  using iteration_with_deletion [OF two_rep(1), of "\<lambda>v. v = 8" AL_START_TAIL] by simp

text \<open>
  C20: \<open>listDup\<close> returns a well-formed list of the duplicated values in new cells and leaves the original
  untouched. If the \<open>dup\<close> method fails for a value, it returns \<open>NULL\<close> after it has freed every cell of the
  partial copy.
\<close>

theorem listDup_copies:
  assumes "list_rep m l xs" "can_alloc (length xs) m"
  shows "case those (map (\<lambda>x. dup_value l (snd x)) xs) of
      Some vs \<Rightarrow> \<exists>copy m'. listDup l m = Some (Some copy, m') \<and> list_rep m' copy (zip (upcoming m) vs) \<and> list_rep m' l xs
        \<and> methods l copy \<and> released m' = released m
    | None \<Rightarrow> \<exists>m'. listDup l m = Some (None, m') \<and> cells m' = cells m"
proof -
  let ?c = "listCreate\<lparr>l_dup := l_dup l, l_free := l_free l, l_match := l_match l\<rparr>"
  have rep: "list_rep m ?c []" by (simp add: list_rep_def listCreate_def)
  have seg: "dseg (cells m) None xs None" and h: "l_head l = first_node xs None" using assms(1) by (simp_all add: list_rep_def)
  have dv: "dup_value ?c = dup_value l" by (simp add: dup_value_def fun_eq_iff)
  have new: "set (upcoming m) \<inter> addrs xs = {}"
    using assms(2) dseg_fresh [OF seg] by (auto simp: can_alloc_def)
  show ?thesis
    using listDup_loop_correct [OF rep seg _ assms(2), unfolded dv] list_rep_frame [OF assms(1) _ new]
    by (auto simp: listDup_def listRewind_def h listCreate_def fun_eq_iff split: option.splits)
qed

theorem listDup_copies_witness:
  "\<exists>m'. listDup two_list two_nodes = Some (None, m') \<and> cells m' = cells two_nodes"
  using listDup_copies [OF two_rep(1)] two_rep(2) by (simp add: dup_value_def two_list_def)

end
