(* ===== verification/Dict_Scan.thy ===== *)
theory Dict_Scan
  imports Dict_Map
begin

text \<open>
  The stateless cursor of \<open>dictScan\<close> (\<^verbatim>\<open>dict.c\<close>): the reversal of bits, one call, and the guarantee of a complete
  iteration while the tables are resized and rehashed between the calls.
\<close>

section \<open>Definitions\<close>

text \<open>\<open>while ((s >>= 1) > 0) { mask ^= (mask << s); v = ((v >> s) & mask) | ((v << s) & ~mask); }\<close>\<close>

function rev_loop :: "nat \<Rightarrow> 64 word \<Rightarrow> 64 word \<Rightarrow> 64 word" where
  "rev_loop s msk v =
     (let s = s div 2 in
      if s > 0 then
        (let msk = msk XOR push_bit s msk;
             v = (drop_bit s v AND msk) OR (push_bit s v AND NOT msk)
         in rev_loop s msk v)
      else v)"
  by pat_completeness auto
termination
  by (relation "measure (\<lambda>(s, msk, v). s)") (auto simp: Let_def)

declare rev_loop.simps [simp del]

definition rev_bits :: "64 word \<Rightarrow> 64 word" where
  "rev_bits v = rev_loop 64 (NOT 0) v"

text \<open>\<open>v |= ~m; v = rev(v); v++; v = rev(v);\<close>\<close>

definition scan_next :: "64 word \<Rightarrow> 64 word \<Rightarrow> 64 word" where
  "scan_next m v = rev_bits (rev_bits (v OR NOT m) + 1)"

text \<open>The entries of the bucket at the cursor, for which the callback is called.\<close>

definition scan_bucket :: "('k, 'v) dictht \<Rightarrow> 64 word \<Rightarrow> ('k, 'v) chain option" where
  "scan_bucket t v = nth_opt (ht_table t) (bucket_index v (ht_sizemask t))"

text \<open>The loop over the expansions of the cursor in the larger table.\<close>

partial_function (option) scan_expand :: "('k, 'v) dictht \<Rightarrow> 64 word \<Rightarrow> 64 word \<Rightarrow> 64 word \<Rightarrow> ('k, 'v) chain \<Rightarrow> (64 word \<times> ('k, 'v) chain) option" where
  "scan_expand t1 m0 m1 v emitted = do {
     c \<leftarrow> scan_bucket t1 v;
     v \<leftarrow> Some (scan_next m1 v);
     if v AND (m0 XOR m1) \<noteq> 0 then scan_expand t1 m0 m1 v (emitted @ c) else Some (v, emitted @ c) }"

text \<open>The result: the next cursor and the entries for which \<open>fn\<close> was called, in order.\<close>

definition dictScan :: "('k, 'v) dict \<Rightarrow> 64 word \<Rightarrow> (64 word \<times> ('k, 'v) chain) option" where
  "dictScan d v =
     (if dictSize d = 0 then Some (0, [])
      else if \<not> dictIsRehashing d then do {
        t0 \<leftarrow> Some (d_ht0 d);
        c \<leftarrow> scan_bucket t0 v;
        Some (scan_next (of_nat (ht_sizemask t0)) v, c) }
      else do {
        (t0, t1) \<leftarrow> Some (if ht_size (d_ht0 d) > ht_size (d_ht1 d) then (d_ht1 d, d_ht0 d) else (d_ht0 d, d_ht1 d));
        c \<leftarrow> scan_bucket t0 v;
        scan_expand t1 (of_nat (ht_sizemask t0)) (of_nat (ht_sizemask t1)) v c })"

text \<open>
  An iteration: a call on each of the given states of the dictionary, starting at a cursor, until the
  cursor is 0; the flag says that this happened.
\<close>

fun scan_iteration :: "64 word \<Rightarrow> ('k, 'v) dict list \<Rightarrow> (('k, 'v) chain \<times> bool) option" where
  "scan_iteration v [] = Some ([], False)"
| "scan_iteration v (d # ds) = do {
     (v, es) \<leftarrow> dictScan d v;
     if v = 0 then Some (es, True)
     else do { (es', finished) \<leftarrow> scan_iteration v ds; Some (es @ es', finished) } }"

section \<open>Reversal\<close>

definition swap_blocks :: "nat \<Rightarrow> 64 word \<Rightarrow> 64 word \<Rightarrow> 64 word" where
  "swap_blocks s m v = (drop_bit s v AND m) OR (push_bit s v AND NOT m)"

lemma rev_loop_step:
  "m XOR push_bit s m = m' \<Longrightarrow> 2 * s = s' \<Longrightarrow> 0 < s \<Longrightarrow> rev_loop s' m v = rev_loop s m' (swap_blocks s m' v)"
  by (subst rev_loop.simps) (auto simp: Let_def swap_blocks_def)

lemma rev_masks:
  "(NOT 0 XOR push_bit 32 (NOT 0) :: 64 word) = 0x00000000FFFFFFFF"
  "(0x00000000FFFFFFFF XOR push_bit 16 0x00000000FFFFFFFF :: 64 word) = 0x0000FFFF0000FFFF"
  "(0x0000FFFF0000FFFF XOR push_bit 8 0x0000FFFF0000FFFF :: 64 word) = 0x00FF00FF00FF00FF"
  "(0x00FF00FF00FF00FF XOR push_bit 4 0x00FF00FF00FF00FF :: 64 word) = 0x0F0F0F0F0F0F0F0F"
  "(0x0F0F0F0F0F0F0F0F XOR push_bit 2 0x0F0F0F0F0F0F0F0F :: 64 word) = 0x3333333333333333"
  "(0x3333333333333333 XOR push_bit 1 0x3333333333333333 :: 64 word) = 0x5555555555555555"
  by code_simp+

lemma rev_bits_stages:
  "rev_bits v = swap_blocks 1 0x5555555555555555 (swap_blocks 2 0x3333333333333333 (swap_blocks 4 0x0F0F0F0F0F0F0F0F
     (swap_blocks 8 0x00FF00FF00FF00FF (swap_blocks 16 0x0000FFFF0000FFFF (swap_blocks 32 0x00000000FFFFFFFF v)))))"
proof -
  let ?v1 = "swap_blocks 32 0x00000000FFFFFFFF v"
  let ?v2 = "swap_blocks 16 0x0000FFFF0000FFFF ?v1"
  let ?v3 = "swap_blocks 8 0x00FF00FF00FF00FF ?v2"
  let ?v4 = "swap_blocks 4 0x0F0F0F0F0F0F0F0F ?v3"
  let ?v5 = "swap_blocks 2 0x3333333333333333 ?v4"
  have "rev_bits v = rev_loop 32 0x00000000FFFFFFFF ?v1"
    unfolding rev_bits_def by (rule rev_loop_step [OF rev_masks(1)]) simp_all
  also have "\<dots> = rev_loop 16 0x0000FFFF0000FFFF ?v2" by (rule rev_loop_step [OF rev_masks(2)]) simp_all
  also have "\<dots> = rev_loop 8 0x00FF00FF00FF00FF ?v3" by (rule rev_loop_step [OF rev_masks(3)]) simp_all
  also have "\<dots> = rev_loop 4 0x0F0F0F0F0F0F0F0F ?v4" by (rule rev_loop_step [OF rev_masks(4)]) simp_all
  also have "\<dots> = rev_loop 2 0x3333333333333333 ?v5" by (rule rev_loop_step [OF rev_masks(5)]) simp_all
  also have "\<dots> = rev_loop 1 0x5555555555555555 (swap_blocks 1 0x5555555555555555 ?v5)"
    by (rule rev_loop_step [OF rev_masks(6)]) simp_all
  also have "\<dots> = swap_blocks 1 0x5555555555555555 ?v5" by (subst rev_loop.simps) simp
  finally show ?thesis .
qed

lemma swap_bit:
  "n < 64 \<Longrightarrow> bit (swap_blocks s m v) n = (if bit m n then bit v (n + s) else s \<le> n \<and> bit v (n - s))"
  by (auto simp: swap_blocks_def bit_simps add.commute)

abbreviation bit_positions :: "nat list" where
  "bit_positions \<equiv> 0 # 1 # [2..<64]"

lemma bit_positions: "set bit_positions = {..<64}"
  unfolding list.set set_upt by auto

lemma swap_stage:
  assumes "list_all (\<lambda>n. bit m n = even (n div s)) bit_positions" "n < 64" "0 < s"
  shows "bit (swap_blocks s m v) n = bit v (if even (n div s) then n + s else n - s)"
proof -
  have "bit m n = even (n div s)" using assms(1,2) unfolding list_all_iff bit_positions by simp
  moreover have "s \<le> n" if "odd (n div s)" using that assms(3) by (metis div_less dvd_0_right not_le)
  ultimately show ?thesis using swap_bit [OF assms(2), of s m v] by auto
qed

lemma stage_masks:
  "list_all (\<lambda>n. bit (0x00000000FFFFFFFF :: 64 word) n = even (n div 32)) bit_positions"
  "list_all (\<lambda>n. bit (0x0000FFFF0000FFFF :: 64 word) n = even (n div 16)) bit_positions"
  "list_all (\<lambda>n. bit (0x00FF00FF00FF00FF :: 64 word) n = even (n div 8)) bit_positions"
  "list_all (\<lambda>n. bit (0x0F0F0F0F0F0F0F0F :: 64 word) n = even (n div 4)) bit_positions"
  "list_all (\<lambda>n. bit (0x3333333333333333 :: 64 word) n = even (n div 2)) bit_positions"
  "list_all (\<lambda>n. bit (0x5555555555555555 :: 64 word) n = even (n div 1)) bit_positions"
  by simp_all

lemma bit_rev_bits: "n < 64 \<Longrightarrow> bit (rev_bits v) n = bit v (63 - n)"
proof -
  assume n: "n < 64"
  have "list_all (\<lambda>n. bit (rev_bits v) n = bit v (63 - n)) bit_positions"
    unfolding rev_bits_stages
    by (simp add: swap_stage [OF stage_masks(1)] swap_stage [OF stage_masks(2)] swap_stage [OF stage_masks(3)]
        swap_stage [OF stage_masks(4)] swap_stage [OF stage_masks(5)] swap_stage [OF stage_masks(6), simplified])
  then show ?thesis using n unfolding list_all_iff bit_positions by simp
qed

section \<open>Cursors as positions\<close>

text \<open>
  The position of a cursor, or of a hash, is its reversal as a number. A table of \<open>2 ^ k\<close> buckets cuts the
  positions into intervals of length \<open>2 ^ (64 - k)\<close>, one for each bucket, and a step goes to the end of an interval.
\<close>

definition pos :: "64 word \<Rightarrow> nat" where
  "pos v = unat (rev_bits v)"

definition interval_end :: "nat \<Rightarrow> 64 word \<Rightarrow> nat" where
  "interval_end k v = (pos v div 2 ^ (64 - k) + 1) * 2 ^ (64 - k)"

lemma rev_bits_invol [simp]: "rev_bits (rev_bits v) = v"
  by (rule bit_word_eqI) (simp add: bit_rev_bits)

lemma rev_bits_OR: "rev_bits (a OR b) = rev_bits a OR rev_bits b"
  by (rule bit_word_eqI) (simp add: bit_rev_bits bit_simps)

lemma rev_bits_NOT_mask: "k \<le> 64 \<Longrightarrow> rev_bits (NOT (mask k)) = mask (64 - k)"
  by (rule bit_word_eqI) (auto simp: bit_rev_bits bit_simps)

lemma rev_bits_0 [simp]: "rev_bits 0 = 0"
  by (rule bit_word_eqI) (simp add: bit_rev_bits)

lemma pos_less: "pos v < 2 ^ 64"
  unfolding pos_def using unsigned_less [of "rev_bits v", where 'a = nat] by simp

lemma pos_0: "pos v = 0 \<longleftrightarrow> v = 0"
  unfolding pos_def by (metis rev_bits_0 rev_bits_invol unat_eq_zero)

lemma sizemask_mask: "k < 64 \<Longrightarrow> (of_nat (2 ^ k - 1) :: 64 word) = mask k"
  by (simp add: of_nat_diff mask_eq_exp_minus_1)

lemma OR_mask_Suc: "(n OR mask j) + 1 = (n div 2 ^ j + 1) * (2 ^ j :: nat)"
proof -
  have "n OR mask j = push_bit j (drop_bit j n) OR mask j"
    by (rule bit_eqI) (auto simp: bit_simps)
  also have "\<dots> = push_bit j (drop_bit j n) + mask j"
    by (rule disjunctive_add [symmetric]) (auto simp: bit_simps)
  finally show ?thesis
    by (simp add: push_bit_eq_mult drop_bit_eq_div mask_eq_exp_minus_1 algebra_simps)
qed

lemma pos_scan_next:
  assumes "k < 64"
  shows "pos (scan_next (mask k) v) = interval_end k v mod 2 ^ 64"
proof -
  have "pos (scan_next (mask k) v) = unat ((rev_bits v OR mask (64 - k)) + 1)"
    using assms by (simp add: pos_def scan_next_def rev_bits_OR rev_bits_NOT_mask)
  also have "\<dots> = (unat (rev_bits v OR mask (64 - k)) + 1) mod 2 ^ 64"
    by (simp add: unat_word_ariths)
  also have "unat (rev_bits v OR mask (64 - k)) = pos v OR mask (64 - k)"
    unfolding pos_def by (rule bit_eqI) (auto simp: bit_simps)
  finally show ?thesis by (simp only: OR_mask_Suc interval_end_def)
qed

lemma interval_end_bounds:
  assumes "k \<le> 64"
  shows "pos v < interval_end k v" "interval_end k v \<le> 2 ^ 64"
proof -
  let ?b = "2 ^ (64 - k) :: nat"
  have "pos v = pos v div ?b * ?b + pos v mod ?b" "pos v mod ?b < ?b" by (rule div_mult_mod_eq [symmetric]) simp
  then show "pos v < interval_end k v" unfolding interval_end_def by (metis add_less_cancel_left add_mult_distrib mult_1)
  have p: "(2 :: nat) ^ 64 = 2 ^ k * ?b" using assms by (simp flip: power_add)
  then have "pos v div ?b < 2 ^ k" using pos_less [of v] by (metis less_mult_imp_div_less)
  then have "(pos v div ?b + 1) * ?b \<le> 2 ^ k * ?b" by (intro mult_le_mono1) simp
  then show "interval_end k v \<le> 2 ^ 64" unfolding interval_end_def p .
qed

lemma bucket_pos:
  assumes "k < 64"
  shows "bucket_index h (2 ^ k - 1) = bucket_index v (2 ^ k - 1) \<longleftrightarrow> pos h div 2 ^ (64 - k) = pos v div 2 ^ (64 - k)"
proof -
  have "bucket_index h (2 ^ k - 1) = bucket_index v (2 ^ k - 1) \<longleftrightarrow> take_bit k h = take_bit k v"
    unfolding bucket_index_def sizemask_mask [OF assms] by (simp add: take_bit_eq_mask word_unat_eq_iff)
  also have "\<dots> \<longleftrightarrow> (\<forall>n < k. bit h n = bit v n)"
    using assms by (auto simp: bit_eq_iff bit_simps dest: less_trans)
  also have "\<dots> \<longleftrightarrow> drop_bit (64 - k) (rev_bits h) = drop_bit (64 - k) (rev_bits v)"
  proof
    assume *: "\<forall>n < k. bit h n = bit v n"
    show "drop_bit (64 - k) (rev_bits h) = drop_bit (64 - k) (rev_bits v)"
    proof (rule bit_word_eqI)
      fix n assume "n < LENGTH(64)"
      show "bit (drop_bit (64 - k) (rev_bits h)) n = bit (drop_bit (64 - k) (rev_bits v)) n"
      proof (cases "n < k")
        case True
        then show ?thesis using * assms by (simp add: bit_simps bit_rev_bits)
      next
        case False
        then show ?thesis using bit_imp_le_length [of "rev_bits h" "64 - k + n"] bit_imp_le_length [of "rev_bits v" "64 - k + n"]
          by (auto simp: bit_simps)
      qed
    qed
  next
    assume *: "drop_bit (64 - k) (rev_bits h) = drop_bit (64 - k) (rev_bits v)"
    show "\<forall>n < k. bit h n = bit v n"
    proof (intro allI impI)
      fix n assume n: "n < k"
      have "bit (drop_bit (64 - k) (rev_bits h)) (k - 1 - n) = bit (drop_bit (64 - k) (rev_bits v)) (k - 1 - n)" using * by simp
      then show "bit h n = bit v n" using n assms by (simp add: bit_simps bit_rev_bits)
    qed
  qed
  also have "\<dots> \<longleftrightarrow> pos h div 2 ^ (64 - k) = pos v div 2 ^ (64 - k)"
    unfolding pos_def word_unat_eq_iff unat_drop_bit_eq by (simp only: drop_bit_eq_div)
  finally show ?thesis .
qed

section \<open>One call\<close>

text \<open>A table of \<open>2 ^ k\<close> buckets.\<close>

definition ht_bits :: "('k, 'v) dictType \<Rightarrow> ('k, 'v) dictht \<Rightarrow> nat \<Rightarrow> bool" where
  "ht_bits t h k \<longleftrightarrow> ht_wf t h \<and> k \<le> 63 \<and> ht_size h = 2 ^ k \<and> ht_sizemask h = 2 ^ k - 1"

lemma ht_bits_exists: "ht_wf t h \<Longrightarrow> 0 < ht_size h \<Longrightarrow> \<exists>k. ht_bits t h k"
  by (auto simp: ht_bits_def ht_wf_def ht_shape_def)

definition entry_pos :: "('k, 'v) dictType \<Rightarrow> ('k, 'v) dictEntry \<Rightarrow> nat" where
  "entry_pos t e = pos (hashFunction t (de_key e))"

lemma div_interval: "(x :: nat) div b = y div b \<Longrightarrow> 0 < b \<Longrightarrow> x < (y div b + 1) * b"
  by (metis add.commute add_mult_distrib div_mult_mod_eq mod_less_divisor mult_1 nat_add_left_cancel_less plus_nat.add_0)

lemma interval_end_interval:
  assumes "pos v \<le> p" "p < interval_end k v"
  shows "p div 2 ^ (64 - k) = pos v div 2 ^ (64 - k)"
proof -
  have "pos v div 2 ^ (64 - k) \<le> p div 2 ^ (64 - k)" using assms(1) by (rule div_le_mono)
  moreover have "p div 2 ^ (64 - k) < pos v div 2 ^ (64 - k) + 1"
    using assms(2) unfolding interval_end_def by (rule less_mult_imp_div_less)
  ultimately show ?thesis by simp
qed

lemma scan_bucket_correct:
  assumes "ht_bits t h k"
  obtains c where "scan_bucket h v = Some c" "set c \<subseteq> set (ht_entries h)"
    "\<And>e. e \<in> set (ht_entries h) \<Longrightarrow> pos v \<le> entry_pos t e \<Longrightarrow> entry_pos t e < interval_end k v \<Longrightarrow> e \<in> set c"
proof -
  have k: "k < 64" "ht_sizemask h = 2 ^ k - 1" "length (ht_table h) = 2 ^ k" and wf: "ht_wf t h"
    using assms by (auto simp: ht_bits_def ht_wf_def ht_shape_def)
  let ?i = "bucket_index v (2 ^ k - 1)"
  have i: "?i < length (ht_table h)" using bucket_index_mod [OF k(1)] k(3) by simp
  show thesis
  proof (rule that [of "ht_table h ! ?i"])
    show "scan_bucket h v = Some (ht_table h ! ?i)" using i k(2) by (simp add: scan_bucket_def nth_opt_Some)
    show "set (ht_table h ! ?i) \<subseteq> set (ht_entries h)" using i by (auto intro: nth_mem)
  next
    fix e assume e: "e \<in> set (ht_entries h)" and p: "pos v \<le> entry_pos t e" "entry_pos t e < interval_end k v"
    from e obtain c where "c \<in> set (ht_table h)" "e \<in> set c" by auto
    then obtain j where j: "j < length (ht_table h)" "e \<in> set (ht_table h ! j)" by (metis in_set_conv_nth)
    then have "j = bucket_index (hashFunction t (de_key e)) (2 ^ k - 1)"
      using wf k(2) by (simp add: ht_wf_def ht_placed_def)
    also have "\<dots> = ?i"
      using bucket_pos [OF k(1)] interval_end_interval [OF p] by (simp add: entry_pos_def)
    finally show "e \<in> set (ht_table h ! ?i)" using j(2) by simp
  qed
qed

lemma expansion_mask:
  assumes "k0 \<le> k1" "k1 < 64" "2 ^ (64 - k1) dvd pos v"
  shows "v AND (mask k0 XOR mask k1) = 0 \<longleftrightarrow> 2 ^ (64 - k0) dvd pos v"
proof -
  have low: "\<not> bit (rev_bits v) n" if "n < 64 - k1" for n
  proof -
    have "take_bit (64 - k1) (unat (rev_bits v)) = 0" using assms(3) by (simp add: pos_def take_bit_eq_mod dvd_eq_mod_eq_0)
    then show ?thesis using that by (metis bit_0_eq bit_take_bit_iff bit_unsigned_iff bot_apply bot_bool_def possible_bit_def
          bit_unsigned_iff possible_bit_nat)
  qed
  have "2 ^ (64 - k0) dvd pos v \<longleftrightarrow> take_bit (64 - k0) (rev_bits v) = 0"
    unfolding pos_def by (simp add: dvd_eq_mod_eq_0 unat_eq_zero flip: take_bit_eq_mod unsigned_take_bit_eq)
  also have "\<dots> \<longleftrightarrow> (\<forall>n < 64 - k0. \<not> bit (rev_bits v) n)"
    by (auto simp: bit_eq_iff bit_simps)
  also have "\<dots> \<longleftrightarrow> (\<forall>m. k0 \<le> m \<and> m < k1 \<longrightarrow> \<not> bit v m)"
  proof
    assume *: "\<forall>n < 64 - k0. \<not> bit (rev_bits v) n"
    show "\<forall>m. k0 \<le> m \<and> m < k1 \<longrightarrow> \<not> bit v m"
    proof (intro allI impI)
      fix m assume m: "k0 \<le> m \<and> m < k1"
      then have "63 - m < 64 - k0" using assms(2) by linarith
      then show "\<not> bit v m" using * [rule_format, of "63 - m"] m assms(2) by (simp add: bit_rev_bits)
    qed
  next
    assume *: "\<forall>m. k0 \<le> m \<and> m < k1 \<longrightarrow> \<not> bit v m"
    show "\<forall>n < 64 - k0. \<not> bit (rev_bits v) n"
    proof (intro allI impI)
      fix n assume n: "n < 64 - k0"
      show "\<not> bit (rev_bits v) n"
      proof (cases "n < 64 - k1")
        case False
        then have "k0 \<le> 63 - n \<and> 63 - n < k1" using n assms(2) by linarith
        then show ?thesis using * n by (simp add: bit_rev_bits)
      qed (rule low)
    qed
  qed
  also have "\<dots> \<longleftrightarrow> v AND (mask k0 XOR mask k1) = 0"
  proof -
    have "(\<forall>m. k0 \<le> m \<and> m < k1 \<longrightarrow> \<not> bit v m) \<longleftrightarrow> (\<forall>n < 64. bit v n \<longrightarrow> (n < k0) = (n < k1))"
      using assms(1,2) by (meson leD leI less_le_trans less_trans)
    then show ?thesis by (auto simp: bit_eq_iff bit_simps)
  qed
  finally show ?thesis by simp
qed

lemma interval_end_coarser:
  assumes "k0 \<le> k1" "k1 \<le> 64"
  shows "interval_end k1 v \<le> interval_end k0 v" "2 ^ (64 - k0) dvd interval_end k1 v \<longleftrightarrow> interval_end k1 v = interval_end k0 v"
proof -
  let ?a = "2 ^ (64 - k0) :: nat" and ?b = "2 ^ (64 - k1) :: nat"
  have ab: "?a = 2 ^ (k1 - k0) * ?b" using assms by (simp flip: power_add)
  have "pos v < interval_end k0 v" "?a dvd interval_end k0 v" using interval_end_bounds(1) [of k0 v] assms by (simp_all add: interval_end_def)
  then obtain q where q: "interval_end k0 v = q * (2 ^ (k1 - k0)) * ?b" unfolding ab by (metis dvdE mult.assoc mult.commute)
  have "pos v div ?b < q * 2 ^ (k1 - k0)" using \<open>pos v < interval_end k0 v\<close> unfolding q by (rule less_mult_imp_div_less)
  then have "(pos v div ?b + 1) * ?b \<le> q * 2 ^ (k1 - k0) * ?b" by (intro mult_le_mono1) simp
  then show le: "interval_end k1 v \<le> interval_end k0 v" unfolding q by (simp add: interval_end_def)
  show "?a dvd interval_end k1 v \<longleftrightarrow> interval_end k1 v = interval_end k0 v"
  proof
    assume "?a dvd interval_end k1 v"
    then obtain r where r: "interval_end k1 v = r * ?a" by (metis dvdE mult.commute)
    have "pos v < r * ?a" using interval_end_bounds(1) [of k1 v] assms r by simp
    then have "pos v div ?a < r" by (rule less_mult_imp_div_less)
    then have "(pos v div ?a + 1) * ?a \<le> r * ?a" by (intro mult_le_mono1) simp
    then have "interval_end k0 v \<le> interval_end k1 v" unfolding r by (simp add: interval_end_def)
    then show "interval_end k1 v = interval_end k0 v" using le by simp
  qed (simp add: interval_end_def)
qed

lemma scan_expand_correct:
  assumes t1: "ht_bits t t1 k1" and k: "k0 \<le> k1"
  shows "\<exists>v' es. scan_expand t1 (mask k0) (mask k1) v acc = Some (v', acc @ es) \<and> pos v' = interval_end k0 v mod 2 ^ 64
    \<and> set es \<subseteq> set (ht_entries t1)
    \<and> (\<forall>e \<in> set (ht_entries t1). pos v \<le> entry_pos t e \<and> entry_pos t e < interval_end k0 v \<longrightarrow> e \<in> set es)"
proof (induction "2 ^ 64 - pos v" arbitrary: v acc rule: less_induct)
  case less
  have k1: "k1 < 64" "k1 \<le> 64" "k0 \<le> 64" using t1 k by (simp_all add: ht_bits_def)
  obtain c where c: "scan_bucket t1 v = Some c" "set c \<subseteq> set (ht_entries t1)"
    "\<And>e. e \<in> set (ht_entries t1) \<Longrightarrow> pos v \<le> entry_pos t e \<Longrightarrow> entry_pos t e < interval_end k1 v \<Longrightarrow> e \<in> set c"
    using scan_bucket_correct [OF t1] by blast
  let ?v = "scan_next (mask k1) v"
  have p: "pos ?v = interval_end k1 v mod 2 ^ 64" by (rule pos_scan_next [OF k1(1)])
  note b = interval_end_bounds [OF k1(2), of v] interval_end_bounds [OF k1(3), of v]
  have "(2 :: nat) ^ (64 - k1) dvd 2 ^ 64" "(2 :: nat) ^ (64 - k0) dvd 2 ^ 64" by (rule le_imp_power_dvd; simp)+
  then have dvd: "2 ^ (64 - k1) dvd pos ?v" "2 ^ (64 - k0) dvd pos ?v \<longleftrightarrow> 2 ^ (64 - k0) dvd interval_end k1 v"
    unfolding p by (simp_all add: dvd_mod_iff) (simp add: interval_end_def)
  have stop: "?v AND (mask k0 XOR mask k1) = 0 \<longleftrightarrow> interval_end k1 v = interval_end k0 v"
    using expansion_mask [OF k k1(1) dvd(1)] dvd(2) interval_end_coarser(2) [OF k k1(2)] by simp
  have unf: "scan_expand t1 (mask k0) (mask k1) v acc =
    (if interval_end k1 v \<noteq> interval_end k0 v then scan_expand t1 (mask k0) (mask k1) ?v (acc @ c) else Some (?v, acc @ c))"
    using c(1) stop by (subst scan_expand.simps) simp
  show ?case
  proof (cases "interval_end k1 v = interval_end k0 v")
    case True
    then show ?thesis using unf p c by auto
  next
    case False
    then have lt: "interval_end k1 v < interval_end k0 v" using interval_end_coarser(1) [OF k k1(2)] by (simp add: le_neq_trans)
    then have pv: "pos ?v = interval_end k1 v" using p b(4) by simp
    have same: "interval_end k0 ?v = interval_end k0 v"
      using interval_end_interval [of v "interval_end k1 v" k0] lt b(1) unfolding interval_end_def [of k0] pv by simp
    have "2 ^ 64 - pos ?v < 2 ^ 64 - pos v" using b(1) lt b(4) unfolding pv by linarith
    from less [OF this, of "acc @ c"] obtain v' es where
      r: "scan_expand t1 (mask k0) (mask k1) ?v (acc @ c) = Some (v', (acc @ c) @ es)" "pos v' = interval_end k0 v mod 2 ^ 64"
        "set es \<subseteq> set (ht_entries t1)"
        "\<forall>e \<in> set (ht_entries t1). interval_end k1 v \<le> entry_pos t e \<and> entry_pos t e < interval_end k0 v \<longrightarrow> e \<in> set es"
      unfolding same pv by blast
    have "\<forall>e \<in> set (ht_entries t1). pos v \<le> entry_pos t e \<and> entry_pos t e < interval_end k0 v \<longrightarrow> e \<in> set (c @ es)"
      using c(3) r(4) by (metis Un_iff not_le set_append)
    then show ?thesis using unf False r(1-3) c(2) by (intro exI [of _ v'] exI [of _ "c @ es"]) auto
  qed
qed

text \<open>
  The number of bits of the smaller table. A call covers the positions from the cursor up to the end of
  its interval in that table.
\<close>

definition scan_bits :: "('k, 'v) dict \<Rightarrow> nat \<Rightarrow> bool" where
  "scan_bits d k \<longleftrightarrow> k \<le> 63 \<and>
     (if dictIsRehashing d then 2 ^ k = min (ht_size (d_ht0 d)) (ht_size (d_ht1 d)) else 2 ^ k = ht_size (d_ht0 d))"

lemma dictScan_rehashing:
  assumes t0: "ht_bits t t0 k0" and t1: "ht_bits t t1 k1" and k: "k0 \<le> k1"
  obtains v' es where
    "do { c \<leftarrow> scan_bucket t0 v; scan_expand t1 (of_nat (ht_sizemask t0)) (of_nat (ht_sizemask t1)) v c } = Some (v', es)"
    "pos v' = interval_end k0 v mod 2 ^ 64" "set es \<subseteq> set (ht_entries t0) \<union> set (ht_entries t1)"
    "\<forall>e \<in> set (ht_entries t0) \<union> set (ht_entries t1). pos v \<le> entry_pos t e \<and> entry_pos t e < interval_end k0 v \<longrightarrow> e \<in> set es"
proof -
  have m: "(of_nat (ht_sizemask t0) :: 64 word) = mask k0" "(of_nat (ht_sizemask t1) :: 64 word) = mask k1"
    using t0 t1 sizemask_mask [of k0] sizemask_mask [of k1] by (simp_all add: ht_bits_def)
  obtain c where c: "scan_bucket t0 v = Some c" "set c \<subseteq> set (ht_entries t0)"
    "\<And>e. e \<in> set (ht_entries t0) \<Longrightarrow> pos v \<le> entry_pos t e \<Longrightarrow> entry_pos t e < interval_end k0 v \<Longrightarrow> e \<in> set c"
    using scan_bucket_correct [OF t0] by blast
  obtain v' es where e: "scan_expand t1 (mask k0) (mask k1) v c = Some (v', c @ es)" "pos v' = interval_end k0 v mod 2 ^ 64"
    "set es \<subseteq> set (ht_entries t1)"
    "\<forall>e \<in> set (ht_entries t1). pos v \<le> entry_pos t e \<and> entry_pos t e < interval_end k0 v \<longrightarrow> e \<in> set es"
    using scan_expand_correct [OF t1 k, of v c] by blast
  show thesis
  proof (rule that [of v' "c @ es"])
    show "do { c \<leftarrow> scan_bucket t0 v; scan_expand t1 (of_nat (ht_sizemask t0)) (of_nat (ht_sizemask t1)) v c } = Some (v', c @ es)"
      using c(1) e(1) by (simp only: m Option.bind_lunit)
  qed (use c e in auto)
qed

lemma dictScan_correct:
  assumes wf: "dict_wf d" and ne: "dictSize d \<noteq> 0"
  obtains v' es k where "dictScan d v = Some (v', es)" "scan_bits d k" "pos v' = interval_end k v mod 2 ^ 64"
    "set es \<subseteq> set (dict_entries d)"
    "\<forall>e \<in> set (dict_entries d). pos v \<le> entry_pos (d_type d) e \<and> entry_pos (d_type d) e < interval_end k v \<longrightarrow> e \<in> set es"
proof -
  have shape: "ht_wf (d_type d) (d_ht0 d)" "ht_wf (d_type d) (d_ht1 d)" "dict_shape d"
    using wf by (simp_all add: dict_wf_def dict_shape_def)
  show thesis
  proof (cases "dictIsRehashing d")
    case False
    then have r: "d_ht1 d = dictReset" using shape(3) by (simp add: dict_shape_def)
    then have "ht_used (d_ht0 d) \<noteq> 0" using ne by (simp add: dictSize_def dictReset_def)
    then have "0 < ht_size (d_ht0 d)" using shape(1) by (auto simp: ht_wf_def ht_shape_def)
    then obtain k where k: "ht_bits (d_type d) (d_ht0 d) k" using ht_bits_exists [OF shape(1)] by blast
    have m: "(of_nat (ht_sizemask (d_ht0 d)) :: 64 word) = mask k" "k < 64"
      using k sizemask_mask [of k] by (simp_all add: ht_bits_def)
    have bits: "scan_bits d k" using k False by (simp add: ht_bits_def scan_bits_def)
    have ent: "dict_entries d = ht_entries (d_ht0 d)" by (simp add: dict_entries_def r dictReset_def)
    obtain c where c: "scan_bucket (d_ht0 d) v = Some c" "set c \<subseteq> set (ht_entries (d_ht0 d))"
      "\<And>e. e \<in> set (ht_entries (d_ht0 d)) \<Longrightarrow> pos v \<le> entry_pos (d_type d) e \<Longrightarrow> entry_pos (d_type d) e < interval_end k v \<Longrightarrow> e \<in> set c"
      using scan_bucket_correct [OF k] by blast
    have "dictScan d v = Some (scan_next (mask k) v, c)"
      using ne False c(1) by (simp add: dictScan_def flip: m(1))
    then show thesis using bits pos_scan_next [OF m(2)] c unfolding ent [symmetric] by (intro that) auto
  next
    case True
    then have "0 < ht_size (d_ht0 d)" "0 < ht_size (d_ht1 d)" using shape(3) by (simp_all add: dict_shape_def)
    then obtain k0 k1 where k: "ht_bits (d_type d) (d_ht0 d) k0" "ht_bits (d_type d) (d_ht1 d) k1"
      using ht_bits_exists shape(1,2) by blast
    have sz: "ht_size (d_ht0 d) = 2 ^ k0" "ht_size (d_ht1 d) = 2 ^ k1" "k0 \<le> 63" "k1 \<le> 63" using k by (simp_all add: ht_bits_def)
    have ent: "set (dict_entries d) = set (ht_entries (d_ht0 d)) \<union> set (ht_entries (d_ht1 d))" by (simp add: dict_entries_def)
    show thesis
    proof (cases "ht_size (d_ht0 d) > ht_size (d_ht1 d)")
      case gt: True
      then have le: "k1 \<le> k0" "2 ^ k1 = min (ht_size (d_ht0 d)) (ht_size (d_ht1 d))" unfolding sz by (simp_all add: min_def)
      obtain v' es where s: "do { c \<leftarrow> scan_bucket (d_ht1 d) v; scan_expand (d_ht0 d) (of_nat (ht_sizemask (d_ht1 d))) (of_nat (ht_sizemask (d_ht0 d))) v c } = Some (v', es)"
        "pos v' = interval_end k1 v mod 2 ^ 64" "set es \<subseteq> set (ht_entries (d_ht1 d)) \<union> set (ht_entries (d_ht0 d))"
        "\<forall>e \<in> set (ht_entries (d_ht1 d)) \<union> set (ht_entries (d_ht0 d)). pos v \<le> entry_pos (d_type d) e \<and> entry_pos (d_type d) e < interval_end k1 v \<longrightarrow> e \<in> set es"
        by (rule dictScan_rehashing [OF k(2,1) le(1)])
      have "dictScan d v = Some (v', es)" using ne True gt s(1) by (simp add: dictScan_def)
      moreover have "scan_bits d k1" using True le(2) sz(4) by (simp add: scan_bits_def)
      ultimately show thesis using s(2-4) unfolding Un_commute [of "set (ht_entries (d_ht1 d))"] ent [symmetric] by (rule that)
    next
      case False
      then have le: "k0 \<le> k1" "2 ^ k0 = min (ht_size (d_ht0 d)) (ht_size (d_ht1 d))" unfolding sz by (simp_all add: min_def)
      obtain v' es where s: "do { c \<leftarrow> scan_bucket (d_ht0 d) v; scan_expand (d_ht1 d) (of_nat (ht_sizemask (d_ht0 d))) (of_nat (ht_sizemask (d_ht1 d))) v c } = Some (v', es)"
        "pos v' = interval_end k0 v mod 2 ^ 64" "set es \<subseteq> set (ht_entries (d_ht0 d)) \<union> set (ht_entries (d_ht1 d))"
        "\<forall>e \<in> set (ht_entries (d_ht0 d)) \<union> set (ht_entries (d_ht1 d)). pos v \<le> entry_pos (d_type d) e \<and> entry_pos (d_type d) e < interval_end k0 v \<longrightarrow> e \<in> set es"
        by (rule dictScan_rehashing [OF k le(1)])
      have "dictScan d v = Some (v', es)" using ne True False s(1) by (simp add: dictScan_def)
      moreover have "scan_bits d k0" using True le(2) sz(3) by (simp add: scan_bits_def)
      ultimately show thesis using s(2-4) unfolding ent [symmetric] by (rule that)
    qed
  qed
qed

section \<open>A complete iteration\<close>

lemma scan_iteration_covers:
  assumes "scan_iteration v ds = Some (es, True)" "\<forall>d \<in> set ds. dict_wf d \<and> d_type d = t"
    and "\<forall>d \<in> set ds. \<exists>e \<in> set (dict_entries d). P e \<and> entry_pos t e = p" "pos v \<le> p" "p < 2 ^ 64"
  shows "\<exists>e \<in> set es. P e"
  using assms
proof (induction ds arbitrary: v es)
  case (Cons d ds)
  have wf: "dict_wf d" "d_type d = t" using Cons.prems(2) by auto
  obtain e where e: "e \<in> set (dict_entries d)" "P e" "entry_pos t e = p" using Cons.prems(3) by auto
  have "dictSize d \<noteq> 0" using e(1) dictSize_entries [of d] wf(1) by (auto simp: dict_wf_def)
  then obtain v' es1 k where s: "dictScan d v = Some (v', es1)" "scan_bits d k" "pos v' = interval_end k v mod 2 ^ 64"
    "set es1 \<subseteq> set (dict_entries d)"
    "\<forall>e \<in> set (dict_entries d). pos v \<le> entry_pos (d_type d) e \<and> entry_pos (d_type d) e < interval_end k v \<longrightarrow> e \<in> set es1"
    by (rule dictScan_correct [OF wf(1)])
  note s = s(1-3) s(5) [unfolded wf(2)]
  have k: "pos v < interval_end k v" "interval_end k v \<le> 2 ^ 64" using interval_end_bounds s(2) by (auto simp: scan_bits_def)
  show ?case
  proof (cases "v' = 0")
    case True
    then have "interval_end k v = 2 ^ 64" using s(3) k pos_0 [of v'] by (metis dvd_imp_le le_antisym mod_0_imp_dvd not_gr_zero not_less_zero)
    then have "e \<in> set es1" using s(4) e Cons.prems(4,5) by auto
    then show ?thesis using True s(1) Cons.prems(1) e(2) by auto
  next
    case False
    then have "interval_end k v \<noteq> 2 ^ 64" using s(3) pos_0 [of v'] by auto
    then have pv: "pos v' = interval_end k v" using s(3) k(2) by simp
    obtain es2 where r: "scan_iteration v' ds = Some (es2, True)" "es = es1 @ es2"
      using Cons.prems(1) s(1) False by (auto split: bind_splits)
    show ?thesis
    proof (cases "p < interval_end k v")
      case True
      then have "e \<in> set es1" using s(4) e Cons.prems(4) by auto
      then show ?thesis using r(2) e(2) by auto
    next
      case False
      then have "\<exists>e \<in> set es2. P e" using Cons.IH [OF r(1)] Cons.prems(2-5) pv by auto
      then show ?thesis using r(2) by auto
    qed
  qed
qed simp

lemma scan_iteration_ends:
  assumes "\<forall>d \<in> set ds. dict_wf d \<and> (\<forall>k. scan_bits d k \<longrightarrow> k \<le> K)" "K \<le> 63"
    and "2 ^ (64 - K) dvd pos v" "2 ^ 64 - pos v \<le> length ds * 2 ^ (64 - K)"
  shows "\<exists>es. scan_iteration v ds = Some (es, True)"
  using assms
proof (induction ds arbitrary: v)
  case Nil
  then show ?case using pos_less [of v] by simp
next
  case (Cons d ds)
  show ?case
  proof (cases "dictSize d = 0")
    case True
    then show ?thesis by (simp add: dictScan_def)
  next
    case False
    have wf: "dict_wf d" using Cons.prems(1) by simp
    obtain v' es k where s: "dictScan d v = Some (v', es)" "scan_bits d k" "pos v' = interval_end k v mod 2 ^ 64"
      "set es \<subseteq> set (dict_entries d)"
      "\<forall>e \<in> set (dict_entries d). pos v \<le> entry_pos (d_type d) e \<and> entry_pos (d_type d) e < interval_end k v \<longrightarrow> e \<in> set es"
      by (rule dictScan_correct [OF wf False])
    have "k \<le> K" using Cons.prems(1) s(2) by auto
    then have "(2 :: nat) ^ (64 - K) dvd 2 ^ (64 - k)" by (simp add: le_imp_power_dvd)
    then have dvd: "2 ^ (64 - K) dvd interval_end k v" unfolding interval_end_def by (rule dvd_mult)
    have b: "pos v < interval_end k v" "interval_end k v \<le> 2 ^ 64" using interval_end_bounds s(2) by (auto simp: scan_bits_def)
    show ?thesis
    proof (cases "v' = 0")
      case True
      then show ?thesis using s(1) by simp
    next
      case nz: False
      then have "interval_end k v \<noteq> 2 ^ 64" using s(3) pos_0 [of v'] by auto
      then have pv: "pos v' = interval_end k v" using s(3) b(2) by simp
      obtain a c where "pos v = 2 ^ (64 - K) * a" "interval_end k v = 2 ^ (64 - K) * c" using Cons.prems(3) dvd by (auto elim!: dvdE)
      moreover from this have "2 ^ (64 - K) * (a + 1) \<le> 2 ^ (64 - K) * c" using b(1) by (intro mult_le_mono2) simp
      ultimately have "pos v + 2 ^ (64 - K) \<le> interval_end k v" by (simp add: algebra_simps)
      then have "2 ^ 64 - pos v' \<le> length ds * 2 ^ (64 - K)" using Cons.prems(4) b(2) unfolding pv by simp
      then have "\<exists>es. scan_iteration v' ds = Some (es, True)"
        using Cons.IH [of v'] Cons.prems(1,2) dvd unfolding pv by auto
      then show ?thesis using s(1) nz by auto
    qed
  qed
qed

section \<open>Properties\<close>

text \<open>
  C21: the guarantee of \<open>dictScan\<close>. Between the calls of an iteration that starts and ends at cursor 0 the
  dictionary may change in any way: keys come and go, tables grow, shrink and are rehashed. Every key
  that is present at all the calls is reported by one of them.
\<close>

theorem dictScan_complete:
  assumes "scan_iteration 0 ds = Some (es, True)" "\<forall>d \<in> set ds. dict_inv t d" "\<forall>d \<in> set ds. dict_lookup d key \<noteq> None"
  shows "\<exists>e \<in> set es. key_matches t key e"
proof (rule scan_iteration_covers [OF assms(1)])
  show "\<forall>d \<in> set ds. \<exists>e \<in> set (dict_entries d). key_matches t key e \<and> entry_pos t e = pos (hashFunction t key)"
  proof
    fix d assume d: "d \<in> set ds"
    then have t: "key_contract t" "d_type d = t" using assms(2) by (auto simp: dict_inv_def)
    obtain e where e: "e \<in> set (dict_entries d)" "key_matches t key e"
      using assms(3) d t(2) by (auto simp: dict_lookup_def es_lookup_def filter_empty_conv split: list.splits)
    then have "hashFunction t key = hashFunction t (de_key e)"
      using keq_hash [OF t(1)] by (simp add: key_matches_keq)
    then show "\<exists>e \<in> set (dict_entries d). key_matches t key e \<and> entry_pos t e = pos (hashFunction t key)"
      using e by (auto simp: entry_pos_def)
  qed
qed (use assms(2) pos_less in \<open>auto simp: dict_inv_def pos_def\<close>)

lemma sample_contract: "key_contract sample_type"
  unfolding key_contract_def keq_def dictCompareKeys_def dictKeyOf_def by (auto simp: sample_type_def)

lemma sample_inv: "dict_inv sample_type sample_dict"
  using sample_wf by (simp add: dict_inv_def sample_contract sample_dict_def)

lemma sample_bits: "scan_bits sample_dict k \<Longrightarrow> k \<le> 2"
proof -
  assume "scan_bits sample_dict k"
  then have "(2 :: nat) ^ k = 2 ^ 2" by (simp add: scan_bits_def dictIsRehashing_def sample_dict_def)
  then show ?thesis by (simp only: power_inject_exp)
qed

theorem dictScan_complete_witness:
  "\<exists>es. scan_iteration 0 (replicate 4 sample_dict) = Some (es, True) \<and> (\<exists>e \<in> set es. key_matches sample_type 7 e)"
proof -
  have "\<exists>es. scan_iteration 0 (replicate 4 sample_dict) = Some (es, True)"
    by (rule scan_iteration_ends [of _ 2]) (use sample_wf sample_bits in \<open>auto simp: pos_def\<close>)
  moreover have "dict_lookup sample_dict 7 \<noteq> None"
    by (simp add: dict_lookup_def es_lookup_def dict_entries_def sample_dict_def key_matches_def dictCompareKeys_def sample_type_def)
  ultimately show ?thesis
    using dictScan_complete [of "replicate 4 sample_dict" _ sample_type 7] sample_inv by auto
qed

text \<open>
  C22: an iteration ends. While the smaller table has at most \<open>2 ^ K\<close> buckets, the cursor is 0 again after at most
  \<open>2 ^ K\<close> calls, no call leaves the tables, and the loop over the larger table ends in each.
\<close>

theorem dictScan_terminates:
  assumes "\<forall>d \<in> set ds. dict_wf d \<and> (\<forall>k. scan_bits d k \<longrightarrow> k \<le> K)" "K \<le> 63" "2 ^ K \<le> length ds"
  shows "\<exists>es. scan_iteration 0 ds = Some (es, True)"
proof (rule scan_iteration_ends [OF assms(1,2)])
  have "(2 :: nat) ^ 64 = 2 ^ K * 2 ^ (64 - K)" using assms(2) by (simp flip: power_add)
  also have "\<dots> \<le> length ds * 2 ^ (64 - K)" using assms(3) by (rule mult_le_mono1)
  finally show "2 ^ 64 - pos 0 \<le> length ds * 2 ^ (64 - K)" by simp
qed (simp add: pos_def)

theorem dictScan_terminates_witness:
  "\<exists>es. scan_iteration 0 (replicate 4 sample_dict) = Some (es, True)"
  using dictScan_terminates [of "replicate 4 sample_dict" 2] sample_wf sample_bits by auto

end
