(* ===== verification/Dict_Iter.thy ===== *)
theory Dict_Iter
  imports Dict_Map
begin

text \<open>
  Iterators and sampling (\<^verbatim>\<open>dict.c\<close>). A pointer to an entry is the part of its chain that starts there, the empty
  chain is \<open>NULL\<close>. The addresses of the tables, which only the fingerprint reads, and the values of \<open>random()\<close>
  are parameters.
\<close>

section \<open>Iterators\<close>

record ('k, 'v) dictIterator =
  di_table :: nat
  di_index :: int
  di_safe :: bool
  di_entry :: "('k, 'v) chain"
  di_nextEntry :: "('k, 'v) chain"
  di_fingerprint :: "64 word"

definition wang_hash :: "64 word \<Rightarrow> 64 word" where
  "wang_hash h =
     (let h = NOT h + push_bit 21 h;
          h = h XOR signed_drop_bit 24 h;
          h = (h + push_bit 3 h) + push_bit 8 h;
          h = h XOR signed_drop_bit 14 h;
          h = (h + push_bit 2 h) + push_bit 4 h;
          h = h XOR signed_drop_bit 28 h
      in h + push_bit 31 h)"

definition dictFingerprint :: "64 word \<times> 64 word \<Rightarrow> ('k, 'v) dict \<Rightarrow> 64 word" where
  "dictFingerprint addr d =
     fold (\<lambda>i h. wang_hash (h + i))
       [fst addr, of_nat (ht_size (d_ht0 d)), of_nat (ht_used (d_ht0 d)),
        snd addr, of_nat (ht_size (d_ht1 d)), of_nat (ht_used (d_ht1 d))] 0"

definition dictGetIterator :: "('k, 'v) dictIterator" where
  "dictGetIterator = \<lparr>di_table = 0, di_index = -1, di_safe = False, di_entry = [], di_nextEntry = [], di_fingerprint = 0\<rparr>"

definition dictGetSafeIterator :: "('k, 'v) dictIterator" where
  "dictGetSafeIterator = dictGetIterator\<lparr>di_safe := True\<rparr>"

text \<open>\<open>if (iter->index == -1 && iter->table == 0) { ... }\<close>\<close>

definition dict_iter_start :: "64 word \<times> 64 word \<Rightarrow> ('k, 'v) dictIterator \<Rightarrow> ('k, 'v) dict
    \<Rightarrow> ('k, 'v) dictIterator \<times> ('k, 'v) dict" where
  "dict_iter_start addr it d =
     (if di_index it = -1 \<and> di_table it = 0 then
        (if di_safe it then (it, d\<lparr>d_iterators := d_iterators d + 1\<rparr>)
         else (it\<lparr>di_fingerprint := dictFingerprint addr d\<rparr>, d))
      else (it, d))"

text \<open>\<open>iter->index++\<close> up to the read of the bucket; the flag is the \<open>break\<close>.\<close>

definition dict_iter_bucket :: "('k, 'v) dictIterator \<Rightarrow> ('k, 'v) dict \<Rightarrow> (('k, 'v) dictIterator \<times> bool) option" where
  "dict_iter_bucket it d =
     (let it = it\<lparr>di_index := di_index it + 1\<rparr> in
      if di_index it \<ge> int (ht_size (ht_of d (di_table it))) then
        (if dictIsRehashing d \<and> di_table it = 0 then do {
           it \<leftarrow> Some (it\<lparr>di_table := 1, di_index := 0\<rparr>);
           c \<leftarrow> nth_opt (ht_table (d_ht1 d)) (nat (di_index it));
           Some (it\<lparr>di_entry := c\<rparr>, False) }
         else Some (it, True))
      else do {
        c \<leftarrow> nth_opt (ht_table (ht_of d (di_table it))) (nat (di_index it));
        Some (it\<lparr>di_entry := c\<rparr>, False) })"

partial_function (option) dictNext :: "64 word \<times> 64 word \<Rightarrow> ('k, 'v) dictIterator \<Rightarrow> ('k, 'v) dict
    \<Rightarrow> (('k, 'v) dictEntry option \<times> ('k, 'v) dictIterator \<times> ('k, 'v) dict) option" where
  "dictNext addr it d = do {
     (it, d, stop) \<leftarrow>
       (if di_entry it = [] then do {
          (it, d) \<leftarrow> Some (dict_iter_start addr it d);
          (it, stop) \<leftarrow> dict_iter_bucket it d;
          Some (it, d, stop) }
        else Some (it\<lparr>di_entry := di_nextEntry it\<rparr>, d, False));
     if stop then Some (None, it, d)
     else (case di_entry it of
         [] \<Rightarrow> dictNext addr it d
       | e # rest \<Rightarrow> Some (Some e, it\<lparr>di_nextEntry := rest\<rparr>, d)) }"

definition dictReleaseIterator :: "64 word \<times> 64 word \<Rightarrow> ('k, 'v) dictIterator \<Rightarrow> ('k, 'v) dict \<Rightarrow> ('k, 'v) dict option" where
  "dictReleaseIterator addr it d =
     (if \<not> (di_index it = -1 \<and> di_table it = 0) then
        (if di_safe it then Some (d\<lparr>d_iterators := d_iterators d - 1\<rparr>)
         else if di_fingerprint it = dictFingerprint addr d then Some d else None)
      else Some d)"

text \<open>\<open>while((de = dictNext(di)) != NULL) { ... }\<close>, with the entries it returns\<close>

partial_function (option) dict_iterate :: "64 word \<times> 64 word \<Rightarrow> ('k, 'v) dictIterator \<Rightarrow> ('k, 'v) dict
    \<Rightarrow> (('k, 'v) chain \<times> ('k, 'v) dictIterator \<times> ('k, 'v) dict) option" where
  "dict_iterate addr it d = do {
     (e, it, d) \<leftarrow> dictNext addr it d;
     case e of None \<Rightarrow> Some ([], it, d)
     | Some e \<Rightarrow> do { (es, it, d) \<leftarrow> dict_iterate addr it d; Some (e # es, it, d) } }"

section \<open>Random keys\<close>

text \<open>\<open>rnd n\<close> is the value of the \<open>n\<close>th call of \<open>random()\<close>.\<close>

definition pick_bucket :: "('k, 'v) dict \<Rightarrow> nat \<Rightarrow> ('k, 'v) chain option" where
  "pick_bucket d r =
     (if dictIsRehashing d then do {
        h \<leftarrow> Some (nat (d_rehashidx d) + r mod (ht_size (d_ht0 d) + ht_size (d_ht1 d) - nat (d_rehashidx d)));
        if h \<ge> ht_size (d_ht0 d) then nth_opt (ht_table (d_ht1 d)) (h - ht_size (d_ht0 d))
        else nth_opt (ht_table (d_ht0 d)) h }
      else nth_opt (ht_table (d_ht0 d)) (bucket_index (of_nat r) (ht_sizemask (d_ht0 d))))"

partial_function (option) random_bucket :: "(nat \<Rightarrow> nat) \<Rightarrow> ('k, 'v) dict \<Rightarrow> nat \<Rightarrow> (('k, 'v) chain \<times> nat) option" where
  "random_bucket rnd d n = do {
     he \<leftarrow> pick_bucket d (rnd n);
     if he = [] then random_bucket rnd d (n + 1) else Some (he, n + 1) }"

definition dictGetRandomKey :: "(nat \<Rightarrow> nat) \<Rightarrow> ('k, 'v) dict \<Rightarrow> (('k, 'v) dict \<times> ('k, 'v) dictEntry option) option" where
  "dictGetRandomKey rnd d =
     (if dictSize d = 0 then Some (d, None)
      else do {
        d \<leftarrow> (if dictIsRehashing d then dictRehashStep d else Some d);
        (he, n) \<leftarrow> random_bucket rnd d 0;
        e \<leftarrow> nth_opt he (rnd n mod length he);
        Some (d, Some e) })"

section \<open>Sampling\<close>

record ('k, 'v) sampling =
  sa_i :: nat
  sa_emptylen :: nat
  sa_des :: "('k, 'v) chain"
  sa_calls :: nat

text \<open>The rehashing work: \<open>for (j = 0; j < cnt; j++) { if (dictIsRehashing(d)) _dictRehashStep(d); else break; }\<close>\<close>

fun some_keys_rehash :: "nat \<Rightarrow> ('k, 'v) dict \<Rightarrow> ('k, 'v) dict option" where
  "some_keys_rehash 0 d = Some d"
| "some_keys_rehash (Suc cnt) d =
     (if dictIsRehashing d then do { d \<leftarrow> dictRehashStep d; some_keys_rehash cnt d } else Some d)"

text \<open>A bucket: a jump after too many empty ones, or its entries; the flag is the return because \<open>count\<close> entries are stored.\<close>

definition some_keys_bucket :: "(nat \<Rightarrow> nat) \<Rightarrow> nat \<Rightarrow> nat \<Rightarrow> ('k, 'v) chain \<Rightarrow> ('k, 'v) sampling \<Rightarrow> ('k, 'v) sampling \<times> bool" where
  "some_keys_bucket rnd maxsizemask cnt he s =
     (if he = [] then
        (let s = s\<lparr>sa_emptylen := sa_emptylen s + 1\<rparr> in
         if sa_emptylen s \<ge> 5 \<and> sa_emptylen s > cnt
         then (s\<lparr>sa_i := bucket_index (of_nat (rnd (sa_calls s))) maxsizemask, sa_calls := sa_calls s + 1, sa_emptylen := 0\<rparr>, False)
         else (s, False))
      else
        (let taken = take (cnt - length (sa_des s)) he;
             s = s\<lparr>sa_emptylen := 0, sa_des := sa_des s @ taken\<rparr>
         in (s, length (sa_des s) = cnt)))"

text \<open>The body of \<open>for (j = 0; j < tables; j++)\<close>\<close>

definition some_keys_table :: "(nat \<Rightarrow> nat) \<Rightarrow> ('k, 'v) dict \<Rightarrow> nat \<Rightarrow> nat \<Rightarrow> nat \<Rightarrow> nat \<Rightarrow> ('k, 'v) sampling
    \<Rightarrow> (('k, 'v) sampling \<times> bool) option" where
  "some_keys_table rnd d tables maxsizemask cnt j s =
     (let jump = (tables = 2 \<and> j = 0 \<and> int (sa_i s) < d_rehashidx d) in
      if jump \<and> \<not> sa_i s \<ge> ht_size (d_ht1 d) then Some (s, False)
      else
        (let s = (if jump then s\<lparr>sa_i := nat (d_rehashidx d)\<rparr> else s) in
         if sa_i s \<ge> ht_size (ht_of d j) then Some (s, False)
         else do {
           he \<leftarrow> nth_opt (ht_table (ht_of d j)) (sa_i s);
           Some (some_keys_bucket rnd maxsizemask cnt he s) }))"

text \<open>\<open>while(stored < cnt && maxsteps--)\<close>\<close>

fun some_keys_loop :: "(nat \<Rightarrow> nat) \<Rightarrow> ('k, 'v) dict \<Rightarrow> nat \<Rightarrow> nat \<Rightarrow> nat \<Rightarrow> nat \<Rightarrow> ('k, 'v) sampling \<Rightarrow> ('k, 'v) chain option" where
  "some_keys_loop rnd d tables maxsizemask cnt 0 s = Some (sa_des s)"
| "some_keys_loop rnd d tables maxsizemask cnt (Suc maxsteps) s =
     (if length (sa_des s) < cnt then do {
        (s, full) \<leftarrow> some_keys_table rnd d tables maxsizemask cnt 0 s;
        if full then Some (sa_des s)
        else do {
          (s, full) \<leftarrow> (if tables = 2 then some_keys_table rnd d tables maxsizemask cnt 1 s else Some (s, False));
          if full then Some (sa_des s)
          else some_keys_loop rnd d tables maxsizemask cnt maxsteps
            (s\<lparr>sa_i := bucket_index (of_nat (sa_i s + 1)) maxsizemask\<rparr>) } }
      else Some (sa_des s))"

text \<open>\<open>count\<close> is an \<open>unsigned int\<close>, so \<open>count*10\<close> wraps around.\<close>

definition dictGetSomeKeys :: "(nat \<Rightarrow> nat) \<Rightarrow> ('k, 'v) dict \<Rightarrow> nat \<Rightarrow> (('k, 'v) dict \<times> ('k, 'v) chain) option" where
  "dictGetSomeKeys rnd d cnt =
     (let cnt = (if dictSize d < cnt then dictSize d else cnt);
          maxsteps = cnt * 10 mod 2 ^ 32
      in do {
        d \<leftarrow> some_keys_rehash cnt d;
        tables \<leftarrow> Some (if dictIsRehashing d then 2 else (1 :: nat));
        maxsizemask \<leftarrow> Some
          (if tables > 1 \<and> ht_sizemask (d_ht0 d) < ht_sizemask (d_ht1 d) then ht_sizemask (d_ht1 d) else ht_sizemask (d_ht0 d));
        des \<leftarrow> some_keys_loop rnd d tables maxsizemask cnt maxsteps
          \<lparr>sa_i = bucket_index (of_nat (rnd 0)) maxsizemask, sa_emptylen = 0, sa_des = [], sa_calls = 1\<rparr>;
        Some (d, des) })"

section \<open>Iteration\<close>

text \<open>The entries behind the bucket of the iterator, and those it has still to return.\<close>

definition later_buckets :: "('k, 'v) dict \<Rightarrow> ('k, 'v) dictIterator \<Rightarrow> ('k, 'v) chain list" where
  "later_buckets d it =
     drop (nat (di_index it + 1)) (ht_table (ht_of d (di_table it)))
     @ (if dictIsRehashing d \<and> di_table it = 0 then ht_table (d_ht1 d) else [])"

definition remaining :: "('k, 'v) dict \<Rightarrow> ('k, 'v) dictIterator \<Rightarrow> ('k, 'v) chain" where
  "remaining d it = (if di_entry it = [] then [] else di_nextEntry it) @ concat (later_buckets d it)"

definition iter_ok :: "('k, 'v) dict \<Rightarrow> ('k, 'v) dictIterator \<Rightarrow> bool" where
  "iter_ok d it \<longleftrightarrow> dict_shape d \<and> -1 \<le> di_index it \<and> (di_table it = 0 \<or> di_table it = 1 \<and> dictIsRehashing d)"

abbreviation same_iter :: "('k, 'v) dictIterator \<Rightarrow> ('k, 'v) dictIterator \<Rightarrow> bool" where
  "same_iter it it' \<equiv> di_safe it' = di_safe it \<and> di_fingerprint it' = di_fingerprint it"

lemma table_length: "dict_shape d \<Longrightarrow> length (ht_table (ht_of d j)) = ht_size (ht_of d j)"
  by (auto simp: dict_shape_def ht_wf_def ht_shape_def ht_of_def)

lemma dict_iter_bucket_correct:
  assumes "iter_ok d it"
  obtains it' stop where "dict_iter_bucket it d = Some (it', stop)" "same_iter it it'" "0 \<le> di_index it'"
    "stop \<longrightarrow> later_buckets d it = []"
    "\<not> stop \<longrightarrow> iter_ok d it' \<and> later_buckets d it = di_entry it' # later_buckets d it'"
proof -
  let ?t = "ht_table (ht_of d (di_table it))" and ?i = "nat (di_index it + 1)"
  have l: "length ?t = ht_size (ht_of d (di_table it))" using assms table_length by (auto simp: iter_ok_def)
  consider "?i < length ?t" | "\<not> ?i < length ?t" "dictIsRehashing d \<and> di_table it = 0"
    | "\<not> ?i < length ?t" "\<not> (dictIsRehashing d \<and> di_table it = 0)" by blast
  then show thesis
  proof cases
    case 1
    then show thesis
      using assms l take_drop_eq_nth_cons [OF 1]
      by (intro that [of "it\<lparr>di_index := di_index it + 1, di_entry := ?t ! ?i\<rparr>" False])
        (auto simp: dict_iter_bucket_def Let_def nth_opt_Some iter_ok_def later_buckets_def nat_add_distrib Suc_nat_eq_nat_zadd1)
  next
    case 2
    then have ne: "0 < length (ht_table (d_ht1 d))" using assms table_length [of d 1] by (auto simp: iter_ok_def dict_shape_def ht_of_def)
    then have "drop 0 (ht_table (d_ht1 d)) = ht_table (d_ht1 d) ! 0 # drop 1 (ht_table (d_ht1 d))"
      using take_drop_eq_nth_cons [OF ne] by simp
    then show thesis
      using assms l 2 ne
      by (intro that [of "it\<lparr>di_index := 0, di_table := 1, di_entry := ht_table (d_ht1 d) ! 0\<rparr>" False])
        (auto simp: dict_iter_bucket_def Let_def nth_opt_Some iter_ok_def later_buckets_def ht_of_def)
  next
    case 3
    then show thesis
      using assms l
      by (intro that [of "it\<lparr>di_index := di_index it + 1\<rparr>" True]) (auto simp: dict_iter_bucket_def Let_def iter_ok_def later_buckets_def)
  qed
qed

text \<open>A call on an iterator that has been started.\<close>

definition next_ok :: "('k, 'v) dict \<Rightarrow> ('k, 'v) dictIterator \<Rightarrow> ('k, 'v) chain
    \<Rightarrow> (('k, 'v) dictEntry option \<times> ('k, 'v) dictIterator \<times> ('k, 'v) dict) option \<Rightarrow> bool" where
  "next_ok d it es r = (case es of
     [] \<Rightarrow> \<exists>it'. r = Some (None, it', d) \<and> same_iter it it' \<and> 0 \<le> di_index it'
   | e # es' \<Rightarrow> \<exists>it'. r = Some (Some e, it', d) \<and> same_iter it it' \<and> 0 \<le> di_index it' \<and> iter_ok d it'
       \<and> di_entry it' \<noteq> [] \<and> remaining d it' = es')"

lemma next_ok_same: "next_ok d it1 es r \<Longrightarrow> same_iter it it1 \<Longrightarrow> next_ok d it es r"
  by (auto simp: next_ok_def split: list.splits)

lemma dictNext_found:
  assumes "iter_ok d it" "0 \<le> di_index it" "di_entry it = e # rest"
  shows "next_ok d it ((e # rest) @ concat (later_buckets d it)) (Some (Some e, it\<lparr>di_nextEntry := rest\<rparr>, d))"
  using assms by (auto simp: next_ok_def remaining_def iter_ok_def later_buckets_def)

lemma dictNext_correct:
  "iter_ok d it \<Longrightarrow> 0 \<le> di_index it \<Longrightarrow> next_ok d it (remaining d it) (dictNext addr it d)"
proof (induction "2 * length (later_buckets d it) + of_bool (di_entry it \<noteq> [])" arbitrary: it rule: less_induct)
  case less
  show ?case
  proof (cases "di_entry it = []")
    case False
    let ?it = "it\<lparr>di_entry := di_nextEntry it\<rparr>"
    have b: "later_buckets d ?it = later_buckets d it" by (simp add: later_buckets_def)
    have unf: "dictNext addr it d = (case di_nextEntry it of [] \<Rightarrow> dictNext addr ?it d | e # rest \<Rightarrow> Some (Some e, ?it\<lparr>di_nextEntry := rest\<rparr>, d))"
      using False by (subst dictNext.simps) simp
    show ?thesis
    proof (cases "di_nextEntry it")
      case Nil
      then have "next_ok d ?it (remaining d ?it) (dictNext addr ?it d)"
        using less.hyps [of ?it] less.prems False b by (simp add: iter_ok_def)
      then have "next_ok d it (remaining d ?it) (dictNext addr ?it d)" by (rule next_ok_same) simp
      then show ?thesis using unf Nil False b by (simp add: remaining_def)
    next
      case (Cons e rest)
      have "iter_ok d ?it" using less.prems(1) by (simp add: iter_ok_def)
      then have "next_ok d ?it ((e # rest) @ concat (later_buckets d ?it)) (Some (Some e, ?it\<lparr>di_nextEntry := rest\<rparr>, d))"
        using less.prems(2) Cons by (intro dictNext_found) simp_all
      then have "next_ok d it ((e # rest) @ concat (later_buckets d ?it)) (Some (Some e, ?it\<lparr>di_nextEntry := rest\<rparr>, d))"
        by (rule next_ok_same) simp
      then show ?thesis using unf Cons False b by (simp add: remaining_def)
    qed
  next
    case True
    obtain it' stop where s: "dict_iter_bucket it d = Some (it', stop)" "same_iter it it'" "0 \<le> di_index it'"
      "stop \<longrightarrow> later_buckets d it = []"
      "\<not> stop \<longrightarrow> iter_ok d it' \<and> later_buckets d it = di_entry it' # later_buckets d it'"
      by (rule dict_iter_bucket_correct [OF less.prems(1)])
    have unf: "dictNext addr it d = (if stop then Some (None, it', d)
        else (case di_entry it' of [] \<Rightarrow> dictNext addr it' d | e # rest \<Rightarrow> Some (Some e, it'\<lparr>di_nextEntry := rest\<rparr>, d)))"
      using True s(1) less.prems(2) by (subst dictNext.simps) (simp add: dict_iter_start_def)
    show ?thesis
    proof (cases stop)
      case stop: True
      then show ?thesis using unf s True by (simp add: next_ok_def remaining_def)
    next
      case go: False
      show ?thesis
      proof (cases "di_entry it'")
        case Nil
        then have "next_ok d it' (remaining d it') (dictNext addr it' d)" using less.hyps [of it'] go s True by simp
        then have "next_ok d it (remaining d it') (dictNext addr it' d)" using s(2) by (rule next_ok_same)
        then show ?thesis using Nil go s(5) True unf by (simp add: remaining_def)
      next
        case (Cons e rest)
        then have "next_ok d it' ((e # rest) @ concat (later_buckets d it')) (Some (Some e, it'\<lparr>di_nextEntry := rest\<rparr>, d))"
          using go s by (intro dictNext_found) simp_all
        then have "next_ok d it ((e # rest) @ concat (later_buckets d it')) (Some (Some e, it'\<lparr>di_nextEntry := rest\<rparr>, d))"
          using s(2) by (rule next_ok_same)
        then show ?thesis using Cons go s(5) True unf by (simp add: remaining_def)
      qed
    qed
  qed
qed

lemma dict_iterate_correct:
  "iter_ok d it \<Longrightarrow> 0 \<le> di_index it \<Longrightarrow>
   \<exists>it'. dict_iterate addr it d = Some (remaining d it, it', d) \<and> same_iter it it' \<and> 0 \<le> di_index it'"
proof (induction "remaining d it" arbitrary: it)
  case Nil
  have "next_ok d it [] (dictNext addr it d)" using dictNext_correct [OF Nil.prems] unfolding Nil.hyps [symmetric] .
  then obtain it' where "dictNext addr it d = Some (None, it', d)" "same_iter it it'" "0 \<le> di_index it'" by (auto simp: next_ok_def)
  then show ?case unfolding Nil.hyps [symmetric] by (subst dict_iterate.simps) simp
next
  case (Cons e es)
  have "next_ok d it (e # es) (dictNext addr it d)" using dictNext_correct [OF Cons.prems] unfolding Cons.hyps(2) [symmetric] .
  then obtain it' where s: "dictNext addr it d = Some (Some e, it', d)" "same_iter it it'" "0 \<le> di_index it'" "iter_ok d it'"
    "remaining d it' = es" by (auto simp: next_ok_def)
  then show ?case using Cons.hyps(1) [of it'] unfolding Cons.hyps(2) [symmetric] by (subst dict_iterate.simps) auto
qed

lemma dictNext_first:
  assumes "dict_shape d" "di_index it = -1" "di_table it = 0" "di_entry it = []" "dict_iter_start addr it d = (it1, d1)"
  shows "next_ok d1 it1 (dict_entries d) (dictNext addr it d)"
proof -
  have d1: "dict_shape d1" "di_index it1 = -1" "di_table it1 = 0" "di_entry it1 = []"
    "d_ht0 d1 = d_ht0 d" "d_ht1 d1 = d_ht1 d" "dictIsRehashing d1 = dictIsRehashing d"
    using assms by (auto simp: dict_iter_start_def dict_shape_def dictIsRehashing_def split: if_splits)
  have ent: "concat (later_buckets d1 it1) = dict_entries d"
    using assms(1) d1 by (auto simp: later_buckets_def dict_entries_def ht_of_def dict_shape_def dictReset_def)
  have ok: "iter_ok d1 it1" using d1 by (simp add: iter_ok_def)
  obtain it' stop where s: "dict_iter_bucket it1 d1 = Some (it', stop)" "same_iter it1 it'" "0 \<le> di_index it'"
    "stop \<longrightarrow> later_buckets d1 it1 = []"
    "\<not> stop \<longrightarrow> iter_ok d1 it' \<and> later_buckets d1 it1 = di_entry it' # later_buckets d1 it'"
    by (rule dict_iter_bucket_correct [OF ok])
  have unf: "dictNext addr it d = (if stop then Some (None, it', d1)
      else (case di_entry it' of [] \<Rightarrow> dictNext addr it' d1 | e # rest \<Rightarrow> Some (Some e, it'\<lparr>di_nextEntry := rest\<rparr>, d1)))"
    using assms(4,5) s(1) by (subst dictNext.simps) simp
  show ?thesis
  proof (cases stop)
    case True
    then show ?thesis using unf s ent by (auto simp: next_ok_def)
  next
    case go: False
    show ?thesis
    proof (cases "di_entry it'")
      case Nil
      then have "next_ok d1 it' (remaining d1 it') (dictNext addr it' d1)" using dictNext_correct go s by blast
      then have "next_ok d1 it1 (remaining d1 it') (dictNext addr it' d1)" using s(2) by (rule next_ok_same)
      then show ?thesis using Nil go s(5) unf ent by (simp add: remaining_def)
    next
      case (Cons e rest)
      then have "next_ok d1 it' ((e # rest) @ concat (later_buckets d1 it')) (Some (Some e, it'\<lparr>di_nextEntry := rest\<rparr>, d1))"
        using go s by (intro dictNext_found) simp_all
      then have "next_ok d1 it1 ((e # rest) @ concat (later_buckets d1 it')) (Some (Some e, it'\<lparr>di_nextEntry := rest\<rparr>, d1))"
        using s(2) by (rule next_ok_same)
      then show ?thesis using Cons go s(5) unf ent by simp
    qed
  qed
qed

lemma dict_iterate_first:
  assumes "dict_shape d" "di_index it = -1" "di_table it = 0" "di_entry it = []" "dict_iter_start addr it d = (it1, d1)"
  shows "\<exists>it'. dict_iterate addr it d = Some (dict_entries d, it', d1) \<and> same_iter it1 it' \<and> 0 \<le> di_index it'"
proof (cases "dict_entries d")
  case Nil
  then obtain it' where "dictNext addr it d = Some (None, it', d1)" "same_iter it1 it'" "0 \<le> di_index it'"
    using dictNext_first [OF assms] by (auto simp: next_ok_def)
  then show ?thesis using Nil by (subst dict_iterate.simps) simp
next
  case (Cons e es)
  then obtain it' where "dictNext addr it d = Some (Some e, it', d1)" "same_iter it1 it'" "0 \<le> di_index it'" "iter_ok d1 it'"
    "remaining d1 it' = es"
    using dictNext_first [OF assms] by (auto simp: next_ok_def)
  then show ?thesis using Cons dict_iterate_correct [of d1 it' addr] by (subst dict_iterate.simps) auto
qed

section \<open>Sampling\<close>

lemma some_keys_rehash_correct:
  "dict_wf d \<Longrightarrow> \<exists>d'. some_keys_rehash n d = Some d' \<and> dict_wf d' \<and> same_map d d'"
proof (induction n arbitrary: d)
  case (Suc n)
  show ?case
  proof (cases "dictIsRehashing d")
    case True
    obtain d1 where d1: "dictRehashStep d = Some d1" "dict_wf d1" "same_map d d1" using dictRehashStep_correct [OF Suc.prems] by blast
    then show ?thesis using Suc.IH [OF d1(2)] True same_map_trans by fastforce
  qed (use Suc.prems in auto)
qed auto

lemma some_keys_bucket_correct:
  assumes "length (sa_des s) \<le> cnt" "set (sa_des s) \<subseteq> A" "set he \<subseteq> A"
  shows "length (sa_des (fst (some_keys_bucket rnd msk cnt he s))) \<le> cnt"
    and "set (sa_des (fst (some_keys_bucket rnd msk cnt he s))) \<subseteq> A"
  using assms by (auto simp: some_keys_bucket_def Let_def dest: in_set_takeD)

lemma some_keys_table_correct:
  assumes "dict_shape d" "length (sa_des s) \<le> cnt" "set (sa_des s) \<subseteq> set (dict_entries d)"
  obtains s' full where "some_keys_table rnd d tables msk cnt j s = Some (s', full)"
    "length (sa_des s') \<le> cnt" "set (sa_des s') \<subseteq> set (dict_entries d)"
proof -
  let ?jump = "tables = 2 \<and> j = 0 \<and> int (sa_i s) < d_rehashidx d"
  let ?s = "if ?jump then s\<lparr>sa_i := nat (d_rehashidx d)\<rparr> else s"
  have des: "sa_des ?s = sa_des s" by simp
  have ent: "set (ht_table (ht_of d j) ! i) \<subseteq> set (dict_entries d)" if "i < length (ht_table (ht_of d j))" for i
    using nth_mem [OF that] by (auto simp: dict_entries_def ht_of_def split: if_splits)
  consider "?jump" "\<not> sa_i s \<ge> ht_size (d_ht1 d)" | "\<not> (?jump \<and> \<not> sa_i s \<ge> ht_size (d_ht1 d))" "sa_i ?s \<ge> ht_size (ht_of d j)"
    | "\<not> (?jump \<and> \<not> sa_i s \<ge> ht_size (d_ht1 d))" "sa_i ?s < ht_size (ht_of d j)" by linarith
  then show thesis
  proof cases
    case 1
    then show thesis using assms by (intro that [of s False]) (simp_all add: some_keys_table_def)
  next
    case 2
    have "some_keys_table rnd d tables msk cnt j s = Some (?s, False)"
      unfolding some_keys_table_def Let_def if_not_P [OF 2(1)] if_P [OF 2(2)] ..
    then show thesis using assms(2,3) des that by metis
  next
    case 3
    let ?he = "ht_table (ht_of d j) ! sa_i ?s"
    have i: "sa_i ?s < length (ht_table (ht_of d j))" using 3(2) table_length [OF assms(1)] by simp
    have eq: "some_keys_table rnd d tables msk cnt j s = Some (some_keys_bucket rnd msk cnt ?he ?s)"
      unfolding some_keys_table_def Let_def if_not_P [OF 3(1)] if_not_P [OF not_le [THEN iffD2, OF 3(2)]] nth_opt_Some [OF i] Option.bind_lunit ..
    have "length (sa_des ?s) \<le> cnt" "set (sa_des ?s) \<subseteq> set (dict_entries d)" using assms(2,3) unfolding des .
    note some_keys_bucket_correct [OF this ent [OF i], of rnd msk]
    then show thesis using that eq by (cases "some_keys_bucket rnd msk cnt ?he ?s") simp
  qed
qed

lemma some_keys_loop_correct:
  assumes "dict_shape d"
  shows "length (sa_des s) \<le> cnt \<Longrightarrow> set (sa_des s) \<subseteq> set (dict_entries d) \<Longrightarrow>
    \<exists>es. some_keys_loop rnd d tables msk cnt n s = Some es \<and> length es \<le> cnt \<and> set es \<subseteq> set (dict_entries d)"
proof (induction n arbitrary: s)
  case (Suc n)
  note table = some_keys_table_correct [OF assms]
  obtain s1 f1 where s1: "some_keys_table rnd d tables msk cnt 0 s = Some (s1, f1)"
    "length (sa_des s1) \<le> cnt" "set (sa_des s1) \<subseteq> set (dict_entries d)"
    by (rule table [OF Suc.prems])
  obtain s2 f2 where s2: "some_keys_table rnd d tables msk cnt 1 s1 = Some (s2, f2)"
    "length (sa_des s2) \<le> cnt" "set (sa_des s2) \<subseteq> set (dict_entries d)"
    by (rule table [OF s1(2,3)])
  show ?case
    using Suc.prems s1 s2 Suc.IH by (cases "tables = 2") auto
qed auto

lemma pick_bucket_total:
  assumes "dict_shape d" "0 < ht_size (d_ht0 d)" "d_rehashidx d < int (ht_size (d_ht0 d))"
  obtains c where "pick_bucket d r = Some c" "set c \<subseteq> set (dict_entries d)"
proof -
  have l: "length (ht_table (d_ht0 d)) = ht_size (d_ht0 d)" "length (ht_table (d_ht1 d)) = ht_size (d_ht1 d)"
    and wf: "ht_wf (d_type d) (d_ht0 d)"
    using assms(1) by (auto simp: dict_shape_def ht_wf_def ht_shape_def)
  have in0: "set (ht_table (d_ht0 d) ! i) \<subseteq> set (dict_entries d)" if "i < ht_size (d_ht0 d)" for i
    using that nth_mem [of i "ht_table (d_ht0 d)"] l by (auto simp: dict_entries_def)
  have in1: "set (ht_table (d_ht1 d) ! i) \<subseteq> set (dict_entries d)" if "i < ht_size (d_ht1 d)" for i
    using that nth_mem [of i "ht_table (d_ht1 d)"] l by (auto simp: dict_entries_def)
  show thesis
  proof (cases "dictIsRehashing d")
    case True
    let ?n = "ht_size (d_ht0 d) + ht_size (d_ht1 d) - nat (d_rehashidx d)"
    let ?h = "nat (d_rehashidx d) + r mod ?n"
    have "0 < ?n" using assms(2,3) by linarith
    then have "r mod ?n < ?n" by simp
    then have h: "?h < ht_size (d_ht0 d) + ht_size (d_ht1 d)" by linarith
    show thesis
    proof (cases "?h \<ge> ht_size (d_ht0 d)")
      case ge: True
      then have "?h - ht_size (d_ht0 d) < ht_size (d_ht1 d)" using h by linarith
      then show thesis using that [of "ht_table (d_ht1 d) ! (?h - ht_size (d_ht0 d))"] True ge in1 l
        by (simp add: pick_bucket_def nth_opt_Some)
    next
      case False
      then show thesis using that [of "ht_table (d_ht0 d) ! ?h"] True in0 l by (simp add: pick_bucket_def nth_opt_Some)
    qed
  next
    case False
    let ?h = "bucket_index (of_nat r) (ht_sizemask (d_ht0 d))"
    have "?h < ht_size (d_ht0 d)" by (rule bucket_index_less [OF wf assms(2)])
    then show thesis using that [of "ht_table (d_ht0 d) ! ?h"] False in0 l by (simp add: pick_bucket_def nth_opt_Some)
  qed
qed

lemma random_bucket_correct:
  assumes "dict_shape d" "0 < ht_size (d_ht0 d)" "d_rehashidx d < int (ht_size (d_ht0 d))"
    and "n \<le> k" "pick_bucket d (rnd k) \<noteq> Some []"
  shows "\<exists>c m. random_bucket rnd d n = Some (c, m) \<and> c \<noteq> [] \<and> set c \<subseteq> set (dict_entries d)"
  using assms(4)
proof (induction "k - n" arbitrary: n)
  case 0
  then have "n = k" by simp
  moreover obtain c where "pick_bucket d (rnd k) = Some c" "set c \<subseteq> set (dict_entries d)"
    by (rule pick_bucket_total [OF assms(1-3)])
  ultimately show ?case using assms(5) by (subst random_bucket.simps) simp
next
  case (Suc j)
  obtain c where c: "pick_bucket d (rnd n) = Some c" "set c \<subseteq> set (dict_entries d)"
    by (rule pick_bucket_total [OF assms(1-3)])
  have "\<exists>c m. random_bucket rnd d (n + 1) = Some (c, m) \<and> c \<noteq> [] \<and> set c \<subseteq> set (dict_entries d)"
    using Suc.hyps(1) [of "n + 1"] Suc.hyps(2) by simp
  then show ?case using c by (cases "c = []") (subst random_bucket.simps, simp)+
qed

section \<open>Properties\<close>

text \<open>
  C23: an iterator, safe or not, returns every entry of the dictionary exactly once, also in the middle of a rehash,
  and then \<open>NULL\<close>. Releasing it passes the fingerprint assertion and restores the dictionary.
\<close>

theorem iterator_visits_once:
  assumes "dict_wf d" "it = dictGetIterator \<or> it = dictGetSafeIterator"
  shows "\<exists>it' d'. dict_iterate addr it d = Some (dict_entries d, it', d') \<and> dictReleaseIterator addr it' d' = Some d"
proof -
  have it: "di_index it = -1" "di_table it = 0" "di_entry it = []" using assms(2) by (auto simp: dictGetIterator_def dictGetSafeIterator_def)
  obtain it1 d1 where start: "dict_iter_start addr it d = (it1, d1)" by fastforce
  have sh: "dict_shape d" using assms(1) by (simp add: dict_wf_def)
  obtain it' where i: "dict_iterate addr it d = Some (dict_entries d, it', d1)" "same_iter it1 it'" "0 \<le> di_index it'"
    using dict_iterate_first [OF sh it start] by blast
  have "dictReleaseIterator addr it' d1 = Some d"
    using start it i(2,3) by (auto simp: dict_iter_start_def dictReleaseIterator_def split: if_splits)
  then show ?thesis using i(1) by blast
qed

theorem iterator_visits_once_witness:
  "\<exists>it' d'. dict_iterate (1, 2) dictGetSafeIterator sample_dict = Some (dict_entries sample_dict, it', d')
    \<and> dictReleaseIterator (1, 2) it' d' = Some sample_dict"
  using iterator_visits_once [OF sample_wf, of dictGetSafeIterator "(1, 2)"] by simp

text \<open>
  C24: \<open>dictGetSomeKeys\<close> ends for every sequence of random numbers, reads inside the tables, stores at most
  \<open>count\<close> entries in the caller's array, all of them entries of the dictionary, and keeps the map.
\<close>

theorem dictGetSomeKeys_bounds:
  assumes "dict_wf d"
  shows "\<exists>d' des. dictGetSomeKeys rnd d cnt = Some (d', des) \<and> length des \<le> cnt \<and> length des \<le> dictSize d
    \<and> set des \<subseteq> set (dict_entries d) \<and> dict_wf d' \<and> same_map d d'"
proof -
  let ?cnt = "if dictSize d < cnt then dictSize d else cnt"
  obtain d1 where d1: "some_keys_rehash ?cnt d = Some d1" "dict_wf d1" "same_map d d1"
    using some_keys_rehash_correct [OF assms] by blast
  have sh: "dict_shape d1" using d1(2) by (simp add: dict_wf_def)
  have ent: "set (dict_entries d1) = set (dict_entries d)" using d1(3) unfolding same_map_def by (metis set_mset_mset)
  let ?tables = "if dictIsRehashing d1 then 2 else (1 :: nat)"
  let ?msk = "if ?tables > 1 \<and> ht_sizemask (d_ht0 d1) < ht_sizemask (d_ht1 d1) then ht_sizemask (d_ht1 d1) else ht_sizemask (d_ht0 d1)"
  let ?s = "\<lparr>sa_i = bucket_index (of_nat (rnd 0)) ?msk, sa_emptylen = 0, sa_des = [], sa_calls = 1\<rparr>"
  have "length (sa_des ?s) \<le> ?cnt" "set (sa_des ?s) \<subseteq> set (dict_entries d1)" by simp_all
  then obtain es where es: "some_keys_loop rnd d1 ?tables ?msk ?cnt (?cnt * 10 mod 2 ^ 32) ?s = Some es"
    "length es \<le> ?cnt" "set es \<subseteq> set (dict_entries d1)"
    using some_keys_loop_correct [OF sh] by blast
  have "dictGetSomeKeys rnd d cnt = Some (d1, es)"
    unfolding dictGetSomeKeys_def Let_def d1(1) Option.bind_lunit es(1) ..
  then show ?thesis using es(2,3) d1(2,3) ent by (auto split: if_splits)
qed

theorem dictGetSomeKeys_bounds_witness:
  "\<exists>d' des. dictGetSomeKeys (\<lambda>_. 3) sample_dict 2 = Some (d', des) \<and> length des \<le> 2"
  using dictGetSomeKeys_bounds [OF sample_wf, of "\<lambda>_. 3" 2] by auto

end
