(* ===== verification/Sds.thy ===== *)
theory Sds
  imports Util_Num
begin

text \<open>
  The dynamic strings of \<^verbatim>\<open>sds.h\<close> and \<^verbatim>\<open>sds.c\<close>. A string is a header of one of five
  types, whose length and allocation fields have 5, 8, 16, 32 or 64 bits, and the bytes of
  its allocation after the header. Values stored into the fields are reduced to the width of the field, sizes
  given to the allocator to 64 bits, as in C. The allocator aborts the server when there is no
  memory, so the \<open>NULL\<close> results of \<open>s_malloc\<close> and \<open>s_realloc\<close> do not occur.
\<close>

section \<open>Headers\<close>

datatype sds_type = SDS_TYPE_5 | SDS_TYPE_8 | SDS_TYPE_16 | SDS_TYPE_32 | SDS_TYPE_64

record sds =
  hdr :: sds_type
  hlen :: nat
  halloc :: nat
  chars :: buf

fun field_bits :: "sds_type \<Rightarrow> nat" where
  "field_bits SDS_TYPE_5 = 5"
| "field_bits SDS_TYPE_8 = 8"
| "field_bits SDS_TYPE_16 = 16"
| "field_bits SDS_TYPE_32 = 32"
| "field_bits SDS_TYPE_64 = 64"

fun sdsHdrSize :: "sds_type \<Rightarrow> nat" where
  "sdsHdrSize SDS_TYPE_5 = 1"
| "sdsHdrSize SDS_TYPE_8 = 1 + 1 + 1"
| "sdsHdrSize SDS_TYPE_16 = 2 + 2 + 1"
| "sdsHdrSize SDS_TYPE_32 = 4 + 4 + 1"
| "sdsHdrSize SDS_TYPE_64 = 8 + 8 + 1"

definition sdsReqType :: "nat \<Rightarrow> sds_type" where
  "sdsReqType string_size =
     (if string_size < 2 ^ 5 then SDS_TYPE_5
      else if string_size < 2 ^ 8 then SDS_TYPE_8
      else if string_size < 2 ^ 16 then SDS_TYPE_16
      else if string_size < 2 ^ 32 then SDS_TYPE_32
      else SDS_TYPE_64)"

definition sdslen :: "sds \<Rightarrow> nat" where
  "sdslen s = hlen s"

text \<open>
  The difference of two fields is computed as an \<open>int\<close> for 8 and 16 bits, and converted to
  \<open>size_t\<close>; for 32 bits it is computed as an \<open>unsigned int\<close>.
\<close>

definition sdsavail :: "sds \<Rightarrow> nat" where
  "sdsavail s =
     (case hdr s of
        SDS_TYPE_5 \<Rightarrow> 0
      | SDS_TYPE_32 \<Rightarrow> nat ((int (halloc s) - int (hlen s)) mod 2 ^ 32)
      | _ \<Rightarrow> nat ((int (halloc s) - int (hlen s)) mod 2 ^ 64))"

definition sdssetlen :: "sds \<Rightarrow> nat \<Rightarrow> sds" where
  "sdssetlen s newlen = s\<lparr>hlen := newlen mod 2 ^ field_bits (hdr s)\<rparr>"

definition sdsinclen :: "sds \<Rightarrow> nat \<Rightarrow> sds" where
  "sdsinclen s inc = s\<lparr>hlen := (hlen s + inc) mod 2 ^ field_bits (hdr s)\<rparr>"

definition sdsalloc :: "sds \<Rightarrow> nat" where
  "sdsalloc s = (if hdr s = SDS_TYPE_5 then hlen s else halloc s)"

definition sdssetalloc :: "sds \<Rightarrow> nat \<Rightarrow> sds" where
  "sdssetalloc s newlen =
     (if hdr s = SDS_TYPE_5 then s else s\<lparr>halloc := newlen mod 2 ^ field_bits (hdr s)\<rparr>)"

section \<open>Creation and allocation\<close>

text \<open>
  \<open>s_realloc(sh, hdrlen + n + 1)\<close>, with the sum in \<open>size_t\<close>, on an allocation whose bytes after the header are
  \<open>b\<close>; \<open>s_malloc\<close> is the case of no bytes. The result is the bytes after the header. An
  allocation that is smaller than the header makes the later accesses to it invalid.
\<close>

definition hdr_realloc :: "host \<Rightarrow> sds_type \<Rightarrow> buf \<Rightarrow> nat \<Rightarrow> buf option" where
  "hdr_realloc h t b n =
     (let size = (sdsHdrSize t + n + 1) mod 2 ^ 64
      in if size < sdsHdrSize t then None else Some (realloc h b (size - sdsHdrSize t)))"

definition memcpy :: "buf \<Rightarrow> nat \<Rightarrow> buf \<Rightarrow> nat \<Rightarrow> buf option" where
  "memcpy dst off src n = do { xs \<leftarrow> load_bytes src 0 n; store_bytes dst off xs }"

datatype sds_init = SDS_NOINIT | INIT_NULL | INIT buf

definition sdsnewlen :: "host \<Rightarrow> sds_init \<Rightarrow> nat \<Rightarrow> sds option" where
  "sdsnewlen h init initlen =
     (let type = sdsReqType initlen;
          type = (if type = SDS_TYPE_5 \<and> initlen = 0 then SDS_TYPE_8 else type)
      in do {
        b \<leftarrow> hdr_realloc h type [] initlen;
        b \<leftarrow> Some (if init = INIT_NULL then replicate (length b) 0 else b);
        s \<leftarrow> Some (sdssetalloc (sdssetlen \<lparr>hdr = type, hlen = 0, halloc = 0, chars = b\<rparr> initlen) initlen);
        b \<leftarrow> (case init of
               INIT p \<Rightarrow> if initlen \<noteq> 0 then memcpy b 0 p initlen else Some b
             | _ \<Rightarrow> Some b);
        b \<leftarrow> upd_opt b initlen 0;
        Some (s\<lparr>chars := b\<rparr>) })"

definition sdsempty :: "host \<Rightarrow> sds option" where
  "sdsempty h = sdsnewlen h (INIT [0]) 0"

text \<open>\<open>strlen\<close> of the C string that starts a buffer.\<close>

fun strlen :: "buf \<Rightarrow> nat option" where
  "strlen [] = None"
| "strlen (c # cs) = (if c = 0 then Some 0 else do { n \<leftarrow> strlen cs; Some (Suc n) })"

definition sdsnew :: "host \<Rightarrow> buf option \<Rightarrow> sds option" where
  "sdsnew h init =
     (case init of
        None \<Rightarrow> sdsnewlen h INIT_NULL 0
      | Some p \<Rightarrow> do { initlen \<leftarrow> strlen p; sdsnewlen h (INIT p) initlen })"

definition sdsdup :: "host \<Rightarrow> sds \<Rightarrow> sds option" where
  "sdsdup h s = sdsnewlen h (INIT (chars s)) (sdslen s)"

definition sdsupdatelen :: "sds \<Rightarrow> sds option" where
  "sdsupdatelen s = do { reallen \<leftarrow> strlen (chars s); Some (sdssetlen s reallen) }"

definition sdsclear :: "sds \<Rightarrow> sds option" where
  "sdsclear s = do {
     b \<leftarrow> upd_opt (chars s) 0 0;
     Some ((sdssetlen s 0)\<lparr>chars := b\<rparr>) }"

abbreviation SDS_MAX_PREALLOC :: nat where "SDS_MAX_PREALLOC \<equiv> 1024 * 1024"

text \<open>
  A string with another header type: \<open>len + 1\<close> bytes are copied to a new allocation.
\<close>

definition sds_move :: "host \<Rightarrow> sds \<Rightarrow> sds_type \<Rightarrow> nat \<Rightarrow> sds option" where
  "sds_move h s type n = do {
     b \<leftarrow> hdr_realloc h type [] n;
     b \<leftarrow> memcpy b 0 (chars s) (sdslen s + 1);
     Some (sdssetlen \<lparr>hdr = type, hlen = 0, halloc = 0, chars = b\<rparr> (sdslen s)) }"

definition sdsMakeRoomFor :: "host \<Rightarrow> sds \<Rightarrow> nat \<Rightarrow> sds option" where
  "sdsMakeRoomFor h s addlen =
     (if sdsavail s \<ge> addlen then Some s
      else
        let newlen = (sdslen s + addlen) mod 2 ^ 64;
            newlen = (if newlen < SDS_MAX_PREALLOC then newlen * 2
                      else (newlen + SDS_MAX_PREALLOC) mod 2 ^ 64);
            type = sdsReqType newlen;
            type = (if type = SDS_TYPE_5 then SDS_TYPE_8 else type)
        in do {
          s \<leftarrow> (if hdr s = type then do {
                  b \<leftarrow> hdr_realloc h type (chars s) newlen;
                  Some (s\<lparr>chars := b\<rparr>) }
                else sds_move h s type newlen);
          Some (sdssetalloc s newlen) })"

definition sdsRemoveFreeSpace :: "host \<Rightarrow> sds \<Rightarrow> sds option" where
  "sdsRemoveFreeSpace h s =
     (if sdsavail s = 0 then Some s
      else
        let len = sdslen s;
            type = sdsReqType len
        in do {
          s \<leftarrow> (if hdr s = type \<or> type \<notin> {SDS_TYPE_5, SDS_TYPE_8} then do {
                  b \<leftarrow> hdr_realloc h (hdr s) (chars s) len;
                  Some (s\<lparr>chars := b\<rparr>) }
                else sds_move h s type len);
          Some (sdssetalloc s len) })"

definition sdsAllocSize :: "sds \<Rightarrow> nat" where
  "sdsAllocSize s = sdsHdrSize (hdr s) + sdsalloc s + 1"

section \<open>Changing the length and appending\<close>

text \<open>
  The assertions of \<open>sdsIncrLen\<close>: the amount is converted to \<open>unsigned int\<close> except for
  64 bit headers, and zero is refused for type 5 only. A negation that overflows is undefined.
\<close>

definition incr_ok :: "sds \<Rightarrow> int \<Rightarrow> bool" where
  "incr_ok s incr =
     (case hdr s of
        SDS_TYPE_5 \<Rightarrow> incr > 0 \<and> int (hlen s) + incr < 32 \<or>
                       incr < 0 \<and> int (hlen s) \<ge> (- incr) mod 2 ^ 32
      | SDS_TYPE_32 \<Rightarrow> incr \<ge> 0 \<and> (int (halloc s) - int (hlen s)) mod 2 ^ 32 \<ge> incr mod 2 ^ 32 \<or>
                        incr < 0 \<and> int (hlen s) \<ge> (- incr) mod 2 ^ 32
      | SDS_TYPE_64 \<Rightarrow> incr \<ge> 0 \<and> (int (halloc s) - int (hlen s)) mod 2 ^ 64 \<ge> incr \<or>
                        incr < 0 \<and> int (hlen s) \<ge> - incr
      | _ \<Rightarrow> incr \<ge> 0 \<and> int (halloc s) - int (hlen s) \<ge> incr \<or>
             incr < 0 \<and> int (hlen s) \<ge> (- incr) mod 2 ^ 32)"

definition sdsIncrLen :: "sds \<Rightarrow> int \<Rightarrow> sds option" where
  "sdsIncrLen s incr =
     (if incr = LLONG_MIN \<or> \<not> incr_ok s incr then None
      else
        let newlen = int (hlen s) + incr;
            s = s\<lparr>hlen := nat (newlen mod 2 ^ field_bits (hdr s))\<rparr>;
            len = (if hdr s = SDS_TYPE_5 then nat (newlen mod 2 ^ 64) else hlen s)
        in do {
          b \<leftarrow> upd_opt (chars s) len 0;
          Some (s\<lparr>chars := b\<rparr>) })"

definition sdsgrowzero :: "host \<Rightarrow> sds \<Rightarrow> nat \<Rightarrow> sds option" where
  "sdsgrowzero h s len =
     (let curlen = sdslen s
      in if len \<le> curlen then Some s
         else do {
           s \<leftarrow> sdsMakeRoomFor h s (len - curlen);
           b \<leftarrow> store_bytes (chars s) curlen (replicate (len - curlen + 1) 0);
           Some (sdssetlen (s\<lparr>chars := b\<rparr>) len) })"

definition sdscatlen :: "host \<Rightarrow> sds \<Rightarrow> buf \<Rightarrow> nat \<Rightarrow> sds option" where
  "sdscatlen h s t len =
     (let curlen = sdslen s
      in do {
        s \<leftarrow> sdsMakeRoomFor h s len;
        b \<leftarrow> memcpy (chars s) curlen t len;
        s \<leftarrow> Some (sdssetlen s (curlen + len));
        b \<leftarrow> upd_opt b (curlen + len) 0;
        Some (s\<lparr>chars := b\<rparr>) })"

definition sdscat :: "host \<Rightarrow> sds \<Rightarrow> buf \<Rightarrow> sds option" where
  "sdscat h s t = do { n \<leftarrow> strlen t; sdscatlen h s t n }"

definition sdscatsds :: "host \<Rightarrow> sds \<Rightarrow> sds \<Rightarrow> sds option" where
  "sdscatsds h s t = sdscatlen h s (chars t) (sdslen t)"

definition sdscpylen :: "host \<Rightarrow> sds \<Rightarrow> buf \<Rightarrow> nat \<Rightarrow> sds option" where
  "sdscpylen h s t len = do {
     s \<leftarrow> (if sdsalloc s < len then sdsMakeRoomFor h s (len - sdslen s) else Some s);
     b \<leftarrow> memcpy (chars s) 0 t len;
     b \<leftarrow> upd_opt b len 0;
     Some (sdssetlen (s\<lparr>chars := b\<rparr>) len) }"

definition sdscpy :: "host \<Rightarrow> sds \<Rightarrow> buf \<Rightarrow> sds option" where
  "sdscpy h s t = do { n \<leftarrow> strlen t; sdscpylen h s t n }"

section \<open>Numbers\<close>

text \<open>The digits of \<open>v\<close>, the last first, from position \<open>p\<close> on.\<close>

function put_digits :: "buf \<Rightarrow> nat \<Rightarrow> nat \<Rightarrow> (buf \<times> nat) option" where
  "put_digits s p v = do {
     s \<leftarrow> upd_opt s p (48 + of_nat (v mod 10));
     if v div 10 \<noteq> 0 then put_digits s (p + 1) (v div 10) else Some (s, p + 1) }"
  by pat_completeness auto
termination by (relation "measure (\<lambda>(s, p, v). v)") auto

declare put_digits.simps [simp del]

text \<open>Exchange the bytes from \<open>s\<close> and \<open>p\<close> inwards.\<close>

function reverse_bytes :: "buf \<Rightarrow> nat \<Rightarrow> nat \<Rightarrow> buf option" where
  "reverse_bytes b s p =
     (if s < p then do {
        aux \<leftarrow> nth_opt b s;
        c \<leftarrow> nth_opt b p;
        b \<leftarrow> upd_opt b s c;
        b \<leftarrow> upd_opt b p aux;
        reverse_bytes b (s + 1) (p - 1) }
      else Some b)"
  by pat_completeness auto
termination by (relation "measure (\<lambda>(b, s, p). p - s)") auto

declare reverse_bytes.simps [simp del]

definition sdsll2str :: "buf \<Rightarrow> int \<Rightarrow> (buf \<times> nat) option" where
  "sdsll2str s val =
     (if val = LLONG_MIN then None
      else do {
        (s, p) \<leftarrow> put_digits s 0 (nat (if val < 0 then - val else val));
        (s, p) \<leftarrow> (if val < 0 then do { s \<leftarrow> upd_opt s p 45; Some (s, p + 1) } else Some (s, p));
        s \<leftarrow> upd_opt s p 0;
        s \<leftarrow> reverse_bytes s 0 (p - 1);
        Some (s, p) })"

definition sdsull2str :: "buf \<Rightarrow> nat \<Rightarrow> (buf \<times> nat) option" where
  "sdsull2str s v = do {
     (s, p) \<leftarrow> put_digits s 0 v;
     s \<leftarrow> upd_opt s p 0;
     s \<leftarrow> reverse_bytes s 0 (p - 1);
     Some (s, p) }"

abbreviation SDS_LLSTR_SIZE :: nat where "SDS_LLSTR_SIZE \<equiv> 21"

definition sdsfromlonglong :: "host \<Rightarrow> int \<Rightarrow> sds option" where
  "sdsfromlonglong h val = do {
     (b, len) \<leftarrow> sdsll2str (realloc h [] SDS_LLSTR_SIZE) val;
     sdsnewlen h (INIT b) len }"

section \<open>Trimming, ranges, case and comparison\<close>

text \<open>
  \<open>strchr(cset, c)\<close> finds the bytes of the C string \<open>cset\<close> and also its terminator.
\<close>

fun strchr :: "buf \<Rightarrow> byte \<Rightarrow> bool option" where
  "strchr [] c = None"
| "strchr (d # cs) c = (if d = c then Some True else if d = 0 then Some False else strchr cs c)"

function trim_left :: "buf \<Rightarrow> buf \<Rightarrow> nat \<Rightarrow> nat \<Rightarrow> nat option" where
  "trim_left b cset sp n =
     (if sp < n then do {
        c \<leftarrow> nth_opt b sp;
        m \<leftarrow> strchr cset c;
        if m then trim_left b cset (sp + 1) n else Some sp }
      else Some sp)"
  by pat_completeness auto
termination by (relation "measure (\<lambda>(b, cset, sp, n). n - sp)") auto

fun trim_right :: "buf \<Rightarrow> buf \<Rightarrow> nat \<Rightarrow> nat \<Rightarrow> nat option" where
  "trim_right b cset sp 0 = Some 0"
| "trim_right b cset sp (Suc ep) =
     (if Suc ep > sp then do {
        c \<leftarrow> nth_opt b (Suc ep);
        m \<leftarrow> strchr cset c;
        if m then trim_right b cset sp ep else Some (Suc ep) }
      else Some (Suc ep))"

declare trim_left.simps [simp del]

text \<open>
  The end pointer of an empty string is the byte before it; no loop runs then and the new length is 0.
\<close>

definition sdstrim :: "sds \<Rightarrow> buf \<Rightarrow> sds option" where
  "sdstrim s cset =
     (let n = sdslen s
      in do {
        sp \<leftarrow> trim_left (chars s) cset 0 n;
        ep \<leftarrow> (if n = 0 then Some 0 else trim_right (chars s) cset sp (n - 1));
        len \<leftarrow> Some (if n = 0 \<or> sp > ep then 0 else ep - sp + 1);
        b \<leftarrow> (if sp \<noteq> 0 then memmove (chars s) 0 sp len else Some (chars s));
        b \<leftarrow> upd_opt b len 0;
        Some (sdssetlen (s\<lparr>chars := b\<rparr>) len) })"

text \<open>
  The indexes are \<open>ssize_t\<close>; \<open>len + start\<close> is computed in \<open>size_t\<close> and converted back, which gives the
  sum when \<open>start\<close> is negative.
\<close>

definition range_index :: "nat \<Rightarrow> int \<Rightarrow> int" where
  "range_index len i =
     (if i < 0 then let i = int len + i in if i < 0 then 0 else i else i)"

text \<open>A signed overflow of the length is undefined.\<close>

definition range_newlen :: "int \<Rightarrow> int \<Rightarrow> nat option" where
  "range_newlen start end_i =
     (if start > end_i then Some 0
      else if end_i - start + 1 > LLONG_MAX then None
      else Some (nat (end_i - start + 1)))"

definition range_clip :: "nat \<Rightarrow> int \<Rightarrow> int \<Rightarrow> nat \<Rightarrow> (int \<times> nat) option" where
  "range_clip len start end_i newlen =
     (if newlen \<noteq> 0 then
        (if start \<ge> int len then Some (start, 0)
         else if end_i \<ge> int len then do {
           newlen \<leftarrow> range_newlen start (int len - 1);
           Some (start, newlen) }
         else Some (start, newlen))
      else Some (0, newlen))"

definition sdsrange :: "sds \<Rightarrow> int \<Rightarrow> int \<Rightarrow> sds option" where
  "sdsrange s start end_i =
     (let len = sdslen s
      in if len = 0 then Some s
         else
           let start = range_index len start;
               end_i = range_index len end_i
           in do {
             newlen \<leftarrow> range_newlen start end_i;
             (start, newlen) \<leftarrow> range_clip len start end_i newlen;
             b \<leftarrow> (if start \<noteq> 0 \<and> newlen \<noteq> 0 then memmove (chars s) 0 (nat start) newlen
                   else Some (chars s));
             b \<leftarrow> upd_opt b newlen 0;
             Some (sdssetlen (s\<lparr>chars := b\<rparr>) newlen) })"

text \<open>The loops that replace each byte of the string: \<open>n\<close> bytes from \<open>j\<close> on.\<close>

fun each_char :: "(byte \<Rightarrow> byte option) \<Rightarrow> buf \<Rightarrow> nat \<Rightarrow> nat \<Rightarrow> buf option" where
  "each_char f b j 0 = Some b"
| "each_char f b j (Suc n) = do {
     c \<leftarrow> nth_opt b j;
     c \<leftarrow> f c;
     b \<leftarrow> upd_opt b j c;
     each_char f b (j + 1) n }"

definition tolower :: "byte \<Rightarrow> byte" where
  "tolower c = (if 65 \<le> c \<and> c \<le> 90 then c + 32 else c)"

definition toupper :: "byte \<Rightarrow> byte" where
  "toupper c = (if 97 \<le> c \<and> c \<le> 122 then c - 32 else c)"

definition sdstolower :: "sds \<Rightarrow> sds option" where
  "sdstolower s = do {
     b \<leftarrow> each_char (\<lambda>c. Some (tolower c)) (chars s) 0 (sdslen s);
     Some (s\<lparr>chars := b\<rparr>) }"

definition sdstoupper :: "sds \<Rightarrow> sds option" where
  "sdstoupper s = do {
     b \<leftarrow> each_char (\<lambda>c. Some (toupper c)) (chars s) 0 (sdslen s);
     Some (s\<lparr>chars := b\<rparr>) }"

fun map_char :: "buf \<Rightarrow> buf \<Rightarrow> nat \<Rightarrow> nat \<Rightarrow> byte \<Rightarrow> byte option" where
  "map_char from to i 0 c = Some c"
| "map_char from to i (Suc n) c = do {
     d \<leftarrow> nth_opt from i;
     if c = d then nth_opt to i else map_char from to (i + 1) n c }"

definition sdsmapchars :: "sds \<Rightarrow> buf \<Rightarrow> buf \<Rightarrow> nat \<Rightarrow> sds option" where
  "sdsmapchars s from to setlen = do {
     b \<leftarrow> each_char (map_char from to 0 setlen) (chars s) 0 (sdslen s);
     Some (s\<lparr>chars := b\<rparr>) }"

text \<open>\<open>memcmp\<close>: the difference of the first bytes that differ.\<close>

fun memcmp :: "buf \<Rightarrow> buf \<Rightarrow> int" where
  "memcmp (a # as) (b # bs) = (if a = b then memcmp as bs else uint a - uint b)"
| "memcmp _ _ = 0"

definition sdscmp :: "sds \<Rightarrow> sds \<Rightarrow> int option" where
  "sdscmp s1 s2 =
     (let l1 = sdslen s1; l2 = sdslen s2; minlen = (if l1 < l2 then l1 else l2)
      in do {
        a \<leftarrow> load_bytes (chars s1) 0 minlen;
        b \<leftarrow> load_bytes (chars s2) 0 minlen;
        Some (if memcmp a b = 0 then (if l1 > l2 then 1 else if l1 < l2 then - 1 else 0)
              else memcmp a b) })"

end
