(* ===== verification/Sds_Correct.thy ===== *)
theory Sds_Correct
  imports Sds
begin

text \<open>
  The representation invariant of dynamic strings, that all operations keep it, and
  what each operation does to the contents.
\<close>

section \<open>The invariant\<close>

definition sds_wf :: "sds \<Rightarrow> bool" where
  "sds_wf s \<longleftrightarrow>
     hlen s < 2 ^ field_bits (hdr s) \<and> hlen s < length (chars s) \<and> chars s ! hlen s = 0 \<and>
     (hdr s \<noteq> SDS_TYPE_5 \<longrightarrow> halloc s < 2 ^ field_bits (hdr s) \<and> length (chars s) = halloc s + 1)"

definition sds_str :: "sds \<Rightarrow> buf" where
  "sds_str s = take (hlen s) (chars s)"

text \<open>
  The part of the invariant that holds while a string is being extended, before its
  terminator is written.
\<close>

definition sds_room :: "sds \<Rightarrow> bool" where
  "sds_room s \<longleftrightarrow>
     hlen s < 2 ^ field_bits (hdr s) \<and> hlen s < length (chars s) \<and>
     (hdr s \<noteq> SDS_TYPE_5 \<longrightarrow> halloc s < 2 ^ field_bits (hdr s) \<and> length (chars s) = halloc s + 1)"

lemma sds_wf_room: "sds_wf s \<longleftrightarrow> sds_room s \<and> chars s ! hlen s = 0"
  by (auto simp: sds_wf_def sds_room_def)

lemma length_sds_str: "sds_wf s \<Longrightarrow> length (sds_str s) = hlen s"
  by (simp add: sds_wf_def sds_str_def)


lemma sdsReqType_fits: "n < 2 ^ 64 \<Longrightarrow> n < 2 ^ field_bits (sdsReqType n)"
  by (simp add: sdsReqType_def)

lemma wf_chars_bound: "sds_wf s \<Longrightarrow> hdr s \<noteq> SDS_TYPE_5 \<Longrightarrow> n < length (chars s) \<Longrightarrow> n < 2 ^ field_bits (hdr s)"
  by (auto simp: sds_wf_def)

lemma hdr_realloc_Some:
  assumes "n < 2 ^ 63 + 2 ^ 20"
  shows "hdr_realloc h t b n = Some (realloc h b (n + 1))"
proof -
  have "sdsHdrSize t + n + 1 < 2 ^ 64"
    using assms by (cases t) auto
  thus ?thesis
    by (simp add: hdr_realloc_def)
qed

lemma memcpy_Some [buf_simps]:
  "n \<le> length src \<Longrightarrow> off + n \<le> length dst \<Longrightarrow>
    memcpy dst off src n = Some (take off dst @ take n src @ drop (off + n) dst)"
  by (simp add: memcpy_def load_bytes_def store_bytes_def)

lemma sdsavail_room:
  assumes "sds_room s"
  shows "sdsavail s = (if hdr s = SDS_TYPE_5 then 0 else halloc s - hlen s)"
proof -
  have eq: "int (halloc s) - int (hlen s) = int (halloc s - hlen s)" if "hdr s \<noteq> SDS_TYPE_5"
    using assms that by (auto simp: sds_room_def of_nat_diff)
  show ?thesis
    using assms eq by (cases "hdr s") (auto simp: sdsavail_def sds_room_def nat_mod_distrib nat_power_eq)
qed


lemma take_Suc_keep:
  assumes "take (n + 1) b = take (n + 1) b'" "n < length b" "n < length b'"
  shows "take n b = take n b'" "b ! n = b' ! n"
  using assms by (auto simp: take_Suc_conv_app_nth)

text \<open>The step that ends most operations: a terminator at the new length, and the new length.\<close>

lemma sds_resize:
  assumes "sds_wf s" "length b = length (chars s)" "n < length b" "n < 2 ^ field_bits (hdr s)" "b ! n = 0"
  shows "sds_wf (sdssetlen (s\<lparr>chars := b\<rparr>) n)" and "sds_str (sdssetlen (s\<lparr>chars := b\<rparr>) n) = take n b"
  using assms by (auto simp: sds_wf_def sds_str_def sdssetlen_def)

lemma sdssetlen_chars: "(sdssetlen s n)\<lparr>chars := b\<rparr> = sdssetlen (s\<lparr>chars := b\<rparr>) n"
  by (simp add: sdssetlen_def)

lemma wf_shrink_bound: "sds_wf s \<Longrightarrow> n \<le> hlen s \<Longrightarrow> n < 2 ^ field_bits (hdr s) \<and> n < length (chars s)"
  by (auto simp: sds_wf_def)

section \<open>Creation\<close>

definition init_bytes :: "host \<Rightarrow> sds_init \<Rightarrow> nat \<Rightarrow> buf" where
  "init_bytes h init n =
     (case init of SDS_NOINIT \<Rightarrow> map (fresh h) [0..<n] | INIT_NULL \<Rightarrow> replicate n 0 | INIT p \<Rightarrow> take n p)"

definition newlen_type :: "nat \<Rightarrow> sds_type" where
  "newlen_type n = (if sdsReqType n = SDS_TYPE_5 \<and> n = 0 then SDS_TYPE_8 else sdsReqType n)"

lemma newlen_type_fits: "n < 2 ^ 64 \<Longrightarrow> n < 2 ^ field_bits (newlen_type n)"
  by (simp add: newlen_type_def sdsReqType_def)

lemma sdsnewlen_correct:
  assumes n: "n < 2 ^ 63" and p: "\<And>p. init = INIT p \<Longrightarrow> n \<le> length p"
  shows "\<exists>s. sdsnewlen h init n = Some s \<and> sds_wf s \<and> sds_str s = init_bytes h init n \<and> hlen s = n"
proof -
  have fits: "n < 2 ^ field_bits (newlen_type n)"
    using n by (intro newlen_type_fits) simp
  have alloc: "hdr_realloc h (newlen_type n) [] n = Some (realloc h [] (n + 1))"
    using n by (intro hdr_realloc_Some) simp
  define b where "b = (if init = INIT_NULL then replicate (n + 1) 0 else realloc h [] (n + 1))"
  define b' where "b' = (case init of INIT p \<Rightarrow> take n p @ drop n b | _ \<Rightarrow> b)"
  have b_eq: "(if init = INIT_NULL then replicate (length (realloc h [] (n + 1))) 0 else realloc h [] (n + 1)) = b"
    by (simp add: b_def)
  have len: "length b' = n + 1"
    using p by (auto simp: b'_def b_def split: sds_init.split)
  have copy: "(case init of INIT p \<Rightarrow> if n \<noteq> 0 then memcpy b 0 p n else Some b | _ \<Rightarrow> Some b) = Some b'"
    using p by (auto simp: b'_def b_def buf_simps split: sds_init.split)
  have str: "take n b' = init_bytes h init n"
    using p by (auto simp: b'_def b_def init_bytes_def realloc_def take_map
        simp del: replicate_Suc split: sds_init.split)
  have "sdsnewlen h init n = Some ((sdssetalloc (sdssetlen \<lparr>hdr = newlen_type n, hlen = 0, halloc = 0, chars = b\<rparr> n) n)\<lparr>chars := b'[n := 0]\<rparr>)"
    unfolding sdsnewlen_def Let_def newlen_type_def [symmetric] alloc Option.bind_lunit b_eq copy
    using len by (simp add: buf_simps)
  moreover have "sds_wf ((sdssetalloc (sdssetlen \<lparr>hdr = newlen_type n, hlen = 0, halloc = 0, chars = b\<rparr> n) n)\<lparr>chars := b'[n := 0]\<rparr>)"
    using fits len by (auto simp: sds_wf_def sdssetalloc_def sdssetlen_def)
  ultimately show ?thesis
    using fits str by (auto simp: sds_str_def sdssetalloc_def sdssetlen_def)
qed

lemma sdsempty_correct: "\<exists>s. sdsempty h = Some s \<and> sds_wf s \<and> sds_str s = [] \<and> hlen s = 0"
  unfolding sdsempty_def using sdsnewlen_correct [of 0 "INIT [0]" h] by (simp add: init_bytes_def)

lemma strlen_cstring: "0 \<notin> set cs \<Longrightarrow> strlen (cs @ 0 # rest) = Some (length cs)"
  by (induction cs) auto

lemma strlen_Some: "strlen p = Some n \<Longrightarrow> n < length p \<and> p ! n = 0 \<and> 0 \<notin> set (take n p)"
  by (induction p arbitrary: n) (auto split: if_splits bind_splits)

lemma sdsdup_correct:
  assumes "sds_wf s" "hlen s < 2 ^ 63"
  shows "\<exists>t. sdsdup h s = Some t \<and> sds_wf t \<and> sds_str t = sds_str s"
  using sdsnewlen_correct [of "hlen s" "INIT (chars s)" h] assms
  by (auto simp: sdsdup_def sdslen_def init_bytes_def sds_wf_def sds_str_def)

section \<open>Allocation\<close>

lemma sds_move_room:
  assumes s: "sds_room s" and n: "hlen s \<le> n" "n < 2 ^ 63 + 2 ^ 20" "n < 2 ^ field_bits t"
  shows "\<exists>s'. sds_move h s t n = Some s' \<and> hdr s' = t \<and> sds_room (sdssetalloc s' n) \<and>
    hlen s' = hlen s \<and> take (hlen s + 1) (chars s') = take (hlen s + 1) (chars s) \<and> length (chars s') = n + 1"
proof -
  define b where "b = take (hlen s + 1) (chars s) @ drop (hlen s + 1) (realloc h [] (n + 1))"
  have len: "hlen s < length (chars s)"
    using s by (simp add: sds_room_def)
  have "length b = n + 1" "take (hlen s + 1) b = take (hlen s + 1) (chars s)"
    using len n by (auto simp: b_def min_def)
  moreover have "sds_move h s t n = Some (sdssetlen \<lparr>hdr = t, hlen = 0, halloc = 0, chars = b\<rparr> (hlen s))"
    using n len by (simp add: sds_move_def hdr_realloc_Some buf_simps b_def sdslen_def)
  ultimately show ?thesis
    using n by (auto simp: sds_room_def sdssetlen_def sdssetalloc_def)
qed

lemma sds_realloc_in_place:
  assumes s: "sds_room s" "hdr s \<noteq> SDS_TYPE_5" and n: "hlen s \<le> n" "n < 2 ^ field_bits (hdr s)"
    and b: "b = realloc h (chars s) (n + 1)"
  shows "sds_room (sdssetalloc (s\<lparr>chars := b\<rparr>) n)" "take (hlen s + 1) b = take (hlen s + 1) (chars s)"
proof -
  have len: "hlen s < length (chars s)"
    using s by (simp add: sds_room_def)
  show "take (hlen s + 1) b = take (hlen s + 1) (chars s)"
    unfolding b using n len by (intro take_realloc) auto
  show "sds_room (sdssetalloc (s\<lparr>chars := b\<rparr>) n)"
    using s n b by (auto simp: sds_room_def sdssetalloc_def)
qed

definition room_len :: "nat \<Rightarrow> nat" where
  "room_len n = (if n < SDS_MAX_PREALLOC then n * 2 else n + SDS_MAX_PREALLOC)"

lemma sdsMakeRoomFor_room:
  assumes s: "sds_room s" and n: "hlen s + addlen < 2 ^ 63"
  shows "\<exists>s'. sdsMakeRoomFor h s addlen = Some s' \<and> sds_room s' \<and> hlen s' = hlen s \<and>
    take (hlen s + 1) (chars s') = take (hlen s + 1) (chars s) \<and> hlen s + addlen < length (chars s') \<and>
    hlen s + addlen < 2 ^ field_bits (hdr s') \<and> addlen \<le> sdsavail s'"
proof (cases "sdsavail s \<ge> addlen")
  case True
  thus ?thesis
    using s by (auto simp: sdsMakeRoomFor_def sdsavail_room sds_room_def split: if_splits)
next
  case False
  define newlen where "newlen = room_len (hlen s + addlen)"
  define t where "t = (if sdsReqType newlen = SDS_TYPE_5 then SDS_TYPE_8 else sdsReqType newlen)"
  have len: "hlen s + addlen \<le> newlen" "newlen < 2 ^ 63 + 2 ^ 20"
    using n by (auto simp: newlen_def room_len_def)
  hence fits: "newlen < 2 ^ field_bits t" "t \<noteq> SDS_TYPE_5"
    using sdsReqType_fits [of newlen] by (auto simp: t_def)
  have unfold: "sdsMakeRoomFor h s addlen =
      do { s \<leftarrow> (if hdr s = t then do { b \<leftarrow> hdr_realloc h t (chars s) newlen; Some (s\<lparr>chars := b\<rparr>) }
                 else sds_move h s t newlen);
           Some (sdssetalloc s newlen) }"
    using False n by (simp add: sdsMakeRoomFor_def Let_def sdslen_def t_def newlen_def room_len_def)
  obtain s' where s': "sdsMakeRoomFor h s addlen = Some (sdssetalloc s' newlen)" "hdr s' = t"
    "sds_room (sdssetalloc s' newlen)" "hlen s' = hlen s"
    "take (hlen s + 1) (chars s') = take (hlen s + 1) (chars s)" "length (chars s') = newlen + 1"
  proof (cases "hdr s = t")
    case True
    define b where "b = realloc h (chars s) (newlen + 1)"
    have "sdsMakeRoomFor h s addlen = Some (sdssetalloc (s\<lparr>chars := b\<rparr>) newlen)"
      unfolding unfold using True len by (simp add: hdr_realloc_Some b_def)
    thus thesis
      using sds_realloc_in_place [of s newlen b h] s True fits len
      by (intro that [of "s\<lparr>chars := b\<rparr>"]) (auto simp: b_def)
  next
    case False
    then obtain s' where "sds_move h s t newlen = Some s'" "hdr s' = t" "sds_room (sdssetalloc s' newlen)"
      "hlen s' = hlen s" "take (hlen s + 1) (chars s') = take (hlen s + 1) (chars s)" "length (chars s') = newlen + 1"
      using sds_move_room [of s newlen t h] s len fits by auto
    thus thesis
      using False by (intro that [of s']) (auto simp: unfold)
  qed
  show ?thesis
    using s' fits len sdsavail_room [OF s'(3)] by (auto simp: sdssetalloc_def)
qed

lemma sdsMakeRoomFor_correct:
  assumes s: "sds_wf s" and n: "hlen s + addlen < 2 ^ 63"
  shows "\<exists>s'. sdsMakeRoomFor h s addlen = Some s' \<and> sds_wf s' \<and> hlen s' = hlen s \<and>
    sds_str s' = sds_str s \<and> hlen s + addlen < length (chars s') \<and>
    hlen s + addlen < 2 ^ field_bits (hdr s')"
proof -
  obtain s' where s': "sdsMakeRoomFor h s addlen = Some s'" "sds_room s'" "hlen s' = hlen s"
    "take (hlen s + 1) (chars s') = take (hlen s + 1) (chars s)" "hlen s + addlen < length (chars s')"
    "hlen s + addlen < 2 ^ field_bits (hdr s')"
    using sdsMakeRoomFor_room [of s addlen h] s n by (auto simp: sds_wf_room)
  moreover have "take (hlen s) (chars s') = take (hlen s) (chars s)" "chars s' ! hlen s = 0"
    using take_Suc_keep [OF s'(4)] s s'(2,3) by (auto simp: sds_wf_room sds_room_def)
  ultimately show ?thesis
    by (auto simp: sds_wf_room sds_str_def)
qed

lemma sdsRemoveFreeSpace_correct:
  assumes s: "sds_wf s" and n: "hlen s < 2 ^ 63"
  shows "\<exists>s'. sdsRemoveFreeSpace h s = Some s' \<and> sds_wf s' \<and> sds_str s' = sds_str s \<and> sdsavail s' = 0"
proof (cases "sdsavail s = 0")
  case True
  thus ?thesis
    using s by (auto simp: sdsRemoveFreeSpace_def)
next
  case False
  hence t5: "hdr s \<noteq> SDS_TYPE_5"
    by (auto simp: sdsavail_def)
  define t where "t = sdsReqType (hlen s)"
  have room: "sds_room s" and fits: "hlen s < 2 ^ field_bits t" "hlen s < 2 ^ field_bits (hdr s)"
    using sdsReqType_fits [of "hlen s"] s n by (auto simp: t_def sds_wf_def sds_room_def)
  obtain s' where s': "sdsRemoveFreeSpace h s = Some (sdssetalloc s' (hlen s))" "sds_room (sdssetalloc s' (hlen s))"
    "hlen s' = hlen s" "take (hlen s + 1) (chars s') = take (hlen s + 1) (chars s)" "hlen s < 2 ^ field_bits (hdr s')"
  proof (cases "hdr s = t \<or> t \<notin> {SDS_TYPE_5, SDS_TYPE_8}")
    case True
    define b where "b = realloc h (chars s) (hlen s + 1)"
    have "sdsRemoveFreeSpace h s = Some (sdssetalloc (s\<lparr>chars := b\<rparr>) (hlen s))"
      using False True n by (auto simp: sdsRemoveFreeSpace_def Let_def sdslen_def t_def hdr_realloc_Some b_def)
    thus thesis
      using sds_realloc_in_place [of s "hlen s" b h] room t5 fits
      by (intro that [of "s\<lparr>chars := b\<rparr>"]) (auto simp: b_def)
  next
    case move: False
    then obtain s' where m: "sds_move h s t (hlen s) = Some s'" "hdr s' = t" "sds_room (sdssetalloc s' (hlen s))"
      "hlen s' = hlen s" "take (hlen s + 1) (chars s') = take (hlen s + 1) (chars s)"
      using sds_move_room [of s "hlen s" t h] room n fits by auto
    have "sdsRemoveFreeSpace h s = Some (sdssetalloc s' (hlen s))"
      using False move m by (auto simp: sdsRemoveFreeSpace_def Let_def sdslen_def t_def)
    thus thesis
      using m fits by (intro that [of s']) auto
  qed
  have "take (hlen s) (chars s') = take (hlen s) (chars s)" "chars s' ! hlen s = 0"
    using take_Suc_keep [OF s'(4)] s s'(2,3) by (auto simp: sds_wf_room sds_room_def sdssetalloc_def split: if_splits)
  thus ?thesis
    using s' sdsavail_room [OF s'(2)] by (auto simp: sds_wf_room sds_str_def sdssetalloc_def)
qed

section \<open>Appending\<close>

lemma sdscatlen_correct:
  assumes s: "sds_wf s" and n: "hlen s + n < 2 ^ 63" "n \<le> length t"
  shows "\<exists>s'. sdscatlen h s t n = Some s' \<and> sds_wf s' \<and> sds_str s' = sds_str s @ take n t \<and>
    hlen s' = hlen s + n"
proof -
  obtain r where r: "sdsMakeRoomFor h s n = Some r" "sds_wf r" "hlen r = hlen s" "sds_str r = sds_str s"
    "hlen s + n < length (chars r)" "hlen s + n < 2 ^ field_bits (hdr r)"
    using sdsMakeRoomFor_correct [OF s n(1)] by blast
  define b where "b = (take (hlen s) (chars r) @ take n t @ drop (hlen s + n) (chars r))[hlen s + n := 0]"
  have "sdscatlen h s t n = Some (sdssetlen (r\<lparr>chars := b\<rparr>) (hlen s + n))"
    using r n by (simp add: sdscatlen_def sdslen_def buf_simps b_def sdssetlen_chars Let_def)
  moreover have "length b = length (chars r)" "b ! (hlen s + n) = 0" "take (hlen s + n) b = sds_str s @ take n t"
    using r(5) n s by (auto simp: b_def sds_str_def min_def r(4) [unfolded sds_str_def r(3)] sds_wf_def)
  ultimately show ?thesis
    using sds_resize [of r b "hlen s + n"] r by (auto simp: sdssetlen_def)
qed

lemma sdscatsds_correct:
  assumes "sds_wf s" "sds_wf t" "hlen s + hlen t < 2 ^ 63"
  shows "\<exists>s'. sdscatsds h s t = Some s' \<and> sds_wf s' \<and> sds_str s' = sds_str s @ sds_str t \<and>
    hlen s' = hlen s + hlen t"
  using sdscatlen_correct [of s "hlen t" "chars t" h] assms
  by (auto simp: sdscatsds_def sdslen_def sds_str_def sds_wf_def)

lemma sdscat_correct:
  assumes "sds_wf s" "0 \<notin> set cs" "hlen s + length cs < 2 ^ 63"
  shows "\<exists>s'. sdscat h s (cs @ 0 # rest) = Some s' \<and> sds_wf s' \<and> sds_str s' = sds_str s @ cs \<and>
    hlen s' = hlen s + length cs"
  using sdscatlen_correct [of s "length cs" "cs @ 0 # rest" h] assms by (simp add: sdscat_def strlen_cstring)

lemma sdscpylen_correct:
  assumes s: "sds_wf s" and n: "n < 2 ^ 63" "n \<le> length t"
  shows "\<exists>s'. sdscpylen h s t n = Some s' \<and> sds_wf s' \<and> sds_str s' = take n t \<and> hlen s' = n"
proof -
  obtain r where r: "(if sdsalloc s < n then sdsMakeRoomFor h s (n - sdslen s) else Some s) = Some r"
      "sds_wf r" "n < length (chars r)" "n < 2 ^ field_bits (hdr r)"
  proof (cases "sdsalloc s < n")
    case True
    hence "hlen s < n"
      using s by (auto simp: sdsalloc_def sds_wf_def split: if_splits)
    thus thesis
      using that sdsMakeRoomFor_correct [OF s, of "n - hlen s" h] True n by (auto simp: sdslen_def)
  next
    case False
    thus thesis
      using that [of s] s by (auto simp: sdsalloc_def sds_wf_def split: if_splits)
  qed
  define b where "b = (take n t @ drop n (chars r))[n := 0]"
  have "sdscpylen h s t n = Some (sdssetlen (r\<lparr>chars := b\<rparr>) n)"
    unfolding sdscpylen_def r(1) using r n by (simp add: buf_simps b_def)
  moreover have "length b = length (chars r)" "b ! n = 0" "take n b = take n t"
    using r n by (auto simp: b_def min_def)
  ultimately show ?thesis
    using sds_resize [of r b n] r by (auto simp: sdssetlen_def)
qed

lemma sdsgrowzero_correct:
  assumes s: "sds_wf s" and n: "n < 2 ^ 63"
  shows "\<exists>s'. sdsgrowzero h s n = Some s' \<and> sds_wf s' \<and>
    sds_str s' = sds_str s @ replicate (n - hlen s) 0"
proof (cases "n \<le> hlen s")
  case True
  thus ?thesis
    using s by (simp add: sdsgrowzero_def sdslen_def)
next
  case False
  then obtain r where r: "sdsMakeRoomFor h s (n - hlen s) = Some r" "sds_wf r" "hlen r = hlen s"
    "sds_str r = sds_str s" "n < length (chars r)" "n < 2 ^ field_bits (hdr r)"
    using sdsMakeRoomFor_correct [OF s, of "n - hlen s" h] n by auto
  define b where "b = take (hlen s) (chars r) @ replicate (n - hlen s + 1) 0 @ drop (n + 1) (chars r)"
  have "sdsgrowzero h s n = Some (sdssetlen (r\<lparr>chars := b\<rparr>) n)"
    using r False by (simp add: sdsgrowzero_def sdslen_def Let_def buf_simps b_def)
  moreover have "length b = length (chars r)" "b ! n = 0" "take n b = sds_str s @ replicate (n - hlen s) 0"
    using r(5) s False
    by (auto simp: b_def sds_str_def min_def r(4) [unfolded sds_str_def r(3)] sds_wf_def nth_append
        simp del: replicate_Suc)
  ultimately show ?thesis
    using sds_resize [of r b n] r by auto
qed

text \<open>
  The assertions of \<open>sdsIncrLen\<close> accept every change that stays within the allocation, except for type 5.
\<close>

lemma sdsIncrLen_correct:
  assumes s: "sds_wf s" "hdr s \<noteq> SDS_TYPE_5"
    and i: "0 \<le> int (hlen s) + i" "int (hlen s) + i \<le> int (halloc s)" "i \<noteq> LLONG_MIN"
  shows "\<exists>s'. sdsIncrLen s i = Some s' \<and> sds_wf s' \<and> hdr s' = hdr s \<and>
    sds_str s' = take (nat (int (hlen s) + i)) (chars s)"
proof -
  define n where "n = nat (int (hlen s) + i)"
  have "int (hlen s) + i = int n" "n \<le> halloc s"
    using i by (auto simp: n_def)
  hence n: "int (hlen s) + i = int n" "n < 2 ^ field_bits (hdr s)" "n < length (chars s)"
    using s by (auto simp: sds_wf_def)
  have le: "hlen s \<le> halloc s" "halloc s < 2 ^ field_bits (hdr s)"
    using s by (auto simp: sds_wf_def)
  have "incr_ok s i"
    using s(2) i le by (cases "hdr s"; cases "i < 0") (auto simp: incr_ok_def)
  hence "sdsIncrLen s i = Some (sdssetlen (s\<lparr>chars := (chars s)[n := 0]\<rparr>) n)"
    using n i(3) s(2) by (simp add: sdsIncrLen_def Let_def buf_simps sdssetlen_def nat_mod_distrib nat_power_eq)
  thus ?thesis
    using sds_resize [OF s(1), of "(chars s)[n := 0]" n] n by (auto simp: sdssetlen_def)
qed

section \<open>Changes in place\<close>

lemma sdsclear_correct: "sds_wf s \<Longrightarrow> \<exists>s'. sdsclear s = Some s' \<and> sds_wf s' \<and> sds_str s' = []"
  using sds_resize [of s "(chars s)[0 := 0]" 0]
  by (auto simp: sdsclear_def upd_opt_def sdssetlen_chars sds_wf_def)

lemma strlen_takeWhile: "0 \<in> set b \<Longrightarrow> strlen b = Some (length (takeWhile (\<lambda>c. c \<noteq> 0) b))"
  by (induction b) auto

lemma sds_str_split: "sds_wf s \<Longrightarrow> chars s = sds_str s @ 0 # drop (Suc (hlen s)) (chars s)"
  by (metis sds_wf_def sds_str_def id_take_nth_drop)

lemma sdsupdatelen_correct:
  assumes s: "sds_wf s"
  shows "\<exists>s'. sdsupdatelen s = Some s' \<and> sds_wf s' \<and> sds_str s' = takeWhile (\<lambda>c. c \<noteq> 0) (sds_str s)"
proof -
  define w where "w = takeWhile (\<lambda>c. c \<noteq> 0) (sds_str s)"
  have w: "takeWhile (\<lambda>c. c \<noteq> 0) (chars s) = w"
    unfolding w_def by (subst sds_str_split [OF s]) (simp add: takeWhile_tail)
  have "0 \<in> set (chars s)"
    by (subst sds_str_split [OF s]) simp
  hence len: "strlen (chars s) = Some (length w)"
    by (simp add: strlen_takeWhile w)
  have "length w \<le> hlen s"
    using length_takeWhile_le [of _ "sds_str s"] length_sds_str [OF s] by (simp add: w_def)
  moreover have "w = take (length w) (chars s)"
    unfolding w [symmetric] by (rule takeWhile_eq_take)
  moreover have "s\<lparr>chars := chars s\<rparr> = s"
    by simp
  ultimately show ?thesis
    using sds_resize [OF s, of "chars s" "length w"] strlen_Some [OF len] wf_shrink_bound [OF s, of "length w"] len
    by (auto simp: sdsupdatelen_def w_def [symmetric])
qed

definition in_cset :: "buf \<Rightarrow> byte \<Rightarrow> bool" where
  "in_cset cs c \<longleftrightarrow> c = 0 \<or> c \<in> set cs"

lemma strchr_cstring: "0 \<notin> set cs \<Longrightarrow> strchr (cs @ 0 # rest) c = Some (in_cset cs c)"
  by (induction cs) (auto simp: in_cset_def)

lemma trim_left_correct:
  assumes cs: "0 \<notin> set cs"
  shows "sp + length y \<le> length b \<Longrightarrow> y = take (length y) (drop sp b) \<Longrightarrow>
    trim_left b (cs @ 0 # rest) sp (sp + length y) = Some (sp + length (takeWhile (in_cset cs) y))"
proof (induction y arbitrary: sp)
  case Nil
  show ?case by (subst trim_left.simps) simp
next
  case (Cons c y)
  have "c = b ! sp" "y = take (length y) (drop (Suc sp) b)"
    using Cons.prems by (auto simp: Cons_nth_drop_Suc [of sp b, symmetric])
  thus ?case
    using Cons.prems(1) Cons.IH [of "Suc sp"]
    by (subst trim_left.simps) (auto simp: buf_simps strchr_cstring [OF cs])
qed

lemma trim_right_correct:
  assumes cs: "0 \<notin> set cs" and sp: "\<not> in_cset cs (b ! sp)"
  shows "sp \<le> ep \<Longrightarrow> ep < length b \<Longrightarrow>
    \<exists>e. trim_right b (cs @ 0 # rest) sp ep = Some e \<and> sp \<le> e \<and> e \<le> ep \<and>
      drop sp (take (Suc e) b) = rev (dropWhile (in_cset cs) (rev (drop sp (take (Suc ep) b))))"
proof (induction ep)
  case 0
  thus ?case
    using sp by (auto simp: take_Suc_conv_app_nth)
next
  case (Suc ep)
  show ?case
  proof (cases "sp = Suc ep")
    case True
    thus ?thesis
      using sp Suc.prems by (auto simp: take_Suc_conv_app_nth)
  next
    case False
    have last: "drop sp (take (Suc (Suc ep)) b) = drop sp (take (Suc ep) b) @ [b ! Suc ep]"
      using Suc.prems False by (simp add: take_Suc_conv_app_nth [of "Suc ep"])
    show ?thesis
      using Suc False last by (cases "in_cset cs (b ! Suc ep)") (auto simp: buf_simps strchr_cstring [OF cs])
  qed
qed

lemma trim_right_le: "ep \<le> sp \<Longrightarrow> trim_right b cset sp ep = Some ep"
  by (cases ep) auto

text \<open>Keep \<open>n\<close> bytes from \<open>i\<close> on: what \<open>sdstrim\<close> and \<open>sdsrange\<close> end with.\<close>

lemma sds_keep_part:
  assumes s: "sds_wf s" and i: "i + n \<le> hlen s" and c: "\<not> c \<Longrightarrow> i = 0 \<or> n = 0"
  shows "\<exists>s'. do { b \<leftarrow> (if c then memmove (chars s) 0 i n else Some (chars s));
                   b \<leftarrow> upd_opt b n 0;
                   Some (sdssetlen (s\<lparr>chars := b\<rparr>) n) } = Some s' \<and>
    sds_wf s' \<and> sds_str s' = take n (drop i (sds_str s))"
proof -
  define b where "b = (if c then take n (drop i (chars s)) @ drop n (chars s) else chars s)"
  have len: "hlen s < length (chars s)"
    using s by (simp add: sds_wf_def)
  have "(if c then memmove (chars s) 0 i n else Some (chars s)) = Some b"
    using i len by (simp add: b_def buf_simps)
  moreover have "length b = length (chars s)" "take n b = take n (drop i (sds_str s))"
    using i len c by (auto simp: b_def sds_str_def take_drop min_def)
  ultimately show ?thesis
    using sds_resize [OF s, of "b[n := 0]" n] wf_shrink_bound [OF s, of n] i by (auto simp: buf_simps)
qed

definition strip :: "(byte \<Rightarrow> bool) \<Rightarrow> buf \<Rightarrow> buf" where
  "strip P y = rev (dropWhile P (rev (dropWhile P y)))"

lemma sdstrim_correct:
  assumes s: "sds_wf s" and cs: "0 \<notin> set cs"
  shows "\<exists>s'. sdstrim s (cs @ 0 # rest) = Some s' \<and> sds_wf s' \<and> sds_str s' = strip (in_cset cs) (sds_str s)"
proof -
  define y where "y = sds_str s"
  define sp where "sp = length (takeWhile (in_cset cs) y)"
  have len: "length y = hlen s" "hlen s < length (chars s)" "y = take (hlen s) (chars s)"
    using s length_sds_str [OF s] by (auto simp: y_def sds_wf_def sds_str_def)
  have sp: "sp \<le> hlen s" "drop sp y = dropWhile (in_cset cs) y"
    using length_takeWhile_le [of "in_cset cs" y] len by (auto simp: sp_def dropWhile_eq_drop)
  have left: "trim_left (chars s) (cs @ 0 # rest) 0 (hlen s) = Some sp"
    using trim_left_correct [OF cs, of 0 y "chars s" rest] len by (simp add: sp_def)
  obtain e n where en: "(if hlen s = 0 then Some 0 else trim_right (chars s) (cs @ 0 # rest) sp (hlen s - 1)) = Some e"
    "(if hlen s = 0 \<or> sp > e then 0 else e - sp + 1) = n" "sp + n \<le> hlen s"
    "take n (drop sp y) = strip (in_cset cs) y"
  proof (cases "sp = hlen s")
    case True
    have "strip (in_cset cs) y = []"
      using sp(2) len True by (simp add: strip_def sp(2) [symmetric])
    thus thesis
      using True by (intro that [of "hlen s - 1" 0]) (auto simp: trim_right_le)
  next
    case False
    have "\<not> in_cset cs (y ! sp)"
      using False sp(1) len(1) nth_length_takeWhile [of "in_cset cs" y] by (simp add: sp_def)
    hence ns: "\<not> in_cset cs (chars s ! sp)"
      using False sp(1) len(3) by simp
    have le: "sp \<le> hlen s - 1" "hlen s - 1 < length (chars s)" "Suc (hlen s - 1) = hlen s"
      using False sp(1) len(2) by auto
    obtain e where e: "trim_right (chars s) (cs @ 0 # rest) sp (hlen s - 1) = Some e" "sp \<le> e" "e \<le> hlen s - 1"
      "drop sp (take (Suc e) (chars s)) = rev (dropWhile (in_cset cs) (rev (drop sp (take (hlen s) (chars s)))))"
      using trim_right_correct [OF cs ns le(1,2), of rest] unfolding le(3) by blast
    have "take (e - sp + 1) (drop sp y) = drop sp (take (Suc e) (chars s))"
      using e len False by (simp add: take_drop min_def Suc_diff_le)
    thus thesis
      using e False sp len by (intro that [of e "e - sp + 1"]) (auto simp: strip_def)
  qed
  show ?thesis
    unfolding sdstrim_def sdslen_def Let_def left Option.bind_lunit en(1) en(2) en(4) [unfolded y_def, symmetric]
    by (rule sds_keep_part [OF s en(3)]) simp
qed

lemma sdsrange_correct:
  assumes s: "sds_wf s" and e: "range_index (hlen s) end_i < LLONG_MAX" and len: "hlen s < 2 ^ 63"
  shows "\<exists>s'. sdsrange s start end_i = Some s' \<and> sds_wf s' \<and>
    sds_str s' = take (nat (range_index (hlen s) end_i - range_index (hlen s) start + 1))
      (drop (nat (range_index (hlen s) start)) (sds_str s))"
proof (cases "hlen s = 0")
  case True
  thus ?thesis
    using s by (simp add: sdsrange_def sdslen_def sds_str_def)
next
  case False
  define i where "i = range_index (hlen s) start"
  define j where "j = range_index (hlen s) end_i"
  have ij: "0 \<le> i" "0 \<le> j"
    by (auto simp: i_def j_def range_index_def Let_def)
  have y: "length (sds_str s) = hlen s"
    by (rule length_sds_str [OF s])
  obtain m i' n where m: "range_newlen i j = Some m" "range_clip (hlen s) i j m = Some (i', n)"
    "nat i' + n \<le> hlen s \<or> n = 0" "n = 0 \<or> i' = i" "0 \<le> i'"
    "take n (drop (nat i') (sds_str s)) = take (nat (j - i + 1)) (drop (nat i) (sds_str s))"
  proof (cases "i > j \<or> i \<ge> int (hlen s)")
    case True
    thus thesis
      using ij e y by (intro that [of "nat (j - i + 1)" "if i > j then 0 else i" 0])
        (auto simp: range_newlen_def range_clip_def j_def [symmetric])
  next
    case False
    thus thesis
      using ij e y len
      by (intro that [of "nat (j - i + 1)" i "if j \<ge> int (hlen s) then nat (int (hlen s) - i) else nat (j - i + 1)"])
        (auto simp: range_newlen_def range_clip_def j_def [symmetric])
  qed
  have eq: "sdsrange s start end_i =
      do { b \<leftarrow> (if i' \<noteq> 0 \<and> n \<noteq> 0 then memmove (chars s) 0 (nat i') n else Some (chars s));
           b \<leftarrow> upd_opt b n 0;
           Some (sdssetlen (s\<lparr>chars := b\<rparr>) n) }"
    using False m(1,2) by (simp add: sdsrange_def sdslen_def Let_def i_def j_def)
  show ?thesis
  proof (cases "n = 0")
    case True
    thus ?thesis
      unfolding eq i_def [symmetric] j_def [symmetric] m(6) [symmetric]
      using sds_keep_part [OF s, of 0 0 False] by simp
  next
    case False
    thus ?thesis
      unfolding eq i_def [symmetric] j_def [symmetric] m(6) [symmetric]
      using sds_keep_part [OF s, of "nat i'" n "i' \<noteq> 0 \<and> n \<noteq> 0"] m(3,5) by simp
  qed
qed

lemma each_char_correct:
  "(\<And>c. c \<in> set ys \<Longrightarrow> f c = Some (g c)) \<Longrightarrow>
    each_char f (xs @ ys @ zs) (length xs) (length ys) = Some (xs @ map g ys @ zs)"
proof (induction ys arbitrary: xs)
  case (Cons c ys)
  show ?case
    using Cons.IH [of "xs @ [g c]"] Cons.prems by (simp add: nth_opt_def upd_opt_def nth_append)
qed simp

lemma sds_map_chars:
  assumes s: "sds_wf s" and f: "\<And>c. c \<in> set (sds_str s) \<Longrightarrow> f c = Some (g c)"
  shows "\<exists>s'. do { b \<leftarrow> each_char f (chars s) 0 (sdslen s); Some (s\<lparr>chars := b\<rparr>) } = Some s' \<and>
    sds_wf s' \<and> sds_str s' = map g (sds_str s)"
proof -
  define r where "r = drop (Suc (hlen s)) (chars s)"
  have len: "length (sds_str s) = hlen s"
    by (rule length_sds_str [OF s])
  have split: "chars s = sds_str s @ 0 # r"
    unfolding r_def by (rule sds_str_split [OF s])
  have "each_char f (chars s) 0 (sdslen s) = Some (map g (sds_str s) @ 0 # r)"
    using each_char_correct [of "sds_str s" f g "[]" "0 # r"] f len split by (simp add: sdslen_def)
  moreover have "length (chars s) = hlen s + Suc (length r)"
    using split len by (metis length_append length_Cons)
  ultimately show ?thesis
    using s len by (auto simp: sds_wf_def sds_str_def nth_append)
qed

lemmas sdstolower_correct = sds_map_chars [of _ "\<lambda>c. Some (tolower c)" tolower, folded sdstolower_def, OF _ refl]
  and sdstoupper_correct = sds_map_chars [of _ "\<lambda>c. Some (toupper c)" toupper, folded sdstoupper_def, OF _ refl]

definition subst_char :: "buf \<Rightarrow> buf \<Rightarrow> byte \<Rightarrow> byte" where
  "subst_char from to c = (case map_of (zip from to) c of None \<Rightarrow> c | Some d \<Rightarrow> d)"

lemma map_char_correct:
  "i + n \<le> length from \<Longrightarrow> i + n \<le> length to \<Longrightarrow>
    map_char from to i n c = Some (subst_char (take n (drop i from)) (take n (drop i to)) c)"
proof (induction n arbitrary: i)
  case 0
  show ?case by (simp add: subst_char_def)
next
  case (Suc n)
  thus ?case
    using Suc.IH [of "Suc i"]
    by (auto simp: buf_simps subst_char_def Cons_nth_drop_Suc [of i "from", symmetric]
        Cons_nth_drop_Suc [of i to, symmetric])
qed

lemma sdsmapchars_correct:
  assumes "sds_wf s" "n \<le> length from" "n \<le> length to"
  shows "\<exists>s'. sdsmapchars s from to n = Some s' \<and> sds_wf s' \<and>
    sds_str s' = map (subst_char (take n from) (take n to)) (sds_str s)"
  unfolding sdsmapchars_def
  using assms by (intro sds_map_chars) (auto simp: map_char_correct)

section \<open>Comparison\<close>

text \<open>The lexicographic order of byte strings, a prefix before its extensions.\<close>

abbreviation lex_less :: "buf \<Rightarrow> buf \<Rightarrow> bool" where
  "lex_less \<equiv> ord_class.lexordp"

lemma memcmp_eq_0: "length a = length b \<Longrightarrow> memcmp a b = 0 \<longleftrightarrow> a = b"
  by (induction a b rule: memcmp.induct) (auto simp: word_uint_eq_iff)

lemma memcmp_less: "length a = length b \<Longrightarrow> memcmp a b < 0 \<longleftrightarrow> lex_less a b"
  by (induction a b rule: memcmp.induct) (auto simp: word_less_def word_uint_eq_iff)

lemma lexordp_prefix:
  "length a \<le> length b \<Longrightarrow> lex_less a b \<longleftrightarrow> lex_less a (take (length a) b) \<or> (take (length a) b = a \<and> length a < length b)"
  "length b \<le> length a \<Longrightarrow> lex_less a b \<longleftrightarrow> lex_less (take (length b) a) (b :: buf)"
proof -
  show "length a \<le> length b \<Longrightarrow> lex_less a b \<longleftrightarrow> lex_less a (take (length a) b) \<or> (take (length a) b = a \<and> length a < length b)"
  proof (induction a arbitrary: b)
    case Nil
    thus ?case by (cases b) auto
  next
    case (Cons x a)
    then obtain y b' where b: "b = y # b'" "length a \<le> length b'"
      by (cases b) auto
    show ?case
      unfolding b using Cons.IH [OF b(2)] by (cases x y rule: linorder_cases) auto
  qed
  show "length b \<le> length a \<Longrightarrow> lex_less a b \<longleftrightarrow> lex_less (take (length b) a) (b :: buf)"
  proof (induction b arbitrary: a)
    case (Cons x b)
    then obtain y a' where a: "a = y # a'" "length b \<le> length a'"
      by (cases a) auto
    show ?case
      unfolding a using Cons.IH [OF a(2)] by (cases x y rule: linorder_cases) auto
  qed simp
qed

lemma sdscmp_correct:
  assumes s: "sds_wf s1" "sds_wf s2"
  shows "\<exists>r. sdscmp s1 s2 = Some r \<and> (r = 0 \<longleftrightarrow> sds_str s1 = sds_str s2) \<and>
    (r < 0 \<longleftrightarrow> lex_less (sds_str s1) (sds_str s2))"
proof -
  define n where "n = (if hlen s1 < hlen s2 then hlen s1 else hlen s2)"
  define a b where "a = take n (sds_str s1)" and "b = take n (sds_str s2)"
  have len: "length (sds_str s1) = hlen s1" "length (sds_str s2) = hlen s2"
    "hlen s1 < length (chars s1)" "hlen s2 < length (chars s2)"
    using s by (auto simp: length_sds_str sds_wf_def)
  have ab: "length a = n" "length b = n" "take n (chars s1) = a" "take n (chars s2) = b"
    using len by (auto simp: a_def b_def n_def sds_str_def)
  have r: "sdscmp s1 s2 = Some (if memcmp a b = 0 then (if hlen s1 > hlen s2 then 1 else if hlen s1 < hlen s2 then - 1 else 0)
              else memcmp a b)"
    using len ab by (simp add: sdscmp_def sdslen_def Let_def n_def [symmetric] buf_simps)
      (auto simp: n_def buf_simps)
  have irr: "\<not> lex_less a a"
    using lexordp_irreflexive' by blast
  have cmp: "memcmp a b = 0 \<longleftrightarrow> a = b" "memcmp a b < 0 \<longleftrightarrow> lex_less a b"
    using ab by (simp_all add: memcmp_eq_0 memcmp_less)
  show ?thesis
  proof (cases "hlen s1 < hlen s2")
    case True
    hence "a = sds_str s1" "lex_less (sds_str s1) (sds_str s2) \<longleftrightarrow> lex_less a b \<or> b = a" "sds_str s1 \<noteq> sds_str s2"
      using lexordp_prefix(1) [of "sds_str s1" "sds_str s2"] len by (auto simp: a_def b_def n_def)
    thus ?thesis
      unfolding r using cmp True by auto
  next
    case False
    hence "b = sds_str s2" "lex_less (sds_str s1) (sds_str s2) \<longleftrightarrow> lex_less a b"
      "sds_str s1 = sds_str s2 \<longleftrightarrow> a = b \<and> hlen s1 = hlen s2"
      using lexordp_prefix(2) [of "sds_str s2" "sds_str s1"] len by (auto simp: a_def b_def n_def)
    thus ?thesis
      unfolding r using cmp False irr by auto
  qed
qed

section \<open>Numbers\<close>








section \<open>Strings of bytes as the abstract type\<close>

datatype sds_op =
    OpCat buf | OpCpy buf | OpGrow nat | OpRange int int | OpTrim buf | OpClear | OpUpdateLen
  | OpLower | OpUpper | OpMap buf buf | OpRoom nat | OpShrink

fun sds_apply :: "host \<Rightarrow> sds_op \<Rightarrow> sds \<Rightarrow> sds option" where
  "sds_apply h (OpCat t) s = sdscatlen h s t (length t)"
| "sds_apply h (OpCpy t) s = sdscpylen h s t (length t)"
| "sds_apply h (OpGrow n) s = sdsgrowzero h s n"
| "sds_apply h (OpRange i j) s = sdsrange s i j"
| "sds_apply h (OpTrim cs) s = sdstrim s (cs @ [0])"
| "sds_apply h OpClear s = sdsclear s"
| "sds_apply h OpUpdateLen s = sdsupdatelen s"
| "sds_apply h OpLower s = sdstolower s"
| "sds_apply h OpUpper s = sdstoupper s"
| "sds_apply h (OpMap fr to) s = sdsmapchars s fr to (length fr)"
| "sds_apply h (OpRoom n) s = sdsMakeRoomFor h s n"
| "sds_apply h OpShrink s = sdsRemoveFreeSpace h s"

fun str_apply :: "sds_op \<Rightarrow> buf \<Rightarrow> buf" where
  "str_apply (OpCat t) y = y @ t"
| "str_apply (OpCpy t) y = t"
| "str_apply (OpGrow n) y = y @ replicate (n - length y) 0"
| "str_apply (OpRange i j) y =
     take (nat (range_index (length y) j - range_index (length y) i + 1)) (drop (nat (range_index (length y) i)) y)"
| "str_apply (OpTrim cs) y = strip (in_cset cs) y"
| "str_apply OpClear y = []"
| "str_apply OpUpdateLen y = takeWhile (\<lambda>c. c \<noteq> 0) y"
| "str_apply OpLower y = map tolower y"
| "str_apply OpUpper y = map toupper y"
| "str_apply (OpMap fr to) y = map (subst_char fr (take (length fr) to)) y"
| "str_apply (OpRoom n) y = y"
| "str_apply OpShrink y = y"

text \<open>What the caller has to respect: no length of \<open>2 ^ 63\<close> or more, C strings as sets of characters.\<close>

fun op_fits :: "sds_op \<Rightarrow> buf \<Rightarrow> bool" where
  "op_fits (OpCat t) y = (length y + length t < 2 ^ 63)"
| "op_fits (OpCpy t) y = (length t < 2 ^ 63)"
| "op_fits (OpGrow n) y = (n < 2 ^ 63)"
| "op_fits (OpRange i j) y = (range_index (length y) j < LLONG_MAX)"
| "op_fits (OpTrim cs) y = (0 \<notin> set cs)"
| "op_fits (OpMap fr to) y = (length fr \<le> length to)"
| "op_fits (OpRoom n) y = (length y + n < 2 ^ 63)"
| "op_fits _ y = True"

fun sds_run :: "host \<Rightarrow> sds_op list \<Rightarrow> sds \<Rightarrow> sds option" where
  "sds_run h [] s = Some s"
| "sds_run h (op # ops) s = do { s \<leftarrow> sds_apply h op s; sds_run h ops s }"

fun run_fits :: "sds_op list \<Rightarrow> buf \<Rightarrow> bool" where
  "run_fits [] y = True"
| "run_fits (op # ops) y = (op_fits op y \<and> run_fits ops (str_apply op y))"

lemma length_strip: "length (strip P y) \<le> length y"
  by (metis strip_def length_rev length_dropWhile_le order_trans)

lemma str_apply_length: "length y < 2 ^ 63 \<Longrightarrow> op_fits op y \<Longrightarrow> length (str_apply op y) < 2 ^ 63"
  using length_strip [of "in_cset cs" y for cs] length_takeWhile_le [of _ y]
  by (cases op) (auto intro: le_less_trans)

lemma sds_apply_correct:
  assumes s: "sds_wf s" "hlen s < 2 ^ 63" and op: "op_fits op (sds_str s)"
  shows "\<exists>s'. sds_apply h op s = Some s' \<and> sds_wf s' \<and> sds_str s' = str_apply op (sds_str s)"
proof -
  note len = length_sds_str [OF s(1)]
  show ?thesis
  proof (cases op)
    case (OpCat t)
    thus ?thesis using sdscatlen_correct [OF s(1), of "length t" t h] op len by auto
  next
    case (OpCpy t)
    thus ?thesis using sdscpylen_correct [OF s(1), of "length t" t h] op by auto
  next
    case (OpGrow n)
    thus ?thesis using sdsgrowzero_correct [OF s(1), of n h] op len by auto
  next
    case (OpRange i j)
    thus ?thesis using sdsrange_correct [OF s(1), of j i] op len s(2) by auto
  next
    case (OpTrim cs)
    thus ?thesis using sdstrim_correct [OF s(1), of cs "[]"] op by auto
  next
    case (OpMap fr to)
    thus ?thesis using sdsmapchars_correct [OF s(1), of "length fr" fr to] op by auto
  next
    case (OpRoom n)
    thus ?thesis using sdsMakeRoomFor_correct [OF s(1), of n h] op len by auto
  next
    case OpShrink
    thus ?thesis using sdsRemoveFreeSpace_correct [OF s, of h] by auto
  qed (use sdsclear_correct sdsupdatelen_correct sdstolower_correct sdstoupper_correct s in auto)
qed

lemma sds_run_correct:
  "sds_wf s \<Longrightarrow> hlen s < 2 ^ 63 \<Longrightarrow> run_fits ops (sds_str s) \<Longrightarrow>
    \<exists>s'. sds_run h ops s = Some s' \<and> sds_wf s' \<and> sds_str s' = fold str_apply ops (sds_str s)"
proof (induction ops arbitrary: s)
  case (Cons op ops)
  then obtain s' where s': "sds_apply h op s = Some s'" "sds_wf s'" "sds_str s' = str_apply op (sds_str s)"
    using sds_apply_correct [of s op h] by auto
  have "hlen s' < 2 ^ 63"
    using Cons.prems str_apply_length [of "sds_str s" op] length_sds_str [of s] length_sds_str [of s'] s' by auto
  thus ?case
    using Cons.IH [of s'] Cons.prems(3) s' by auto
qed auto

section \<open>Properties\<close>

text \<open>
  C25: Any sequence of appends, copies, zero extensions, ranges, trims, case changes, character
  substitutions, length updates and reallocations does to a well-formed dynamic string what the
  corresponding operations do to the plain sequence of bytes that it holds. No operation
  of the sequence accesses memory outside the allocation, and the string stays well formed.
\<close>

theorem sds_run_refines:
  assumes "sds_wf s" "sdslen s < 2 ^ 63" "run_fits ops (sds_str s)"
  shows "\<exists>s'. sds_run h ops s = Some s' \<and> sds_wf s' \<and> sds_str s' = fold str_apply ops (sds_str s)"
  using sds_run_correct assms by (simp add: sdslen_def)

definition host_le :: host where
  "host_le = \<lparr>big_endian = False, fresh = (\<lambda>_. 7)\<rparr>"

definition sds_abc :: sds where
  "sds_abc = \<lparr>hdr = SDS_TYPE_5, hlen = 3, halloc = 0, chars = [97, 98, 99, 0]\<rparr>"

lemma sds_abc_wf: "sds_wf sds_abc \<and> sdslen sds_abc < 2 ^ 63 \<and> sds_str sds_abc = [97, 98, 99]"
  by (simp add: sds_abc_def sds_wf_def sdslen_def sds_str_def)

theorem sds_run_refines_witness:
  "\<exists>s'. sds_run host_le [OpCat [32, 100], OpUpper, OpRange 1 (- 1), OpTrim [66, 68]] sds_abc = Some s' \<and>
    sds_wf s' \<and> sds_str s' = [67, 32]"
proof -
  have "run_fits [OpCat [32, 100], OpUpper, OpRange 1 (- 1), OpTrim [66, 68]] (sds_str sds_abc)"
    using sds_abc_wf by (simp add: range_index_def)
  moreover have "fold str_apply [OpCat [32, 100], OpUpper, OpRange 1 (- 1), OpTrim [66, 68]] (sds_str sds_abc) = [67, 32]"
    using sds_abc_wf by (simp add: range_index_def strip_def in_cset_def toupper_def)
  ultimately show ?thesis
    using sds_run_refines [of sds_abc _ host_le] sds_abc_wf by metis
qed







end
