(* ===== verification/Sds_Args.thy ===== *)
theory Sds_Args
  imports Sds_Correct
begin

text \<open>
  Splitting and joining dynamic strings (\<^verbatim>\<open>sds.c\<close>): by a separator, and as command lines with
  quoted arguments. An array of strings is a list; a \<open>NULL\<close> array is the inner \<open>None\<close> of the results.
\<close>

section \<open>Splitting by a separator, joining\<close>







fun join_loop :: "(sds \<Rightarrow> 'a \<Rightarrow> sds option) \<Rightarrow> (sds \<Rightarrow> sds option) \<Rightarrow> sds \<Rightarrow> 'a list \<Rightarrow> sds option" where
  "join_loop cat cat_sep join [] = Some join"
| "join_loop cat cat_sep join (a # argv) = do {
     join \<leftarrow> cat join a;
     join \<leftarrow> (if argv \<noteq> [] then cat_sep join else Some join);
     join_loop cat cat_sep join argv }"

definition sdsjoin :: "host \<Rightarrow> buf list \<Rightarrow> buf \<Rightarrow> sds option" where
  "sdsjoin h argv sep = do {
     join \<leftarrow> sdsempty h;
     join_loop (sdscat h) (\<lambda>join. sdscat h join sep) join argv }"


section \<open>Quoted representations\<close>






definition isspace :: "byte \<Rightarrow> bool" where
  "isspace c \<longleftrightarrow> c = 32 \<or> 9 \<le> c \<and> c \<le> 13"





section \<open>Command lines\<close>

definition is_hex_digit :: "byte \<Rightarrow> bool" where
  "is_hex_digit c \<longleftrightarrow> 48 \<le> c \<and> c \<le> 57 \<or> 97 \<le> c \<and> c \<le> 102 \<or> 65 \<le> c \<and> c \<le> 70"

definition hex_digit_to_int :: "byte \<Rightarrow> nat" where
  "hex_digit_to_int c =
     (if 48 \<le> c \<and> c \<le> 57 then unat (c - 48)
      else if 97 \<le> c \<and> c \<le> 102 then unat (c - 87)
      else if 65 \<le> c \<and> c \<le> 70 then unat (c - 55)
      else 0)"



text \<open>
  One turn of the loop over a token: the position before the final increment, the two
  quoting flags, the token, and whether it is complete. The inner \<open>None\<close> is \<open>goto err\<close>.
\<close>

type_synonym token_step = "(nat \<times> bool \<times> bool \<times> sds \<times> bool) option option"

definition hex_escape :: "buf \<Rightarrow> nat \<Rightarrow> bool option" where
  "hex_escape line p = do {
     c \<leftarrow> nth_opt line p;
     if c \<noteq> 92 then Some False
     else do {
       c \<leftarrow> nth_opt line (p + 1);
       if c \<noteq> 120 then Some False
       else do {
         c \<leftarrow> nth_opt line (p + 2);
         if \<not> is_hex_digit c then Some False
         else do { c \<leftarrow> nth_opt line (p + 3); Some (is_hex_digit c) } } } }"

definition unescape :: "byte \<Rightarrow> byte" where
  "unescape c =
     (if c = 110 then 10 else if c = 114 then 13 else if c = 116 then 9
      else if c = 98 then 8 else if c = 97 then 7 else c)"

definition close_quote :: "buf \<Rightarrow> nat \<Rightarrow> bool \<Rightarrow> bool \<Rightarrow> sds \<Rightarrow> token_step" where
  "close_quote line p inq insq cur = do {
     d \<leftarrow> nth_opt line (p + 1);
     Some (if d \<noteq> 0 \<and> \<not> isspace d then None else Some (p, inq, insq, cur, True)) }"

definition cat_char :: "host \<Rightarrow> nat \<Rightarrow> bool \<Rightarrow> bool \<Rightarrow> sds \<Rightarrow> byte \<Rightarrow> token_step" where
  "cat_char h p inq insq cur c = do {
     cur \<leftarrow> sdscatlen h cur [c] 1;
     Some (Some (p, inq, insq, cur, False)) }"

definition inq_step :: "host \<Rightarrow> buf \<Rightarrow> nat \<Rightarrow> sds \<Rightarrow> token_step" where
  "inq_step h line p cur = do {
     c \<leftarrow> nth_opt line p;
     hex \<leftarrow> hex_escape line p;
     if hex then do {
       a \<leftarrow> nth_opt line (p + 2);
       b \<leftarrow> nth_opt line (p + 3);
       cat_char h (p + 3) True False cur (of_nat (hex_digit_to_int a * 16 + hex_digit_to_int b)) }
     else do {
       d \<leftarrow> (if c = 92 then nth_opt line (p + 1) else Some 0);
       if c = 92 \<and> d \<noteq> 0 then cat_char h (p + 1) True False cur (unescape d)
       else if c = 34 then close_quote line p True False cur
       else if c = 0 then Some None
       else cat_char h p True False cur c } }"

definition insq_step :: "host \<Rightarrow> buf \<Rightarrow> nat \<Rightarrow> sds \<Rightarrow> token_step" where
  "insq_step h line p cur = do {
     c \<leftarrow> nth_opt line p;
     d \<leftarrow> (if c = 92 then nth_opt line (p + 1) else Some 0);
     if c = 92 \<and> d = 39 then cat_char h (p + 1) False True cur 39
     else if c = 39 then close_quote line p False True cur
     else if c = 0 then Some None
     else cat_char h p False True cur c }"

definition plain_step :: "host \<Rightarrow> buf \<Rightarrow> nat \<Rightarrow> sds \<Rightarrow> token_step" where
  "plain_step h line p cur = do {
     c \<leftarrow> nth_opt line p;
     if c \<in> {32, 10, 13, 9, 0} then Some (Some (p, False, False, cur, True))
     else if c = 34 then Some (Some (p, True, False, cur, False))
     else if c = 39 then Some (Some (p, False, True, cur, False))
     else cat_char h p False False cur c }"

definition token_step :: "host \<Rightarrow> buf \<Rightarrow> nat \<Rightarrow> bool \<Rightarrow> bool \<Rightarrow> sds \<Rightarrow> token_step" where
  "token_step h line p inq insq cur =
     (if inq then inq_step h line p cur
      else if insq then insq_step h line p cur
      else plain_step h line p cur)"




section \<open>Splitting and joining are inverse\<close>















section \<open>Representations\<close>













section \<open>Parsing of command lines\<close>













section \<open>Reading back representations\<close>










section \<open>Properties\<close>







end
