(* ===== verification/Sds_Fmt.thy ===== *)
theory Sds_Fmt
  imports Sds_Correct
begin

text \<open>
  Formatted appends: \<open>sdscatfmt\<close> of \<^verbatim>\<open>sds.c\<close>, which writes into the free space of the string and
  terminates it at the end only.
\<close>

section \<open>The function\<close>










section \<open>What it prints\<close>












section \<open>Properties\<close>



end
