(* ===== verification/Manager.thy ===== *)
theory Manager
  imports Main "HOL-Library.List_Lexorder" "HOL-Library.Char_ord"
begin

text \<open>
  The manager application (\<^verbatim>\<open>src/src\<close>): the periodic scaling job, the workers it starts and
  stops, and the request handlers that change the policy.

  AWS, the database and the number types of Python are not part of the repository. What an AWS query returns is
  an input (a record \<open>aws\<close> of response functions, one for each point in time at which the code asks), what
  the code asks AWS to do is the list of requests that it issues, and floating-point arithmetic is a record of
  functions. A Python exception is the left value of a result.
\<close>

section \<open>The environment\<close>

record ec2_instance =
  i_id :: string
  i_state :: string
  i_tag :: string

record target =
  t_id :: string
  t_state :: string

type_synonym ec2_filters = "(string \<times> string list) list"

record 'f aws =
  ec2_filter :: "ec2_filters \<Rightarrow> ec2_instance list"
  describe_target_health :: "target list"
  cpu_datapoints :: "string \<Rightarrow> 'f list"
  new_instance :: "nat \<Rightarrow> string"

record 'f farith =
  fone :: 'f
  fzero :: 'f
  of_num :: "nat \<Rightarrow> 'f"
  fsub :: "'f \<Rightarrow> 'f \<Rightarrow> 'f"
  fmul :: "'f \<Rightarrow> 'f \<Rightarrow> 'f"
  fless :: "'f \<Rightarrow> 'f \<Rightarrow> bool"
  np_mean :: "'f list \<Rightarrow> 'f"
  math_ceil :: "'f \<Rightarrow> int option"
  to_int :: "'f \<Rightarrow> int option"

datatype exn = ValueError | TypeError | IndexError | AttributeError

datatype 'f request =
    CreateInstances | EnqueueRegister string
  | DeregisterTargets string | Terminate string | StopInstance string
  | AssociateIamInstanceProfile string | RegisterTargets string
  | PutMetric string 'f

section \<open>instances.py, loadbalancer.py\<close>

definition get_all_instances :: "'f aws \<Rightarrow> ec2_instance list \<times> nat" where
  "get_all_instances w =
     (let instances = ec2_filter w [(''tag:Name'', [''worker''])]
      in (instances, card (set (map i_id instances))))"

definition get_running_instances :: "'f aws \<Rightarrow> ec2_instance list \<times> nat" where
  "get_running_instances w =
     (let instances = ec2_filter w [(''instance-state-name'', [''running'']), (''tag:Name'', [''worker''])]
      in (instances, card (set (map i_id instances))))"

definition get_non_terminated_instances :: "'f aws \<Rightarrow> ec2_instance list \<times> nat" where
  "get_non_terminated_instances w =
     (let instances = ec2_filter w [(''instance-state-name'', [''running'', ''pending'', ''shutting-down'']),
                                    (''tag:Name'', [''worker''])]
      in (instances, card (set (map i_id instances))))"

definition has_pending_instances :: "'f aws \<Rightarrow> bool" where
  "has_pending_instances w =
     (let instances = ec2_filter w [(''instance-state-name'', [''pending'']), (''tag:Name'', [''worker''])]
      in if length instances = 0 then False else True)"

text \<open>The identifiers form a Python set; a list without repetitions is one order of its elements.\<close>

fun serving_loop :: "target list \<Rightarrow> string list \<Rightarrow> string list" where
  "serving_loop [] ids = ids"
| "serving_loop (t # ts) ids =
     serving_loop ts (if t_state t = ''healthy'' \<and> t_id t \<notin> set ids then ids @ [t_id t] else ids)"

definition get_serving_instances :: "'f aws \<Rightarrow> string list \<times> nat" where
  "get_serving_instances w =
     (let ids = serving_loop (describe_target_health w) [] in (ids, length ids))"

definition deregister_from_elb :: "string \<Rightarrow> 'f request list" where
  "deregister_from_elb i = [DeregisterTargets i]"

text \<open>The task that a new worker enqueues; it waits until the instance is running.\<close>

definition register_instance_to_elb :: "string \<Rightarrow> 'f request list" where
  "register_instance_to_elb i = [AssociateIamInstanceProfile i, RegisterTargets i]"

section \<open>worker.py\<close>

definition celery_create_worker :: "string \<Rightarrow> 'f request list" where
  "celery_create_worker i = [CreateInstances, EnqueueRegister i]"

definition destroy_a_worker :: "'f aws \<Rightarrow> string \<Rightarrow> 'f request list \<times> exn option" where
  "destroy_a_worker w i =
     (case ec2_filter w [(''InstanceIds'', [i])] of
        [] \<Rightarrow> (deregister_from_elb i, Some IndexError)
      | _ \<Rightarrow> (deregister_from_elb i @ [Terminate i], None))"

fun destroy_workers :: "'f aws \<Rightarrow> string list \<Rightarrow> 'f request list \<times> exn option" where
  "destroy_workers w [] = ([], None)"
| "destroy_workers w (i # ids) =
     (case destroy_a_worker w i of
        (reqs, Some e) \<Rightarrow> (reqs, Some e)
      | (reqs, None) \<Rightarrow> (case destroy_workers w ids of (reqs', r) \<Rightarrow> (reqs @ reqs', r)))"

text \<open>
  \<open>random.sample\<close> is a parameter; it raises \<open>ValueError\<close> when more elements are asked for than there are. The value is
  \<open>False\<close> when there is no worker (the function returns \<open>None\<close> otherwise).
\<close>

definition random_destroy_worker ::
    "(string list \<Rightarrow> nat \<Rightarrow> string list) \<Rightarrow> 'f aws \<Rightarrow> nat \<Rightarrow> 'f request list \<times> (exn + bool)" where
  "random_destroy_worker sample w to_destroy =
     (let (workers_id, num_running_workers) = get_serving_instances w
      in if num_running_workers = 0 then ([], Inr False)
         else if to_destroy > length workers_id then ([], Inl ValueError)
         else case destroy_workers w (sample workers_id to_destroy) of
                (reqs, Some e) \<Rightarrow> (reqs, Inl e)
              | (reqs, None) \<Rightarrow> (reqs, Inr True))"

section \<open>cpu.py\<close>

definition get_avg_cpu_utilization_2 :: "'f farith \<Rightarrow> 'f aws \<Rightarrow> 'f option" where
  "get_avg_cpu_utilization_2 F w =
     (let (inservice_instances_id, num_workers) = get_serving_instances w
      in if length inservice_instances_id = 0 then None
         else
           let cpu_stats_list = map (np_mean F)
                 (filter (\<lambda>s. length s \<noteq> 0) (map (cpu_datapoints w) inservice_instances_id))
           in if length cpu_stats_list \<noteq> 0 then Some (np_mean F cpu_stats_list) else None)"

section \<open>background.py\<close>

fun cpu_util_loop :: "'f farith \<Rightarrow> 'f aws \<Rightarrow> string list \<Rightarrow> 'f list \<Rightarrow> bool \<times> 'f" where
  "cpu_util_loop F w [] cpu_stats_list = (True, np_mean F cpu_stats_list)"
| "cpu_util_loop F w (i # ids) cpu_stats_list =
     (let cpu_stats = cpu_datapoints w i
      in if length cpu_stats = 0 then (False, fzero F)
         else cpu_util_loop F w ids (cpu_stats_list @ [np_mean F cpu_stats]))"

definition all_instance_has_valid_cpu_util :: "'f farith \<Rightarrow> 'f aws \<Rightarrow> bool \<times> 'f" where
  "all_instance_has_valid_cpu_util F w =
     (let (workers_ids, num_workers) = get_serving_instances w in cpu_util_loop F w workers_ids [])"

text \<open>The columns of the configuration may be \<open>NULL\<close>; arithmetic and comparison with \<open>None\<close> raise \<open>TypeError\<close>.\<close>

record 'f autoScalingConfig =
  isOn :: bool
  shrink_ratio :: "'f option"
  expand_ratio :: "'f option"
  shrink_threshold :: "'f option"
  expand_threshold :: "'f option"

definition to_create :: "'f farith \<Rightarrow> 'f autoScalingConfig \<Rightarrow> nat \<Rightarrow> nat \<Rightarrow> exn + nat" where
  "to_create F c num_workers num_non_terminated =
     (case expand_ratio c of
        None \<Rightarrow> Inl TypeError
      | Some r \<Rightarrow>
          case math_ceil F (fmul F (fsub F r (fone F)) (of_num F num_workers)) of
            None \<Rightarrow> Inl ValueError
          | Some n \<Rightarrow>
              Inr (nat (if n + int num_non_terminated \<ge> 8 then max (8 - int num_non_terminated) 0 else n)))"

definition create_workers :: "'f aws \<Rightarrow> nat \<Rightarrow> 'f request list" where
  "create_workers w n = concat (map (\<lambda>i. celery_create_worker (new_instance w i)) [0..<n])"

definition expand :: "'f farith \<Rightarrow> 'f aws \<Rightarrow> 'f autoScalingConfig \<Rightarrow> nat \<Rightarrow> nat \<Rightarrow> 'f request list \<times> exn option" where
  "expand F w c num_workers num_non_terminated =
     (if num_non_terminated \<ge> 8 then ([], None)
      else case to_create F c num_workers num_non_terminated of
             Inl e \<Rightarrow> ([], Some e)
           | Inr n \<Rightarrow> (create_workers w n, None))"

definition shrink :: "'f farith \<Rightarrow> (string list \<Rightarrow> nat \<Rightarrow> string list) \<Rightarrow> 'f aws \<Rightarrow> 'f autoScalingConfig \<Rightarrow> nat \<Rightarrow>
    'f request list \<times> exn option" where
  "shrink F sample w c num_workers =
     (case shrink_ratio c of
        None \<Rightarrow> ([], Some TypeError)
      | Some r \<Rightarrow>
          case to_int F (fmul F r (of_num F num_workers)) of
            None \<Rightarrow> ([], Some ValueError)
          | Some to_destroy \<Rightarrow>
              if to_destroy > 0 then
                case random_destroy_worker sample w (nat to_destroy) of
                  (reqs, Inl e) \<Rightarrow> (reqs, Some e)
                | (reqs, Inr _) \<Rightarrow> (reqs, None)
              else ([], None))"

text \<open>
  The job that runs every ten seconds. \<open>w k\<close> is AWS at the moment of the \<open>k\<close>-th query.
\<close>

definition auto_check_avg_cpu_utilization :: "'f farith \<Rightarrow> (string list \<Rightarrow> nat \<Rightarrow> string list) \<Rightarrow> (nat \<Rightarrow> 'f aws) \<Rightarrow>
    'f autoScalingConfig option \<Rightarrow> 'f request list \<times> exn option" where
  "auto_check_avg_cpu_utilization F sample w config =
     (case config of
        None \<Rightarrow> ([], None)
      | Some c \<Rightarrow>
          if isOn c \<and> \<not> has_pending_instances (w 0) then
            let (_, num_workers) = get_serving_instances (w 1);
                (_, num_running_instances) = get_running_instances (w 2)
            in if num_workers \<noteq> num_running_instances then ([], None)
               else
                 let (_, num_non_terminated_instances) = get_non_terminated_instances (w 3);
                     (all_has_cpu_util, avg_cpu_util) = all_instance_has_valid_cpu_util F (w 4)
                 in if \<not> all_has_cpu_util then ([], None)
                    else case expand_threshold c of
                      None \<Rightarrow> ([], Some TypeError)
                    | Some hi \<Rightarrow>
                        if fless F hi avg_cpu_util then expand F (w 5) c num_workers num_non_terminated_instances
                        else case shrink_threshold c of
                          None \<Rightarrow> ([], Some TypeError)
                        | Some lo \<Rightarrow>
                            if fless F avg_cpu_util lo then shrink F sample (w 5) c num_workers
                            else ([], None)
          else ([], None))"

definition record_serving_instances_avg_cpu_util :: "'f farith \<Rightarrow> 'f aws \<Rightarrow> 'f request list" where
  "record_serving_instances_avg_cpu_util F w =
     (let (workers_ids, num_workers) = get_serving_instances w;
          cpu_stats_list = map (np_mean F) (filter (\<lambda>s. length s \<noteq> 0) (map (cpu_datapoints w) workers_ids));
          avg_cpu_util = (if num_workers \<noteq> 0 \<and> length cpu_stats_list \<noteq> 0 then np_mean F cpu_stats_list else fzero F)
      in [PutMetric ''num-workers-average'' (of_num F num_workers), PutMetric ''avg-cpu-util'' avg_cpu_util])"

section \<open>The request handlers\<close>

text \<open>\<open>autoscaling/view.py\<close>: the form fields that \<open>apply\<close> reads are \<open>None\<close> when absent.\<close>

definition apply_policy :: "(string \<Rightarrow> 'f option) \<Rightarrow> 'f autoScalingConfig option \<Rightarrow> 'f autoScalingConfig option" where
  "apply_policy form config =
     (let expand_threshold_v = form ''expand-threshold'';
          shrink_threshold_v = form ''shrink-threshold'';
          expand_ratio_v = form ''expand-ratio'';
          shrink_ratio_v = form ''shrink-threshold''
      in case config of
           None \<Rightarrow> Some \<lparr>isOn = True, shrink_ratio = shrink_ratio_v, expand_ratio = expand_ratio_v,
                          shrink_threshold = shrink_threshold_v, expand_threshold = expand_threshold_v\<rparr>
         | Some c \<Rightarrow> Some (c\<lparr>isOn := True, shrink_ratio := shrink_ratio_v, expand_ratio := expand_ratio_v,
                              shrink_threshold := shrink_threshold_v, expand_threshold := expand_threshold_v\<rparr>))"

text \<open>\<open>manualscaling/view.py\<close>\<close>

definition create_worker :: "'f aws \<Rightarrow> 'f request list \<times> string" where
  "create_worker w =
     (let (_, non_terminated_instances) = get_non_terminated_instances w
      in if non_terminated_instances \<ge> 8
         then ([], ''Number of instances reaches maximum limit! (10 instances allowed)'')
         else (celery_create_worker (new_instance w 0), ''A new instance has been created successfully''))"

definition destroy_worker :: "(string list \<Rightarrow> nat \<Rightarrow> string list) \<Rightarrow> 'f aws \<Rightarrow> 'f request list \<times> (exn + string)" where
  "destroy_worker sample w =
     (case random_destroy_worker sample w 1 of
        (reqs, Inl e) \<Rightarrow> (reqs, Inl e)
      | (reqs, Inr False) \<Rightarrow> (reqs, Inr ''No available running workers!'')
      | (reqs, Inr True) \<Rightarrow> (reqs, Inr ''an instance has been deleted successfully''))"

definition turn_on :: "'f autoScalingConfig option \<Rightarrow> exn + 'f autoScalingConfig option" where
  "turn_on config =
     (case config of None \<Rightarrow> Inl AttributeError | Some c \<Rightarrow> Inr (Some (c\<lparr>isOn := False\<rparr>)))"

text \<open>\<open>detail/view.py\<close> and \<open>panel/view.py\<close>\<close>

definition destroy_all :: "'f aws \<Rightarrow> 'f request list \<times> exn option" where
  "destroy_all w = destroy_workers w (map i_id (ec2_filter w [(''tag:Name'', [''worker''])]))"

definition stop_manager :: "'f aws \<Rightarrow> 'f request list \<times> exn option" where
  "stop_manager w =
     (case destroy_workers w (map i_id (ec2_filter w [(''tag:Name'', [''worker''])])) of
        (reqs, Some e) \<Rightarrow> (reqs, Some e)
      | (reqs, None) \<Rightarrow> (reqs @ map (\<lambda>m. StopInstance (i_id m)) (ec2_filter w [(''tag:Name'', [''Manager''])]), None))"

text \<open>\<open>util.py\<close>: labels and values of a chart, from datapoints with an hour, a minute and a value.\<close>

fun digits :: "nat \<Rightarrow> string" where
  "digits n = (if n < 10 then [char_of (48 + n)] else digits (n div 10) @ [char_of (48 + n mod 10)])"

declare digits.simps [simp del]

definition time_label :: "nat \<Rightarrow> nat \<Rightarrow> string" where
  "time_label hour minute = digits hour @ '':'' @ (if minute < 10 then ''0'' else []) @ digits minute"

definition return_label_values :: "(nat \<times> nat \<times> 'v::linorder) list \<Rightarrow> 'v \<Rightarrow> string list \<times> 'v list \<times> 'v" where
  "return_label_values datapoints zero =
     (let storage_list = map (\<lambda>(hour, minute, v). (time_label hour minute, v)) datapoints;
          storage_list = sort_key fst storage_list;
          labels = map fst storage_list;
          values = map snd storage_list;
          max_val = (if length storage_list \<noteq> 0 then Max (set values) else zero)
      in (labels, values, max_val))"

end
