(* ===== verification/Manager_Correct.thy ===== *)
theory Manager_Correct
  imports Manager
begin

text \<open>
  What the manager may and may not ask AWS to do: the limit on the number of workers, the order of
  draining and termination, and the failures of the scaling policy.
\<close>

section \<open>Requests\<close>

definition creates :: "'f request list \<Rightarrow> nat" where
  "creates reqs = length (filter (\<lambda>r. r = CreateInstances) reqs)"

fun terminated :: "'f request list \<Rightarrow> string list" where
  "terminated [] = []"
| "terminated (Terminate i # rs) = i # terminated rs"
| "terminated (_ # rs) = terminated rs"

text \<open>Every termination comes right after the instance is taken out of the load balancer.\<close>

fun drained :: "'f request list \<Rightarrow> bool" where
  "drained [] = True"
| "drained (Terminate i # rs) = False"
| "drained (DeregisterTargets i # Terminate j # rs) = (i = j \<and> drained rs)"
| "drained (_ # rs) = drained rs"

lemma creates_simps [simp]:
  "creates [] = 0" "creates (r # rs) = (if r = CreateInstances then 1 else 0) + creates rs"
  "creates (xs @ ys) = creates xs + creates ys"
  by (auto simp: creates_def)

lemma terminated_append [simp]: "terminated (xs @ ys) = terminated xs @ terminated ys"
  by (induction xs rule: terminated.induct) auto

lemma serving_loop_distinct: "distinct ids \<Longrightarrow> distinct (serving_loop ts ids)"
  by (induction ts arbitrary: ids) auto

lemma serving_loop_set: "set (serving_loop ts ids) = set ids \<union> t_id ` {t \<in> set ts. t_state t = ''healthy''}"
  by (induction ts arbitrary: ids) auto

lemma get_serving_distinct: "distinct (fst (get_serving_instances w))"
  by (simp add: get_serving_instances_def Let_def serving_loop_distinct)


lemma create_workers_simps [simp]:
  "creates (create_workers w n) = n" "terminated (create_workers w n) = []" "drained (create_workers w n)"
proof -
  show "creates (create_workers w n) = n"
    by (induction n) (auto simp: create_workers_def celery_create_worker_def)
  show "terminated (create_workers w n) = []"
    by (induction n) (auto simp: create_workers_def celery_create_worker_def)
  have "drained (concat (map (\<lambda>i. celery_create_worker (new_instance w i)) xs))" for xs
    by (induction xs) (auto simp: celery_create_worker_def)
  thus "drained (create_workers w n)"
    by (simp add: create_workers_def)
qed

lemma drained_deregister: "drained rs \<Longrightarrow> drained (DeregisterTargets i # rs)"
  by (cases rs rule: drained.cases) auto

text \<open>Destroying workers: a prefix of them is terminated, each after it is drained, and nothing is created.\<close>

lemma destroy_workers_requests:
  assumes "destroy_workers w ids = (reqs, r)"
  shows "creates reqs = 0 \<and> drained reqs \<and> (\<exists>k. terminated reqs = take k ids) \<and> (r = None \<longrightarrow> terminated reqs = ids)"
  using assms
proof (induction ids arbitrary: reqs r)
  case (Cons i ids)
  show ?case
  proof (cases "ec2_filter w [(''InstanceIds'', [i])]")
    case Nil
    hence "reqs = [DeregisterTargets i]" "r = Some IndexError"
      using Cons.prems by (auto simp: destroy_a_worker_def deregister_from_elb_def)
    thus ?thesis
      by (auto intro: exI [of _ 0])
  next
    case (Cons a as)
    obtain reqs' r' where rec: "destroy_workers w ids = (reqs', r')"
      by (cases "destroy_workers w ids")
    hence "reqs = DeregisterTargets i # Terminate i # reqs'" "r = r'"
      using Cons Cons.prems by (auto simp: destroy_a_worker_def deregister_from_elb_def)
    moreover obtain k where "creates reqs' = 0" "drained reqs'" "terminated reqs' = take k ids" "r' = None \<longrightarrow> terminated reqs' = ids"
      using Cons.IH [OF rec] by blast
    ultimately show ?thesis
      by (auto intro: exI [of _ "Suc k"])
  qed
qed auto

definition sample_ok :: "(string list \<Rightarrow> nat \<Rightarrow> string list) \<Rightarrow> bool" where
  "sample_ok sample \<longleftrightarrow>
     (\<forall>xs k. distinct xs \<longrightarrow> k \<le> length xs \<longrightarrow>
        length (sample xs k) = k \<and> distinct (sample xs k) \<and> set (sample xs k) \<subseteq> set xs)"

lemma random_destroy_requests:
  assumes s: "sample_ok sample" and d: "random_destroy_worker sample w n = (reqs, r)"
  shows "creates reqs = 0 \<and> drained reqs \<and> distinct (terminated reqs) \<and> length (terminated reqs) \<le> n \<and>
    set (terminated reqs) \<subseteq> set (fst (get_serving_instances w)) \<and> (r = Inr True \<longrightarrow> length (terminated reqs) = n)"
proof -
  obtain ids m where ids: "get_serving_instances w = (ids, m)" "distinct ids"
    using get_serving_distinct [of w] by (metis prod.collapse)
  show ?thesis
  proof (cases "m = 0 \<or> n > length ids")
    case True
    thus ?thesis
      using d ids by (auto simp: random_destroy_worker_def split: if_splits)
  next
    case False
    obtain q e where q: "destroy_workers w (sample ids n) = (q, e)"
      by (cases "destroy_workers w (sample ids n)")
    have sa: "length (sample ids n) = n" "distinct (sample ids n)" "set (sample ids n) \<subseteq> set ids"
      using s False ids(2) by (auto simp: sample_ok_def)
    obtain k where k: "creates q = 0" "drained q" "terminated q = take k (sample ids n)" "e = None \<longrightarrow> terminated q = sample ids n"
      using destroy_workers_requests [OF q] by blast
    have "reqs = q" "r = Inr True \<longrightarrow> e = None"
      using d ids False q by (auto simp: random_destroy_worker_def split: option.splits)
    thus ?thesis
      using k sa ids set_take_subset [of k "sample ids n"] by auto
  qed
qed

section \<open>The scaling job\<close>

lemma expand_requests:
  assumes "expand F w c n m = (reqs, r)"
  shows "creates reqs + m \<le> max 8 m \<and> terminated reqs = [] \<and> drained reqs"
proof (cases "m \<ge> 8 \<or> (\<exists>e. to_create F c n m = Inl e)")
  case True
  thus ?thesis
    using assms by (auto simp: expand_def split: if_splits sum.splits)
next
  case False
  then obtain k where k: "to_create F c n m = Inr k" "m < 8"
    by (cases "to_create F c n m") auto
  hence "k + m \<le> 8"
    by (auto simp: to_create_def split: option.splits if_splits)
  thus ?thesis
    using assms k by (auto simp: expand_def)
qed

lemma shrink_requests:
  assumes "sample_ok sample" "shrink F sample w c n = (reqs, r)"
  shows "creates reqs = 0 \<and> drained reqs \<and> distinct (terminated reqs) \<and>
    set (terminated reqs) \<subseteq> set (fst (get_serving_instances w))"
proof -
  consider "reqs = []" | k q where "random_destroy_worker sample w k = (reqs, q)"
    using assms(2) by (auto simp: shrink_def split: option.splits if_splits sum.splits prod.splits)
  thus ?thesis
  proof cases
    case 1
    thus ?thesis by simp
  next
    case (2 k q)
    show ?thesis
      using random_destroy_requests [OF assms(1) 2] by simp
  qed
qed

lemma auto_check_cases:
  assumes "auto_check_avg_cpu_utilization F sample w config = (reqs, r)"
  obtains "reqs = []"
    | c n where "expand F (w 5) c n (snd (get_non_terminated_instances (w 3))) = (reqs, r)"
    | c n where "shrink F sample (w 5) c n = (reqs, r)"
proof -
  consider "reqs = []" | "\<exists>c n. expand F (w 5) c n (snd (get_non_terminated_instances (w 3))) = (reqs, r)"
    | "\<exists>c n. shrink F sample (w 5) c n = (reqs, r)"
    using assms unfolding auto_check_avg_cpu_utilization_def
    by (fastforce simp: Let_def split: option.splits if_splits prod.splits)
  thus thesis
    using that by cases blast+
qed

lemma auto_check_requests:
  assumes "sample_ok sample" "auto_check_avg_cpu_utilization F sample w config = (reqs, r)"
    and m: "m = snd (get_non_terminated_instances (w 3))"
  shows "creates reqs + m \<le> max 8 m \<and> (creates reqs = 0 \<or> terminated reqs = []) \<and> drained reqs \<and>
    distinct (terminated reqs) \<and> set (terminated reqs) \<subseteq> set (fst (get_serving_instances (w 5)))"
  using assms(2)
proof (cases rule: auto_check_cases)
  case 1
  thus ?thesis by simp
next
  case (2 c n)
  thus ?thesis
    using expand_requests by (fastforce simp: m)
next
  case (3 c n)
  thus ?thesis
    using shrink_requests [OF assms(1)] by fastforce
qed

section \<open>The fleet over time\<close>









section \<open>Failures of the policy\<close>




text \<open>
  Without a serving worker the mean utilization is the mean of an empty list, a NaN that compares with nothing, so that the job
  does not start a worker.
\<close>

lemma auto_check_no_worker:
  assumes "fst (get_serving_instances (w 4)) = []" "\<And>x. \<not> fless F x (np_mean F [])" "\<And>x. \<not> fless F (np_mean F []) x"
  shows "fst (auto_check_avg_cpu_utilization F sample w config) = []"
proof -
  obtain m where "get_serving_instances (w 4) = ([], m)"
    using assms(1) by (metis prod.collapse)
  hence "all_instance_has_valid_cpu_util F (w 4) = (True, np_mean F [])"
    by (simp add: all_instance_has_valid_cpu_util_def)
  thus ?thesis
    using assms(2,3) by (simp add: auto_check_avg_cpu_utilization_def split: option.split prod.split)
qed

text \<open>The labels of a chart are sorted as strings: an hour with two digits comes before one with one digit.\<close>

lemma label_order: "fst (return_label_values [(9, 58, 1 :: nat), (9, 59, 2), (10, 0, 3)] 0) = [''10:00'', ''9:58'', ''9:59'']"
proof -
  have "time_label 9 58 = ''9:58''" "time_label 9 59 = ''9:59''" "time_label 10 0 = ''10:00''"
    by code_simp+
  thus ?thesis
    by (simp add: return_label_values_def Let_def)
qed

text \<open>An instance of the environment: two workers in service, numbers as integers.\<close>

definition demo_arith :: "int farith" where
  "demo_arith = \<lparr>fone = 1, fzero = 0, of_num = int, fsub = (-), fmul = (*), fless = (<),
     np_mean = (\<lambda>xs. if xs = [] then 0 else sum_list xs div int (length xs)), math_ceil = Some, to_int = Some\<rparr>"

definition demo_aws :: "int \<Rightarrow> int aws" where
  "demo_aws cpu = \<lparr>
     ec2_filter = (\<lambda>fs. if fs = [(''instance-state-name'', [''pending'']), (''tag:Name'', [''worker''])] then []
        else [\<lparr>i_id = ''a'', i_state = ''running'', i_tag = ''worker''\<rparr>, \<lparr>i_id = ''b'', i_state = ''running'', i_tag = ''worker''\<rparr>]),
     describe_target_health = [\<lparr>t_id = ''a'', t_state = ''healthy''\<rparr>, \<lparr>t_id = ''b'', t_state = ''healthy''\<rparr>,
        \<lparr>t_id = ''c'', t_state = ''draining''\<rparr>],
     cpu_datapoints = (\<lambda>_. [cpu]), new_instance = (\<lambda>_. ''n'')\<rparr>"

definition demo_form :: "string \<Rightarrow> int option" where
  "demo_form k =
     (if k = ''expand-threshold'' then Some 80 else if k = ''shrink-threshold'' then Some 20
      else if k = ''expand-ratio'' then Some 3 else if k = ''shrink-ratio'' then Some 0 else None)"


lemma demo_sample: "sample_ok (\<lambda>xs k. take k xs)"
  using set_take_subset by (fastforce simp: sample_ok_def)

section \<open>Properties\<close>

text \<open>
  C33: Whatever AWS answers and however it changes between the queries of one run (the look-ups of the loop that
  terminates workers count as one), the scaling job
  never asks for more workers than are missing to eight, never creates and terminates in the same run, terminates only
  workers that are in service, each at most once, and takes each out of the load balancer right before it terminates it.
\<close>

theorem auto_check_safe:
  assumes "sample_ok sample" "auto_check_avg_cpu_utilization F sample w config = (reqs, r)"
  shows "creates reqs + snd (get_non_terminated_instances (w 3)) \<le> max 8 (snd (get_non_terminated_instances (w 3))) \<and>
    (creates reqs = 0 \<or> terminated reqs = []) \<and> drained reqs \<and> distinct (terminated reqs) \<and>
    set (terminated reqs) \<subseteq> set (fst (get_serving_instances (w 5)))"
  using auto_check_requests [OF assms refl] .

theorem auto_check_safe_witness:
  "creates (fst (auto_check_avg_cpu_utilization demo_arith (\<lambda>xs k. take k xs) (\<lambda>_. demo_aws 90) (apply_policy demo_form None))) = 4 \<and>
   creates (fst (auto_check_avg_cpu_utilization demo_arith (\<lambda>xs k. take k xs) (\<lambda>_. demo_aws 90) (apply_policy demo_form None))) +
     snd (get_non_terminated_instances (demo_aws 90)) \<le> max 8 (snd (get_non_terminated_instances (demo_aws 90)))"
proof
  show "creates (fst (auto_check_avg_cpu_utilization demo_arith (\<lambda>xs k. take k xs) (\<lambda>_. demo_aws 90) (apply_policy demo_form None))) = 4"
    by code_simp
  show "creates (fst (auto_check_avg_cpu_utilization demo_arith (\<lambda>xs k. take k xs) (\<lambda>_. demo_aws 90) (apply_policy demo_form None))) +
     snd (get_non_terminated_instances (demo_aws 90)) \<le> max 8 (snd (get_non_terminated_instances (demo_aws 90)))"
    using auto_check_safe [OF demo_sample prod.collapse [symmetric], of demo_arith "\<lambda>_. demo_aws 90" "apply_policy demo_form None"]
    by (rule conjunct1)
qed





end
