(* ===== verification/Crc_Correct.thy ===== *)
theory Crc_Correct
  imports Crc
begin

text \<open>
  The table-driven checksums of \<open>crc64.c\<close> and \<open>crc16.c\<close> compute the bitwise definitions, and CRC-64 detects every
  error confined to eight consecutive bytes.
\<close>

section \<open>One step of CRC-64\<close>

lemma crc64_bit_xor: "crc64_bit (a XOR b) = crc64_bit a XOR crc64_bit b"
  by (auto simp: crc64_bit_def bit_simps ac_simps)

lemma crc64_bits_xor: "(crc64_bit ^^ n) (a XOR b) = (crc64_bit ^^ n) a XOR (crc64_bit ^^ n) b"
  by (induction n) (simp_all add: crc64_bit_xor)

lemma crc64_bits_shift:
  assumes "\<And>i. 64 - n \<le> i \<Longrightarrow> \<not> bit x i" "n \<le> 64"
  shows "(crc64_bit ^^ n) (push_bit n x) = x"
  using assms
proof (induction n)
  case (Suc n)
  have "\<not> bit (push_bit (Suc n) x) 0"
    unfolding bit_push_bit_iff by simp
  hence "crc64_bit (push_bit (Suc n) x) = drop_bit 1 (push_bit (Suc n) x)"
    unfolding crc64_bit_def by simp
  also have "\<dots> = push_bit n x"
  proof (rule bit_word_eqI)
    fix m :: nat assume "m < LENGTH(64)"
    moreover from this have "m < 63 \<or> \<not> bit x (m - n)"
      using Suc.prems(1) [of "m - n"] diff_le_mono [of 63 m n] by auto
    ultimately show "bit (drop_bit 1 (push_bit (Suc n) x)) m = bit (push_bit n x) m"
      unfolding bit_drop_bit_eq bit_push_bit_iff comp_def by auto
  qed
  finally show ?case
    using Suc by (simp add: funpow_Suc_right del: funpow.simps)
qed simp

lemma crc64_basis:
  "crc64_tab ! 1 = (crc64_bit ^^ 8) 1" "crc64_tab ! 2 = (crc64_bit ^^ 8) 2"
  "crc64_tab ! 4 = (crc64_bit ^^ 8) 4" "crc64_tab ! 8 = (crc64_bit ^^ 8) 8"
  "crc64_tab ! 16 = (crc64_bit ^^ 8) 16" "crc64_tab ! 32 = (crc64_bit ^^ 8) 32"
  "crc64_tab ! 64 = (crc64_bit ^^ 8) 64" "crc64_tab ! 128 = (crc64_bit ^^ 8) 128"
  unfolding funpow_8 by (simp_all add: crc64_tab_def crc64_bit_def)

lemma crc64_tab_nth:
  assumes "i < 256"
  shows "crc64_tab ! i = (crc64_bit ^^ 8) (word_of_nat i)"
proof (rule table_correct [OF crc64_tab_linear _ _ assms])
  fix a b :: nat
  show "(crc64_bit ^^ 8) (word_of_nat (a XOR b)) = (crc64_bit ^^ 8) (word_of_nat a) XOR (crc64_bit ^^ 8) (word_of_nat b)"
    by (simp add: of_nat_xor_eq crc64_bits_xor)
next
  fix k :: nat assume "k < 8"
  from less_8_cases [OF this] show "crc64_tab ! (2 ^ k) = (crc64_bit ^^ 8) (word_of_nat (2 ^ k))"
    by (elim disjE) (simp_all only: power_0 power_one_right two_powers of_nat_1 of_nat_numeral crc64_basis)
qed

lemma crc64_step:
  "(crc64_bit ^^ 8) (c XOR ucast b) = crc64_tab ! unat ((ucast c :: byte) XOR b) XOR drop_bit 8 c"
proof -
  have split: "c XOR ucast b = push_bit 8 (drop_bit 8 c) XOR ucast ((ucast c :: byte) XOR b)"
    by (rule bit_word_eqI) (auto simp: bit_simps)
  have "unat ((ucast c :: byte) XOR b) < 256"
    using unsigned_less [of "(ucast c :: byte) XOR b"] by simp
  hence "crc64_tab ! unat ((ucast c :: byte) XOR b) = (crc64_bit ^^ 8) (ucast ((ucast c :: byte) XOR b))"
    by (simp add: crc64_tab_nth)
  moreover have "(crc64_bit ^^ 8) (push_bit 8 (drop_bit 8 c)) = drop_bit 8 c"
    by (rule crc64_bits_shift) (auto simp: bit_drop_bit_eq dest: bit_imp_le_length)
  ultimately show ?thesis
    unfolding split crc64_bits_xor by (simp add: ac_simps)
qed

lemma crc64_eq_ref: "crc64 c s = crc64_ref c s"
  by (induction s arbitrary: c) (simp_all add: crc64_ref_def crc64_step)

section \<open>One step of CRC-16\<close>

lemma crc16_bit_xor: "crc16_bit (a XOR b) = crc16_bit a XOR crc16_bit b"
  by (auto simp: crc16_bit_def bit_simps ac_simps push_bit_xor)

lemma crc16_bits_xor: "(crc16_bit ^^ n) (a XOR b) = (crc16_bit ^^ n) a XOR (crc16_bit ^^ n) b"
  by (induction n) (simp_all add: crc16_bit_xor)

lemma crc16_bits_shift:
  assumes "\<And>i. 16 - n \<le> i \<Longrightarrow> \<not> bit x i" "n \<le> 16"
  shows "(crc16_bit ^^ n) x = push_bit n x"
  using assms
proof (induction n)
  case (Suc n)
  have "\<not> bit x (15 - n)"
    using Suc.prems by auto
  moreover have "(crc16_bit ^^ n) x = push_bit n x"
    using Suc by auto
  ultimately show ?case
    using Suc.prems by (simp add: crc16_bit_def [of "push_bit n x"] bit_push_bit_iff push_bit_push_bit del: push_bit_Suc)
qed simp

lemma crc16_basis:
  "crc16tab ! 1 = (crc16_bit ^^ 8) 0x100" "crc16tab ! 2 = (crc16_bit ^^ 8) 0x200"
  "crc16tab ! 4 = (crc16_bit ^^ 8) 0x400" "crc16tab ! 8 = (crc16_bit ^^ 8) 0x800"
  "crc16tab ! 16 = (crc16_bit ^^ 8) 0x1000" "crc16tab ! 32 = (crc16_bit ^^ 8) 0x2000"
  "crc16tab ! 64 = (crc16_bit ^^ 8) 0x4000" "crc16tab ! 128 = (crc16_bit ^^ 8) 0x8000"
  unfolding funpow_8 by (simp_all add: crc16tab_def crc16_bit_def)

lemma crc16tab_nth:
  assumes "i < 256"
  shows "crc16tab ! i = (crc16_bit ^^ 8) (push_bit 8 (word_of_nat i))"
proof (rule table_correct [OF crc16tab_linear _ _ assms])
  fix a b :: nat
  show "(crc16_bit ^^ 8) (push_bit 8 (word_of_nat (a XOR b))) =
    (crc16_bit ^^ 8) (push_bit 8 (word_of_nat a)) XOR (crc16_bit ^^ 8) (push_bit 8 (word_of_nat b))"
    by (simp add: of_nat_xor_eq crc16_bits_xor push_bit_xor)
next
  fix k :: nat assume "k < 8"
  from less_8_cases [OF this] show "crc16tab ! (2 ^ k) = (crc16_bit ^^ 8) (push_bit 8 (word_of_nat (2 ^ k)))"
    by (elim disjE) (simp_all add: crc16_basis crc16_basis(1) [unfolded One_nat_def])
qed

lemma crc16_step:
  fixes b :: byte
  shows "(crc16_bit ^^ 8) (c XOR push_bit 8 (ucast b)) =
    push_bit 8 c XOR crc16tab ! unat ((drop_bit 8 c XOR scast b) AND 0x00FF)"
proof -
  define i where "i = (drop_bit 8 c XOR scast b) AND 0x00FF"
  have mask: "(0x00FF :: 16 word) = mask 8"
    by (simp add: mask_numeral)
  have i_eq: "i = take_bit 8 (drop_bit 8 c) XOR ucast b"
  proof (rule bit_word_eqI)
    fix n :: nat
    have "n < 8 \<Longrightarrow> min n 7 = n"
      by simp
    thus "bit i n = bit (take_bit 8 (drop_bit 8 c) XOR ucast b) n"
      by (cases "n < 8") (auto simp: i_def mask bit_simps dest: bit_imp_le_length)
  qed
  have split: "c XOR push_bit 8 (ucast b) = take_bit 8 c XOR push_bit 8 i"
    by (rule bit_word_eqI) (auto simp: i_eq bit_simps)
  have "i < 256"
    unfolding i_def by (rule le_less_trans [OF word_and_le1]) simp
  hence "unat i < 256"
    by (simp add: word_less_nat_alt)
  hence "crc16tab ! unat i = (crc16_bit ^^ 8) (push_bit 8 i)"
    by (simp add: crc16tab_nth)
  moreover have "(crc16_bit ^^ 8) (take_bit 8 c) = push_bit 8 (take_bit 8 c)"
    by (rule crc16_bits_shift) (auto simp: bit_simps)
  moreover have "push_bit 8 (take_bit 8 c) = push_bit 8 c"
    by (rule bit_word_eqI) (auto simp: bit_simps)
  ultimately show ?thesis
    unfolding split crc16_bits_xor by (simp add: i_def)
qed

lemma crc16_loop_eq_ref: "crc16_loop c s = crc16_ref c s"
  by (induction s arbitrary: c) (simp_all add: crc16_ref_def crc16_step)

text \<open>
  C36: The table-driven CRC-64 and CRC-16 compute the bitwise polynomial divisions they stand for: \<open>crc64\<close>
  the reflected one with the polynomial of \<open>crc-64-jones\<close> from any initial value, and \<open>crc16\<close> the one with
  polynomial 1021 and initial value 0, on every input.
\<close>

theorem crc_tables_correct: "crc64 c s = crc64_ref c s \<and> crc16 s = crc16_ref 0 s"
  by (simp add: crc64_eq_ref crc16_def crc16_loop_eq_ref)

section \<open>Error detection\<close>

lemma xor_left_cancel: "(a :: 'a::len word) XOR b = a XOR c \<longleftrightarrow> b = c"
  by (metis xor.assoc xor_self_eq xor.left_neutral)

lemma xor_right_cancel: "(b :: 'a::len word) XOR a = c XOR a \<longleftrightarrow> b = c"
  using xor_left_cancel [of a b c] by (simp add: ac_simps)

lemma crc64_append: "crc64 c (s @ t) = crc64 (crc64 c s) t"
  by (induction s arbitrary: c) simp_all

lemma crc64_bit_inj: "crc64_bit a = crc64_bit b \<Longrightarrow> a = b"
proof -
  assume eq: "crc64_bit a = crc64_bit b"
  have top: "bit (crc64_bit x) 63 \<longleftrightarrow> bit x 0" for x
    using bit_imp_le_length [of x 64] by (auto simp: crc64_bit_def bit_simps)
  have low: "bit a 0 \<longleftrightarrow> bit b 0"
    using top [of a] top [of b] eq by simp
  hence "drop_bit 1 a = drop_bit 1 b"
    using eq by (auto simp: crc64_bit_def xor_right_cancel split: if_splits)
  hence "bit a (Suc n) \<longleftrightarrow> bit b (Suc n)" for n
    by (metis bit_drop_bit_eq comp_apply plus_1_eq_Suc)
  thus "a = b"
    using low by (intro bit_word_eqI) (metis not0_implies_Suc)
qed

lemma crc64_bits_inj: "(crc64_bit ^^ n) a = (crc64_bit ^^ n) b \<Longrightarrow> a = b"
  by (induction n) (auto dest: crc64_bit_inj)

lemma crc64_inj: "crc64 a s = crc64 b s \<Longrightarrow> a = b"
proof (induction s arbitrary: a b)
  case (Cons x s)
  hence "(crc64_bit ^^ 8) (a XOR ucast x) = (crc64_bit ^^ 8) (b XOR ucast x)"
    by (simp add: crc64_step)
  thus ?case
    by (auto dest: crc64_bits_inj simp: xor_right_cancel)
qed simp

text \<open>Up to eight bytes, packed into a word with the first byte lowest.\<close>

primrec pack :: "buf \<Rightarrow> 64 word" where
  "pack [] = 0"
| "pack (b # s) = ucast b XOR push_bit 8 (pack s)"

lemma bit_pack: "8 * length s \<le> i \<Longrightarrow> \<not> bit (pack s) i"
  by (induction s arbitrary: i) (auto simp: bit_simps dest: bit_imp_le_length)

lemma pack_inj: "length a = length b \<Longrightarrow> length a \<le> 8 \<Longrightarrow> pack a = pack b \<Longrightarrow> a = b"
proof (induction a b rule: list_induct2)
  case (Cons x a y b)
  have "x' = ucast (pack (x' # s))" for x' s
    by (rule bit_word_eqI) (auto simp: bit_simps)
  moreover have "drop_bit 8 (pack (x' # s)) = pack s" if "length s \<le> 7" for x' s
    using that bit_pack [of s]
    by (intro bit_word_eqI) (auto simp: bit_simps dest: bit_imp_le_length)
  moreover have "length a \<le> 7" "length b \<le> 7"
    using Cons.hyps Cons.prems by simp_all
  ultimately have "x = y" "pack a = pack b"
    using Cons.prems(2) by metis+
  thus ?case
    using Cons \<open>length a \<le> 7\<close> by simp
qed simp

lemma crc64_short: "length s \<le> 8 \<Longrightarrow> crc64 c s = (crc64_bit ^^ (8 * length s)) (c XOR pack s)"
proof (induction s arbitrary: c)
  case (Cons b s)
  have "(crc64_bit ^^ 8) (push_bit 8 (pack s)) = pack s"
    using Cons.prems by (intro crc64_bits_shift bit_pack) auto
  hence "(crc64_bit ^^ 8) (c XOR ucast b) XOR pack s = (crc64_bit ^^ 8) (c XOR pack (b # s))"
    by (simp add: crc64_bits_xor xor.assoc)
  moreover have "crc64 c (b # s) = crc64 ((crc64_bit ^^ 8) (c XOR ucast b)) s"
    by (simp only: crc64.simps crc64_step)
  moreover have "8 * length (b # s) = 8 * length s + 8"
    by simp
  ultimately show ?case
    using Cons by (simp only: funpow_add comp_apply)
qed simp

text \<open>
  C37: A damaged region of at most eight bytes is always detected: two messages that differ only inside a window
  of at most eight consecutive bytes have different CRC-64 values, from every initial value.
\<close>

theorem crc64_detects_burst:
  assumes "length a = length b" "length a \<le> 8" "a \<noteq> b"
  shows "crc64 c (x @ a @ y) \<noteq> crc64 c (x @ b @ y)"
proof
  assume "crc64 c (x @ a @ y) = crc64 c (x @ b @ y)"
  hence "crc64 (crc64 c x) a = crc64 (crc64 c x) b"
    by (auto simp: crc64_append dest: crc64_inj)
  hence "crc64 c x XOR pack a = crc64 c x XOR pack b"
    using assms by (auto simp: crc64_short dest: crc64_bits_inj)
  thus False
    using assms pack_inj by (auto simp: xor_left_cancel)
qed

theorem crc64_detects_burst_witness:
  "crc64 0 ([1, 2] @ [3, 4] @ [5]) \<noteq> crc64 0 ([1, 2] @ [7, 4] @ [5])"
  by (rule crc64_detects_burst) simp_all

end
