(* ===== verification/Cluster.thy ===== *)
theory Cluster
  imports Sds
begin

text \<open>
  The state of a cluster node (\<^verbatim>\<open>cluster.h\<close>) and the operations of \<^verbatim>\<open>cluster.c\<close> on it: the table of nodes,
  the assignment of hash slots, failure reports, epochs, roles and the messages that a node sends.

  The structures \<open>clusterNode\<close> live in a memory of cells, since they point to each other: following a pointer to a
  cell that is not allocated, a null pointer that the code follows and a failed assertion are \<open>None\<close>. The table of
  nodes is the list of its entries in the order of iteration, an array of slots is a list. What a handler does
  outside of this state is recorded in the list of effects. The clock is read once for each event.
\<close>

section \<open>Data\<close>

abbreviation CLUSTER_SLOTS :: nat where
  "CLUSTER_SLOTS \<equiv> 16384"

abbreviation CLUSTER_NODE_MASTER :: "32 word" where "CLUSTER_NODE_MASTER \<equiv> 1"
abbreviation CLUSTER_NODE_SLAVE :: "32 word" where "CLUSTER_NODE_SLAVE \<equiv> 2"
abbreviation CLUSTER_NODE_PFAIL :: "32 word" where "CLUSTER_NODE_PFAIL \<equiv> 4"
abbreviation CLUSTER_NODE_FAIL :: "32 word" where "CLUSTER_NODE_FAIL \<equiv> 8"
abbreviation CLUSTER_NODE_MYSELF :: "32 word" where "CLUSTER_NODE_MYSELF \<equiv> 16"
abbreviation CLUSTER_NODE_HANDSHAKE :: "32 word" where "CLUSTER_NODE_HANDSHAKE \<equiv> 32"
abbreviation CLUSTER_NODE_NOADDR :: "32 word" where "CLUSTER_NODE_NOADDR \<equiv> 64"
abbreviation CLUSTER_NODE_MEET :: "32 word" where "CLUSTER_NODE_MEET \<equiv> 128"
abbreviation CLUSTER_NODE_MIGRATE_TO :: "32 word" where "CLUSTER_NODE_MIGRATE_TO \<equiv> 256"
abbreviation CLUSTER_NODE_NOFAILOVER :: "32 word" where "CLUSTER_NODE_NOFAILOVER \<equiv> 512"

abbreviation CLUSTER_TODO_HANDLE_FAILOVER :: "32 word" where "CLUSTER_TODO_HANDLE_FAILOVER \<equiv> 1"
abbreviation CLUSTER_TODO_UPDATE_STATE :: "32 word" where "CLUSTER_TODO_UPDATE_STATE \<equiv> 2"
abbreviation CLUSTER_TODO_SAVE_CONFIG :: "32 word" where "CLUSTER_TODO_SAVE_CONFIG \<equiv> 4"
abbreviation CLUSTER_TODO_FSYNC_CONFIG :: "32 word" where "CLUSTER_TODO_FSYNC_CONFIG \<equiv> 8"

abbreviation CLUSTER_MODULE_FLAG_NO_FAILOVER :: "32 word" where "CLUSTER_MODULE_FLAG_NO_FAILOVER \<equiv> 2"
abbreviation CLUSTER_MODULE_FLAG_NO_REDIRECTION :: "32 word" where "CLUSTER_MODULE_FLAG_NO_REDIRECTION \<equiv> 4"

abbreviation CLUSTERMSG_FLAG0_PAUSED :: byte where "CLUSTERMSG_FLAG0_PAUSED \<equiv> 1"
abbreviation CLUSTERMSG_FLAG0_FORCEACK :: byte where "CLUSTERMSG_FLAG0_FORCEACK \<equiv> 2"

record clusterNodeFailReport =
  fr_node :: nat
  fr_time :: int

text \<open>A link is represented by its creation time; addresses are C strings without their terminator.\<close>

record clusterNode =
  ctime :: int
  name :: buf
  flags :: "32 word"
  configEpoch :: "64 word"
  slots :: buf
  numslots :: int
  slaves :: "nat list"
  slaveof :: "nat option"
  ping_sent :: int
  pong_received :: int
  fail_time :: int
  voted_time :: int
  repl_offset_time :: int
  orphaned_time :: int
  repl_offset :: int
  ip :: buf
  port :: int
  cport :: int
  link :: "int option"
  fail_reports :: "clusterNodeFailReport list"

datatype msg_type = PING | PONG | MEET | FAIL | PUBLISH | FAILOVER_AUTH_REQUEST | FAILOVER_AUTH_ACK
  | UPDATE | MFSTART | MODULE

record clusterMsgDataGossip =
  g_nodename :: buf
  g_ping_sent :: int
  g_pong_received :: int
  g_ip :: buf
  g_port :: int
  g_cport :: int
  g_flags :: "32 word"

datatype clusterMsgData =
    NoData
  | PingData "clusterMsgDataGossip list"
  | FailData buf
  | PublishData buf buf
  | UpdateData "64 word" buf buf
  | ModuleData "64 word" byte buf

datatype cluster_state = CLUSTER_OK | CLUSTER_FAIL

text \<open>A message as the receiver decodes it; the bytes on the wire and their lengths are not part of the model.\<close>

record clusterMsg =
  m_type :: msg_type
  m_currentEpoch :: "64 word"
  m_configEpoch :: "64 word"
  m_offset :: int
  m_sender :: buf
  m_myslots :: buf
  m_slaveof :: buf
  m_myip :: buf
  m_port :: int
  m_cport :: int
  m_flags :: "32 word"
  m_state :: cluster_state
  m_mflags :: byte
  m_data :: clusterMsgData

datatype effect =
    Send "nat option" clusterMsg
  | SaveConfig bool
  | ReplicationSetMaster buf int
  | ReplicationUnsetMaster
  | EmptyDb
  | PauseClients int
  | UnpauseClients
  | PubsubPublish buf buf
  | ModuleReceivers buf "64 word" byte buf

datatype cant_failover = CANT_FAILOVER_NONE | CANT_FAILOVER_DATA_AGE | CANT_FAILOVER_WAITING_DELAY
  | CANT_FAILOVER_EXPIRED | CANT_FAILOVER_WAITING_VOTES

record server =
  myself :: nat
  currentEpoch :: "64 word"
  cl_state :: cluster_state
  cl_size :: int
  nodes :: "(buf \<times> nat) list"
  nodes_black_list :: "(buf \<times> int) list"
  migrating_slots_to :: "nat option list"
  importing_slots_from :: "nat option list"
  cl_slots :: "nat option list"
  slots_keys_count :: "nat list"
  failover_auth_time :: int
  failover_auth_count :: int
  failover_auth_sent :: bool
  failover_auth_rank :: int
  failover_auth_epoch :: "64 word"
  cant_failover_reason :: cant_failover
  mf_end :: int
  mf_slave :: "nat option"
  mf_master_offset :: int
  mf_can_start :: bool
  lastVoteEpoch :: "64 word"
  todo_before_sleep :: "32 word"
  stats_pfail_nodes :: int
  heap :: "nat \<Rightarrow> clusterNode option"
  upcoming_nodes :: "(nat \<times> buf) list"
  among_minority_time :: int
  first_call_time :: int
  lastlog_time :: int
  effects :: "effect list"

text \<open>
  The configuration of the server and the rest of its state, as far as the cluster code reads it during one event:
  the clock, random numbers, the state of replication and the answers of the operating system.
\<close>

record env =
  mstime :: int
  unixtime :: int
  random_value :: nat
  random_key :: "nat \<Rightarrow> nat"
  slave_offset :: int
  master_repl_offset :: int
  repl_connected :: bool
  master_lastinteraction :: int
  repl_down_since :: int
  has_masterhost :: bool
  clients_paused :: bool
  subscribers :: bool
  db_empty :: bool
  sock_name :: "buf option"
  peer_name :: buf
  inet_norm :: "buf \<Rightarrow> buf option"
  connects :: "nat \<Rightarrow> bool"
  server_port :: int
  cluster_announce_ip :: "buf option"
  cluster_announce_port :: int
  cluster_announce_bus_port :: int
  cluster_node_timeout :: int
  cluster_slave_no_failover :: bool
  cluster_slave_validity_factor :: int
  cluster_migration_barrier :: int
  cluster_require_full_coverage :: bool
  cluster_module_flags :: "32 word"
  repl_ping_slave_period :: int

section \<open>Loops, memory and flags\<close>

text \<open>A \<open>for\<close> loop over slots or over the entries of the table of nodes.\<close>

primrec each :: "('a \<Rightarrow> 's \<Rightarrow> 's option) \<Rightarrow> 'a list \<Rightarrow> 's \<Rightarrow> 's option" where
  "each f [] s = Some s"
| "each f (x # xs) s = do { s \<leftarrow> f x s; each f xs s }"

abbreviation for_slots :: "(nat \<Rightarrow> 's \<Rightarrow> 's option) \<Rightarrow> 's \<Rightarrow> 's option" where
  "for_slots f \<equiv> each f [0..<CLUSTER_SLOTS]"

definition upd_node :: "nat \<Rightarrow> (clusterNode \<Rightarrow> clusterNode) \<Rightarrow> server \<Rightarrow> server option" where
  "upd_node p f s = do { n \<leftarrow> heap s p; Some (s\<lparr>heap := (heap s)(p \<mapsto> f n)\<rparr>) }"

definition emit :: "effect \<Rightarrow> server \<Rightarrow> server" where
  "emit x s = s\<lparr>effects := effects s @ [x]\<rparr>"

definition has_flag :: "'a::len word \<Rightarrow> 'a word \<Rightarrow> bool" where
  "has_flag w f \<longleftrightarrow> w AND f \<noteq> 0"

definition nodeIsMaster :: "clusterNode \<Rightarrow> bool" where
  "nodeIsMaster n = has_flag (flags n) CLUSTER_NODE_MASTER"

definition nodeIsSlave :: "clusterNode \<Rightarrow> bool" where
  "nodeIsSlave n = has_flag (flags n) CLUSTER_NODE_SLAVE"

definition nodeInHandshake :: "clusterNode \<Rightarrow> bool" where
  "nodeInHandshake n = has_flag (flags n) CLUSTER_NODE_HANDSHAKE"

definition nodeHasAddr :: "clusterNode \<Rightarrow> bool" where
  "nodeHasAddr n = (\<not> has_flag (flags n) CLUSTER_NODE_NOADDR)"

definition nodeTimedOut :: "clusterNode \<Rightarrow> bool" where
  "nodeTimedOut n = has_flag (flags n) CLUSTER_NODE_PFAIL"

definition nodeFailed :: "clusterNode \<Rightarrow> bool" where
  "nodeFailed n = has_flag (flags n) CLUSTER_NODE_FAIL"

definition nodeCantFailover :: "clusterNode \<Rightarrow> bool" where
  "nodeCantFailover n = has_flag (flags n) CLUSTER_NODE_NOFAILOVER"

definition set_flags :: "32 word \<Rightarrow> clusterNode \<Rightarrow> clusterNode" where
  "set_flags f n = n\<lparr>flags := flags n OR f\<rparr>"

definition clear_flags :: "32 word \<Rightarrow> clusterNode \<Rightarrow> clusterNode" where
  "clear_flags f n = n\<lparr>flags := flags n AND NOT f\<rparr>"

definition clusterDoBeforeSleep :: "32 word \<Rightarrow> server \<Rightarrow> server" where
  "clusterDoBeforeSleep f s = s\<lparr>todo_before_sleep := todo_before_sleep s OR f\<rparr>"

section \<open>Slots\<close>

definition bitmapTestBit :: "buf \<Rightarrow> nat \<Rightarrow> bool option" where
  "bitmapTestBit bitmap pos = do {
     b \<leftarrow> nth_opt bitmap (pos div 8);
     Some (b AND push_bit (pos mod 8) 1 \<noteq> 0) }"

definition bitmapSetBit :: "buf \<Rightarrow> nat \<Rightarrow> buf option" where
  "bitmapSetBit bitmap pos = do {
     b \<leftarrow> nth_opt bitmap (pos div 8);
     upd_opt bitmap (pos div 8) (b OR push_bit (pos mod 8) 1) }"

definition bitmapClearBit :: "buf \<Rightarrow> nat \<Rightarrow> buf option" where
  "bitmapClearBit bitmap pos = do {
     b \<leftarrow> nth_opt bitmap (pos div 8);
     upd_opt bitmap (pos div 8) (b AND NOT (push_bit (pos mod 8) 1)) }"

fun masters_slaves :: "server \<Rightarrow> (buf \<times> nat) list \<Rightarrow> nat option" where
  "masters_slaves s [] = Some 0"
| "masters_slaves s ((_, p) # es) = do {
     node \<leftarrow> heap s p;
     k \<leftarrow> masters_slaves s es;
     Some ((if nodeIsSlave node then 0 else length (slaves node)) + k) }"

definition clusterMastersHaveSlaves :: "server \<Rightarrow> bool option" where
  "clusterMastersHaveSlaves s = do { k \<leftarrow> masters_slaves s (nodes s); Some (k \<noteq> 0) }"

definition clusterNodeSetSlotBit :: "nat \<Rightarrow> nat \<Rightarrow> server \<Rightarrow> (bool \<times> server) option" where
  "clusterNodeSetSlotBit n slot s = do {
     node \<leftarrow> heap s n;
     old \<leftarrow> bitmapTestBit (slots node) slot;
     b \<leftarrow> bitmapSetBit (slots node) slot;
     s \<leftarrow> upd_node n (\<lambda>x. x\<lparr>slots := b\<rparr>) s;
     if old then Some (old, s)
     else do {
       s \<leftarrow> upd_node n (\<lambda>x. x\<lparr>numslots := numslots x + 1\<rparr>) s;
       if numslots node + 1 = 1 then do {
         h \<leftarrow> clusterMastersHaveSlaves s;
         s \<leftarrow> (if h then upd_node n (set_flags CLUSTER_NODE_MIGRATE_TO) s else Some s);
         Some (old, s) }
       else Some (old, s) } }"

definition clusterNodeClearSlotBit :: "nat \<Rightarrow> nat \<Rightarrow> server \<Rightarrow> (bool \<times> server) option" where
  "clusterNodeClearSlotBit n slot s = do {
     node \<leftarrow> heap s n;
     old \<leftarrow> bitmapTestBit (slots node) slot;
     b \<leftarrow> bitmapClearBit (slots node) slot;
     s \<leftarrow> upd_node n (\<lambda>x. x\<lparr>slots := b, numslots := (if old then numslots x - 1 else numslots x)\<rparr>) s;
     Some (old, s) }"

definition clusterNodeGetSlotBit :: "nat \<Rightarrow> nat \<Rightarrow> server \<Rightarrow> bool option" where
  "clusterNodeGetSlotBit n slot s = do { node \<leftarrow> heap s n; bitmapTestBit (slots node) slot }"

definition set_slot :: "nat \<Rightarrow> nat option \<Rightarrow> server \<Rightarrow> server" where
  "set_slot slot n s = s\<lparr>cl_slots := (cl_slots s)[slot := n]\<rparr>"

text \<open>The value is whether the operation returns \<open>C_OK\<close>.\<close>

definition clusterAddSlot :: "nat \<Rightarrow> nat \<Rightarrow> server \<Rightarrow> (bool \<times> server) option" where
  "clusterAddSlot n slot s = do {
     owner \<leftarrow> nth_opt (cl_slots s) slot;
     if owner \<noteq> None then Some (False, s)
     else do {
       (_, s) \<leftarrow> clusterNodeSetSlotBit n slot s;
       Some (True, set_slot slot (Some n) s) } }"

definition clusterDelSlot :: "nat \<Rightarrow> server \<Rightarrow> (bool \<times> server) option" where
  "clusterDelSlot slot s = do {
     owner \<leftarrow> nth_opt (cl_slots s) slot;
     case owner of
       None \<Rightarrow> Some (False, s)
     | Some n \<Rightarrow> do {
         (old, s) \<leftarrow> clusterNodeClearSlotBit n slot s;
         if old then Some (True, set_slot slot None s) else None } }"

definition clusterDelNodeSlots :: "nat \<Rightarrow> server \<Rightarrow> server option" where
  "clusterDelNodeSlots node = for_slots (\<lambda>j s. do {
     b \<leftarrow> clusterNodeGetSlotBit node j s;
     if b then map_option snd (clusterDelSlot j s) else Some s })"

definition clusterCloseAllSlots :: "server \<Rightarrow> server" where
  "clusterCloseAllSlots s = s\<lparr>migrating_slots_to := replicate CLUSTER_SLOTS None,
     importing_slots_from := replicate CLUSTER_SLOTS None\<rparr>"

section \<open>Nodes\<close>

definition createClusterNode :: "env \<Rightarrow> buf option \<Rightarrow> 32 word \<Rightarrow> server \<Rightarrow> (nat \<times> server) option" where
  "createClusterNode e nodename fl s =
     (case upcoming_nodes s of
        [] \<Rightarrow> None
      | (p, random_name) # rest \<Rightarrow>
          if heap s p \<noteq> None then None
          else Some (p, s\<lparr>upcoming_nodes := rest, heap := (heap s)(p \<mapsto>
            \<lparr>ctime = mstime e, name = (case nodename of Some nm \<Rightarrow> nm | None \<Rightarrow> random_name),
             flags = fl, configEpoch = 0, slots = replicate (CLUSTER_SLOTS div 8) 0, numslots = 0,
             slaves = [], slaveof = None, ping_sent = 0, pong_received = 0, fail_time = 0,
             voted_time = 0, repl_offset_time = 0, orphaned_time = 0, repl_offset = 0,
             ip = [], port = 0, cport = 0, link = None, fail_reports = []\<rparr>)\<rparr>))"

fun add_report :: "nat \<Rightarrow> int \<Rightarrow> clusterNodeFailReport list \<Rightarrow> bool \<times> clusterNodeFailReport list" where
  "add_report sender t [] = (True, [\<lparr>fr_node = sender, fr_time = t\<rparr>])"
| "add_report sender t (fr # l) =
     (if fr_node fr = sender then (False, fr\<lparr>fr_time := t\<rparr> # l)
      else (case add_report sender t l of (new, l') \<Rightarrow> (new, fr # l')))"

definition clusterNodeAddFailureReport :: "env \<Rightarrow> nat \<Rightarrow> nat \<Rightarrow> server \<Rightarrow> (bool \<times> server) option" where
  "clusterNodeAddFailureReport e failing sender s = do {
     node \<leftarrow> heap s failing;
     let (new, l) = add_report sender (mstime e) (fail_reports node);
     s \<leftarrow> upd_node failing (\<lambda>x. x\<lparr>fail_reports := l\<rparr>) s;
     Some (new, s) }"

definition clusterNodeCleanupFailureReports :: "env \<Rightarrow> nat \<Rightarrow> server \<Rightarrow> server option" where
  "clusterNodeCleanupFailureReports e node s =
     (let maxtime = cluster_node_timeout e * 2;
          now = mstime e
      in upd_node node (\<lambda>x. x\<lparr>fail_reports := filter (\<lambda>fr. \<not> now - fr_time fr > maxtime) (fail_reports x)\<rparr>) s)"

fun del_report :: "nat \<Rightarrow> clusterNodeFailReport list \<Rightarrow> clusterNodeFailReport list option" where
  "del_report sender [] = None"
| "del_report sender (fr # l) =
     (if fr_node fr = sender then Some l else map_option ((#) fr) (del_report sender l))"

definition clusterNodeDelFailureReport :: "env \<Rightarrow> nat \<Rightarrow> nat \<Rightarrow> server \<Rightarrow> (bool \<times> server) option" where
  "clusterNodeDelFailureReport e node sender s = do {
     n \<leftarrow> heap s node;
     case del_report sender (fail_reports n) of
       None \<Rightarrow> Some (False, s)
     | Some l \<Rightarrow> do {
         s \<leftarrow> upd_node node (\<lambda>x. x\<lparr>fail_reports := l\<rparr>) s;
         s \<leftarrow> clusterNodeCleanupFailureReports e node s;
         Some (True, s) } }"

definition clusterNodeFailureReportsCount :: "env \<Rightarrow> nat \<Rightarrow> server \<Rightarrow> (int \<times> server) option" where
  "clusterNodeFailureReportsCount e node s = do {
     s \<leftarrow> clusterNodeCleanupFailureReports e node s;
     n \<leftarrow> heap s node;
     Some (int (length (fail_reports n)), s) }"

definition clusterNodeRemoveSlave :: "nat \<Rightarrow> nat \<Rightarrow> server \<Rightarrow> (bool \<times> server) option" where
  "clusterNodeRemoveSlave master slave s = do {
     m \<leftarrow> heap s master;
     if slave \<in> set (slaves m) then do {
       let l = remove1 slave (slaves m);
       s \<leftarrow> upd_node master (\<lambda>x. x\<lparr>slaves := l\<rparr>) s;
       s \<leftarrow> (if length l = 0 then upd_node master (clear_flags CLUSTER_NODE_MIGRATE_TO) s else Some s);
       Some (True, s) }
     else Some (False, s) }"

definition clusterNodeAddSlave :: "nat \<Rightarrow> nat \<Rightarrow> server \<Rightarrow> (bool \<times> server) option" where
  "clusterNodeAddSlave master slave s = do {
     m \<leftarrow> heap s master;
     if slave \<in> set (slaves m) then Some (False, s)
     else do {
       s \<leftarrow> upd_node master (\<lambda>x. set_flags CLUSTER_NODE_MIGRATE_TO (x\<lparr>slaves := slaves x @ [slave]\<rparr>)) s;
       Some (True, s) } }"

fun count_ok :: "(clusterNode \<Rightarrow> bool) \<Rightarrow> nat list \<Rightarrow> server \<Rightarrow> int option" where
  "count_ok P [] s = Some 0"
| "count_ok P (p # ps) s = do {
     n \<leftarrow> heap s p;
     k \<leftarrow> count_ok P ps s;
     Some ((if P n then 1 else 0) + k) }"

definition clusterCountNonFailingSlaves :: "nat \<Rightarrow> server \<Rightarrow> int option" where
  "clusterCountNonFailingSlaves n s = do {
     node \<leftarrow> heap s n;
     count_ok (\<lambda>x. \<not> nodeFailed x) (slaves node) s }"

definition dict_delete :: "buf \<Rightarrow> (buf \<times> 'v) list \<Rightarrow> (buf \<times> 'v) list" where
  "dict_delete k d = filter (\<lambda>x. fst x \<noteq> k) d"

definition freeClusterNode :: "nat \<Rightarrow> server \<Rightarrow> server option" where
  "freeClusterNode n s = do {
     node \<leftarrow> heap s n;
     s \<leftarrow> each (\<lambda>p. upd_node p (\<lambda>x. x\<lparr>slaveof := None\<rparr>)) (slaves node) s;
     node \<leftarrow> heap s n;
     s \<leftarrow> (case slaveof node of
             Some m \<Rightarrow> if nodeIsSlave node then map_option snd (clusterNodeRemoveSlave m n s) else Some s
           | None \<Rightarrow> Some s);
     if name node \<in> fst ` set (nodes s) then
       Some (s\<lparr>nodes := dict_delete (name node) (nodes s), heap := (heap s)(n := None)\<rparr>)
     else None }"

definition clusterAddNode :: "nat \<Rightarrow> server \<Rightarrow> (bool \<times> server) option" where
  "clusterAddNode n s = do {
     node \<leftarrow> heap s n;
     if name node \<in> fst ` set (nodes s) then Some (False, s)
     else Some (True, s\<lparr>nodes := nodes s @ [(name node, n)]\<rparr>) }"

definition forget_slot :: "nat \<Rightarrow> nat \<Rightarrow> server \<Rightarrow> server option" where
  "forget_slot delnode j s = do {
     im \<leftarrow> nth_opt (importing_slots_from s) j;
     let s = (if im = Some delnode
              then s\<lparr>importing_slots_from := (importing_slots_from s)[j := None]\<rparr> else s);
     mi \<leftarrow> nth_opt (migrating_slots_to s) j;
     let s = (if mi = Some delnode
              then s\<lparr>migrating_slots_to := (migrating_slots_to s)[j := None]\<rparr> else s);
     owner \<leftarrow> nth_opt (cl_slots s) j;
     if owner = Some delnode then map_option snd (clusterDelSlot j s) else Some s }"

definition clusterDelNode :: "env \<Rightarrow> nat \<Rightarrow> server \<Rightarrow> server option" where
  "clusterDelNode e delnode s = do {
     s \<leftarrow> for_slots (forget_slot delnode) s;
     s \<leftarrow> each (\<lambda>(_, node) s. if node = delnode then Some s
                  else map_option snd (clusterNodeDelFailureReport e node delnode s)) (nodes s) s;
     freeClusterNode delnode s }"

definition clusterLookupNode :: "buf \<Rightarrow> server \<Rightarrow> nat option" where
  "clusterLookupNode nm s = map_of (nodes s) nm"

definition clusterRenameNode :: "nat \<Rightarrow> buf \<Rightarrow> server \<Rightarrow> server option" where
  "clusterRenameNode n newname s = do {
     node \<leftarrow> heap s n;
     if name node \<notin> fst ` set (nodes s) then None
     else do {
       let s = s\<lparr>nodes := dict_delete (name node) (nodes s)\<rparr>;
       s \<leftarrow> upd_node n (\<lambda>x. x\<lparr>name := newname\<rparr>) s;
       map_option snd (clusterAddNode n s) } }"

end
