(* ===== verification/Cluster_Bus.thy ===== *)
theory Cluster_Bus
  imports Cluster
begin

text \<open>
  The cluster bus of \<^verbatim>\<open>cluster.c\<close>: epochs, the messages that a node sends, failure detection, roles, the update of the
  slot table from what other nodes claim, votes, and the handler of a received message.
\<close>

section \<open>Configuration epochs\<close>

fun max_epoch :: "server \<Rightarrow> (buf \<times> nat) list \<Rightarrow> 64 word \<Rightarrow> 64 word option" where
  "max_epoch s [] m = Some m"
| "max_epoch s ((_, p) # es) m = do {
     node \<leftarrow> heap s p;
     max_epoch s es (if configEpoch node > m then configEpoch node else m) }"

definition clusterGetMaxEpoch :: "server \<Rightarrow> 64 word option" where
  "clusterGetMaxEpoch s = do {
     m \<leftarrow> max_epoch s (nodes s) 0;
     Some (if m < currentEpoch s then currentEpoch s else m) }"

definition clusterBumpConfigEpochWithoutConsensus :: "server \<Rightarrow> (bool \<times> server) option" where
  "clusterBumpConfigEpochWithoutConsensus s = do {
     maxEpoch \<leftarrow> clusterGetMaxEpoch s;
     me \<leftarrow> heap s (myself s);
     if configEpoch me = 0 \<or> configEpoch me \<noteq> maxEpoch then do {
       let s = s\<lparr>currentEpoch := currentEpoch s + 1\<rparr>;
       s \<leftarrow> upd_node (myself s) (\<lambda>x. x\<lparr>configEpoch := currentEpoch s\<rparr>) s;
       Some (True, clusterDoBeforeSleep (CLUSTER_TODO_SAVE_CONFIG OR CLUSTER_TODO_FSYNC_CONFIG) s) }
     else Some (False, s) }"

definition clusterHandleConfigEpochCollision :: "nat \<Rightarrow> server \<Rightarrow> server option" where
  "clusterHandleConfigEpochCollision sender s = do {
     n \<leftarrow> heap s sender;
     me \<leftarrow> heap s (myself s);
     if configEpoch n \<noteq> configEpoch me \<or> \<not> nodeIsMaster n \<or> \<not> nodeIsMaster me then Some s
     else if memcmp (name n) (name me) \<le> 0 then Some s
     else do {
       let s = s\<lparr>currentEpoch := currentEpoch s + 1\<rparr>;
       s \<leftarrow> upd_node (myself s) (\<lambda>x. x\<lparr>configEpoch := currentEpoch s\<rparr>) s;
       Some (emit (SaveConfig True) s) } }"

section \<open>The black list\<close>

definition clusterBlacklistCleanup :: "env \<Rightarrow> server \<Rightarrow> server" where
  "clusterBlacklistCleanup e s =
     s\<lparr>nodes_black_list := filter (\<lambda>(_, expire). \<not> expire < unixtime e) (nodes_black_list s)\<rparr>"

definition clusterBlacklistAddNode :: "env \<Rightarrow> nat \<Rightarrow> server \<Rightarrow> server option" where
  "clusterBlacklistAddNode e n s = do {
     node \<leftarrow> heap s n;
     let s = clusterBlacklistCleanup e s;
     let d = (if name node \<in> fst ` set (nodes_black_list s) then nodes_black_list s
              else nodes_black_list s @ [(name node, 0)]);
     Some (s\<lparr>nodes_black_list := map (\<lambda>(k, v). if k = name node then (k, unixtime e + 60) else (k, v)) d\<rparr>) }"

definition clusterBlacklistExists :: "env \<Rightarrow> buf \<Rightarrow> server \<Rightarrow> bool \<times> server" where
  "clusterBlacklistExists e nodeid s =
     (let s = clusterBlacklistCleanup e s in (nodeid \<in> fst ` set (nodes_black_list s), s))"

section \<open>Sending messages\<close>

definition clusterBuildMessageHdr :: "env \<Rightarrow> msg_type \<Rightarrow> server \<Rightarrow> clusterMsg option" where
  "clusterBuildMessageHdr e type s = do {
     me \<leftarrow> heap s (myself s);
     master \<leftarrow> (case slaveof me of
                  Some m \<Rightarrow> if nodeIsSlave me then heap s m else Some me
                | None \<Rightarrow> Some me);
     slaveof_name \<leftarrow> (case slaveof me of
                  Some m \<Rightarrow> map_option name (heap s m)
                | None \<Rightarrow> Some (replicate 40 0));
     Some \<lparr>m_type = type, m_currentEpoch = currentEpoch s, m_configEpoch = configEpoch master,
       m_offset = (if nodeIsSlave me then slave_offset e else master_repl_offset e),
       m_sender = name me, m_myslots = slots master, m_slaveof = slaveof_name,
       m_myip = (case cluster_announce_ip e of Some a \<Rightarrow> take 45 a | None \<Rightarrow> []),
       m_port = (if cluster_announce_port e \<noteq> 0 then cluster_announce_port e else server_port e),
       m_cport = (if cluster_announce_bus_port e \<noteq> 0 then cluster_announce_bus_port e
                  else server_port e + 10000),
       m_flags = flags me, m_state = cl_state s,
       m_mflags = (if nodeIsMaster me \<and> mf_end s \<noteq> 0 then CLUSTERMSG_FLAG0_PAUSED else 0),
       m_data = NoData\<rparr> }"

definition clusterBroadcastMessage :: "clusterMsg \<Rightarrow> server \<Rightarrow> server option" where
  "clusterBroadcastMessage m s = each (\<lambda>(_, p) s. do {
     node \<leftarrow> heap s p;
     if link node = None then Some s
     else if has_flag (flags node) (CLUSTER_NODE_MYSELF OR CLUSTER_NODE_HANDSHAKE) then Some s
     else Some (emit (Send (Some p) m) s) }) (nodes s) s"

definition clusterSetGossipEntry :: "clusterNode \<Rightarrow> clusterMsgDataGossip" where
  "clusterSetGossipEntry n =
     \<lparr>g_nodename = name n, g_ping_sent = ping_sent n div 1000, g_pong_received = pong_received n div 1000,
      g_ip = ip n, g_port = port n, g_cport = cport n, g_flags = flags n\<rparr>"

definition clusterNodeIsInGossipSection :: "clusterMsgDataGossip list \<Rightarrow> clusterNode \<Rightarrow> bool" where
  "clusterNodeIsInGossipSection g n = list_ex (\<lambda>x. g_nodename x = name n) g"

text \<open>\<open>random_key e i\<close> is the entry that the \<open>i\<close>-th call of \<open>dictGetRandomKey\<close> chooses.\<close>

fun gossip_loop :: "env \<Rightarrow> server \<Rightarrow> nat \<Rightarrow> int \<Rightarrow> int \<Rightarrow> clusterMsgDataGossip list \<Rightarrow> clusterMsgDataGossip list option" where
  "gossip_loop e s 0 freshnodes wanted g = Some g"
| "gossip_loop e s (Suc maxiterations) freshnodes wanted g =
     (if freshnodes > 0 \<and> int (length g) < wanted then do {
        (_, p) \<leftarrow> nth_opt (nodes s) (random_key e maxiterations mod length (nodes s));
        this \<leftarrow> heap s p;
        if p = myself s then gossip_loop e s maxiterations freshnodes wanted g
        else if has_flag (flags this) CLUSTER_NODE_PFAIL then gossip_loop e s maxiterations freshnodes wanted g
        else if has_flag (flags this) (CLUSTER_NODE_HANDSHAKE OR CLUSTER_NODE_NOADDR) \<or>
                (link this = None \<and> numslots this = 0)
        then gossip_loop e s maxiterations (freshnodes - 1) wanted g
        else if clusterNodeIsInGossipSection g this then gossip_loop e s maxiterations freshnodes wanted g
        else gossip_loop e s maxiterations (freshnodes - 1) wanted (g @ [clusterSetGossipEntry this]) }
      else Some g)"

fun gossip_pfail :: "server \<Rightarrow> (buf \<times> nat) list \<Rightarrow> int \<Rightarrow> clusterMsgDataGossip list \<Rightarrow> clusterMsgDataGossip list option" where
  "gossip_pfail s [] pfail_wanted g = Some g"
| "gossip_pfail s ((_, p) # es) pfail_wanted g =
     (if pfail_wanted > 0 then do {
        node \<leftarrow> heap s p;
        if has_flag (flags node) CLUSTER_NODE_HANDSHAKE \<or> has_flag (flags node) CLUSTER_NODE_NOADDR \<or>
           \<not> has_flag (flags node) CLUSTER_NODE_PFAIL
        then gossip_pfail s es pfail_wanted g
        else gossip_pfail s es (pfail_wanted - 1) (g @ [clusterSetGossipEntry node]) }
      else Some g)"

text \<open>A link is given by the node it belongs to, \<open>None\<close> for a link that was accepted.\<close>

definition clusterSendPing :: "env \<Rightarrow> nat option \<Rightarrow> msg_type \<Rightarrow> server \<Rightarrow> server option" where
  "clusterSendPing e lk type s = do {
     let freshnodes = int (length (nodes s)) - 2;
     let wanted = int (length (nodes s)) div 10;
     let wanted = (if wanted < 3 then 3 else wanted);
     let wanted = (if wanted > freshnodes then freshnodes else wanted);
     s \<leftarrow> (case lk of
             Some p \<Rightarrow> if type = PING then upd_node p (\<lambda>x. x\<lparr>ping_sent := mstime e\<rparr>) s else Some s
           | None \<Rightarrow> Some s);
     msg \<leftarrow> clusterBuildMessageHdr e type s;
     g \<leftarrow> gossip_loop e s (nat (wanted * 3)) freshnodes wanted [];
     g \<leftarrow> gossip_pfail s (nodes s) (stats_pfail_nodes s) g;
     Some (emit (Send lk (msg\<lparr>m_data := PingData g\<rparr>)) s) }"

definition clusterBroadcastPong :: "env \<Rightarrow> bool \<Rightarrow> server \<Rightarrow> server option" where
  "clusterBroadcastPong e local_slaves_only s = each (\<lambda>(_, p) s. do {
     node \<leftarrow> heap s p;
     me \<leftarrow> heap s (myself s);
     if link node = None then Some s
     else if p = myself s \<or> nodeInHandshake node then Some s
     else if local_slaves_only \<and>
             \<not> (nodeIsSlave node \<and> slaveof node \<noteq> None \<and>
                (slaveof node = Some (myself s) \<or> slaveof node = slaveof me)) then Some s
     else clusterSendPing e (Some p) PONG s }) (nodes s) s"

definition clusterSendFail :: "env \<Rightarrow> buf \<Rightarrow> server \<Rightarrow> server option" where
  "clusterSendFail e nodename s = do {
     msg \<leftarrow> clusterBuildMessageHdr e FAIL s;
     clusterBroadcastMessage (msg\<lparr>m_data := FailData nodename\<rparr>) s }"

text \<open>The message goes to the link of the node \<open>p\<close>, if it has one.\<close>

definition clusterSendUpdate :: "env \<Rightarrow> nat \<Rightarrow> nat \<Rightarrow> server \<Rightarrow> server option" where
  "clusterSendUpdate e p n s = do {
     target \<leftarrow> heap s p;
     if link target = None then Some s
     else do {
       node \<leftarrow> heap s n;
       msg \<leftarrow> clusterBuildMessageHdr e UPDATE s;
       Some (emit (Send (Some p) (msg\<lparr>m_data := UpdateData (configEpoch node) (name node) (slots node)\<rparr>)) s) } }"

definition clusterRequestFailoverAuth :: "env \<Rightarrow> server \<Rightarrow> server option" where
  "clusterRequestFailoverAuth e s = do {
     msg \<leftarrow> clusterBuildMessageHdr e FAILOVER_AUTH_REQUEST s;
     let msg = (if mf_end s \<noteq> 0 then msg\<lparr>m_mflags := m_mflags msg OR CLUSTERMSG_FLAG0_FORCEACK\<rparr> else msg);
     clusterBroadcastMessage msg s }"

definition clusterSendFailoverAuth :: "env \<Rightarrow> nat \<Rightarrow> server \<Rightarrow> server option" where
  "clusterSendFailoverAuth e p s = do {
     node \<leftarrow> heap s p;
     if link node = None then Some s
     else do { msg \<leftarrow> clusterBuildMessageHdr e FAILOVER_AUTH_ACK s; Some (emit (Send (Some p) msg) s) } }"

definition clusterSendMFStart :: "env \<Rightarrow> nat \<Rightarrow> server \<Rightarrow> server option" where
  "clusterSendMFStart e p s = do {
     node \<leftarrow> heap s p;
     if link node = None then Some s
     else do { msg \<leftarrow> clusterBuildMessageHdr e MFSTART s; Some (emit (Send (Some p) msg) s) } }"

section \<open>Failure detection\<close>

definition markNodeAsFailingIfNeeded :: "env \<Rightarrow> nat \<Rightarrow> server \<Rightarrow> server option" where
  "markNodeAsFailingIfNeeded e n s = do {
     let needed_quorum = cl_size s div 2 + 1;
     node \<leftarrow> heap s n;
     if \<not> nodeTimedOut node then Some s
     else if nodeFailed node then Some s
     else do {
       (failures, s) \<leftarrow> clusterNodeFailureReportsCount e n s;
       me \<leftarrow> heap s (myself s);
       let failures = (if nodeIsMaster me then failures + 1 else failures);
       if failures < needed_quorum then Some s
       else do {
         s \<leftarrow> upd_node n (\<lambda>x. (set_flags CLUSTER_NODE_FAIL (clear_flags CLUSTER_NODE_PFAIL x))\<lparr>fail_time := mstime e\<rparr>) s;
         me \<leftarrow> heap s (myself s);
         s \<leftarrow> (if nodeIsMaster me then clusterSendFail e (name node) s else Some s);
         Some (clusterDoBeforeSleep (CLUSTER_TODO_UPDATE_STATE OR CLUSTER_TODO_SAVE_CONFIG) s) } } }"

definition clearNodeFailureIfNeeded :: "env \<Rightarrow> nat \<Rightarrow> server \<Rightarrow> server option" where
  "clearNodeFailureIfNeeded e n s = do {
     node \<leftarrow> heap s n;
     if \<not> nodeFailed node then None
     else do {
       s \<leftarrow> (if nodeIsSlave node \<or> numslots node = 0 then do {
               s \<leftarrow> upd_node n (clear_flags CLUSTER_NODE_FAIL) s;
               Some (clusterDoBeforeSleep (CLUSTER_TODO_UPDATE_STATE OR CLUSTER_TODO_SAVE_CONFIG) s) }
             else Some s);
       if nodeIsMaster node \<and> numslots node > 0 \<and>
          mstime e - fail_time node > cluster_node_timeout e * 2 then do {
         s \<leftarrow> upd_node n (clear_flags CLUSTER_NODE_FAIL) s;
         Some (clusterDoBeforeSleep (CLUSTER_TODO_UPDATE_STATE OR CLUSTER_TODO_SAVE_CONFIG) s) }
       else Some s } }"

definition lower :: "byte \<Rightarrow> byte" where
  "lower c = (if 0x41 \<le> c \<and> c \<le> 0x5A then c + 0x20 else c)"

fun handshake_loop :: "server \<Rightarrow> (buf \<times> nat) list \<Rightarrow> buf \<Rightarrow> int \<Rightarrow> int \<Rightarrow> bool option" where
  "handshake_loop s [] a p cp = Some False"
| "handshake_loop s ((_, q) # es) a p cp = do {
     node \<leftarrow> heap s q;
     if nodeInHandshake node \<and> map lower (ip node) = map lower a \<and> port node = p \<and> cport node = cp
     then Some True else handshake_loop s es a p cp }"

definition clusterHandshakeInProgress :: "buf \<Rightarrow> int \<Rightarrow> int \<Rightarrow> server \<Rightarrow> bool option" where
  "clusterHandshakeInProgress a p cp s = handshake_loop s (nodes s) a p cp"

datatype errno = EINVAL | EAGAIN

definition clusterStartHandshake :: "env \<Rightarrow> buf \<Rightarrow> int \<Rightarrow> int \<Rightarrow> server \<Rightarrow> (errno option \<times> server) option" where
  "clusterStartHandshake e a p cp s =
     (case inet_norm e a of
        None \<Rightarrow> Some (Some EINVAL, s)
      | Some norm_ip \<Rightarrow>
          if p \<le> 0 \<or> p > 65535 \<or> cp \<le> 0 \<or> cp > 65535 then Some (Some EINVAL, s)
          else do {
            busy \<leftarrow> clusterHandshakeInProgress norm_ip p cp s;
            if busy then Some (Some EAGAIN, s)
            else do {
              (n, s) \<leftarrow> createClusterNode e None (CLUSTER_NODE_HANDSHAKE OR CLUSTER_NODE_MEET) s;
              s \<leftarrow> upd_node n (\<lambda>x. x\<lparr>ip := norm_ip, port := p, cport := cp\<rparr>) s;
              (_, s) \<leftarrow> clusterAddNode n s;
              Some (None, s) } })"

definition freeClusterLink :: "nat option \<Rightarrow> server \<Rightarrow> server option" where
  "freeClusterLink lk s = (case lk of Some p \<Rightarrow> upd_node p (\<lambda>x. x\<lparr>link := None\<rparr>) s | None \<Rightarrow> Some s)"

abbreviation FAIL_OR_PFAIL :: "32 word" where
  "FAIL_OR_PFAIL \<equiv> CLUSTER_NODE_FAIL OR CLUSTER_NODE_PFAIL"

definition gossip_reports :: "env \<Rightarrow> nat option \<Rightarrow> nat \<Rightarrow> 32 word \<Rightarrow> server \<Rightarrow> server option" where
  "gossip_reports e sender node fl s =
     (case sender of
        None \<Rightarrow> Some s
      | Some sp \<Rightarrow> do {
          snd_node \<leftarrow> heap s sp;
          if nodeIsMaster snd_node \<and> node \<noteq> myself s then
            if has_flag fl FAIL_OR_PFAIL then do {
              (_, s) \<leftarrow> clusterNodeAddFailureReport e node sp s;
              markNodeAsFailingIfNeeded e node s }
            else map_option snd (clusterNodeDelFailureReport e node sp s)
          else Some s })"

definition gossip_pong_time :: "env \<Rightarrow> clusterMsgDataGossip \<Rightarrow> nat \<Rightarrow> server \<Rightarrow> server option" where
  "gossip_pong_time e g node s = do {
     n \<leftarrow> heap s node;
     if \<not> has_flag (g_flags g) FAIL_OR_PFAIL \<and> ping_sent n = 0 then do {
       (k, s) \<leftarrow> clusterNodeFailureReportsCount e node s;
       if k = 0 then
         let pongtime = g_pong_received g * 1000
         in if pongtime \<le> mstime e + 500 \<and> pongtime > pong_received n
            then upd_node node (\<lambda>x. x\<lparr>pong_received := pongtime\<rparr>) s else Some s
       else Some s }
     else Some s }"

definition gossip_address :: "clusterMsgDataGossip \<Rightarrow> nat \<Rightarrow> server \<Rightarrow> server option" where
  "gossip_address g node s = do {
     n \<leftarrow> heap s node;
     if has_flag (flags n) FAIL_OR_PFAIL \<and> \<not> has_flag (g_flags g) CLUSTER_NODE_NOADDR \<and>
        \<not> has_flag (g_flags g) FAIL_OR_PFAIL \<and>
        (map lower (ip n) \<noteq> map lower (g_ip g) \<or> port n \<noteq> g_port g \<or> cport n \<noteq> g_cport g)
     then do {
       s \<leftarrow> (if link n \<noteq> None then freeClusterLink (Some node) s else Some s);
       upd_node node (\<lambda>x. clear_flags CLUSTER_NODE_NOADDR (x\<lparr>ip := g_ip g, port := g_port g, cport := g_cport g\<rparr>)) s }
     else Some s }"

definition gossip_entry :: "env \<Rightarrow> nat option \<Rightarrow> clusterMsgDataGossip \<Rightarrow> server \<Rightarrow> server option" where
  "gossip_entry e sender g s =
     (case clusterLookupNode (g_nodename g) s of
        Some node \<Rightarrow> do {
          s \<leftarrow> gossip_reports e sender node (g_flags g) s;
          s \<leftarrow> gossip_pong_time e g node s;
          gossip_address g node s }
      | None \<Rightarrow>
          if sender \<noteq> None \<and> \<not> has_flag (g_flags g) CLUSTER_NODE_NOADDR then
            (case clusterBlacklistExists e (g_nodename g) s of
               (True, s) \<Rightarrow> Some s
             | (False, s) \<Rightarrow> map_option snd (clusterStartHandshake e (g_ip g) (g_port g) (g_cport g) s))
          else Some s)"

definition clusterProcessGossipSection :: "env \<Rightarrow> clusterMsg \<Rightarrow> nat option \<Rightarrow> server \<Rightarrow> server option" where
  "clusterProcessGossipSection e msg lk s =
     (let sender = (case lk of Some p \<Rightarrow> Some p | None \<Rightarrow> clusterLookupNode (m_sender msg) s)
      in case m_data msg of
           PingData g \<Rightarrow> each (gossip_entry e sender) g s
         | _ \<Rightarrow> Some s)"

section \<open>Roles\<close>

definition nodeIp2String :: "env \<Rightarrow> clusterMsg \<Rightarrow> buf" where
  "nodeIp2String e msg = (if m_myip msg \<noteq> [] then take 45 (m_myip msg) else peer_name e)"

definition nodeUpdateAddressIfNeeded :: "env \<Rightarrow> nat \<Rightarrow> nat option \<Rightarrow> clusterMsg \<Rightarrow> server \<Rightarrow> (bool \<times> server) option" where
  "nodeUpdateAddressIfNeeded e node lk msg s =
     (if lk = Some node then Some (False, s)
      else do {
        n \<leftarrow> heap s node;
        let a = nodeIp2String e msg;
        if port n = m_port msg \<and> cport n = m_cport msg \<and> a = ip n then Some (False, s)
        else do {
          s \<leftarrow> upd_node node (\<lambda>x. x\<lparr>ip := a, port := m_port msg, cport := m_cport msg\<rparr>) s;
          s \<leftarrow> (if link n \<noteq> None then freeClusterLink (Some node) s else Some s);
          s \<leftarrow> upd_node node (clear_flags CLUSTER_NODE_NOADDR) s;
          me \<leftarrow> heap s (myself s);
          let s = (if nodeIsSlave me \<and> slaveof me = Some node
                   then emit (ReplicationSetMaster a (m_port msg)) s else s);
          Some (True, s) } })"

definition clusterSetNodeAsMaster :: "nat \<Rightarrow> server \<Rightarrow> server option" where
  "clusterSetNodeAsMaster n s = do {
     node \<leftarrow> heap s n;
     if nodeIsMaster node then Some s
     else do {
       s \<leftarrow> (case slaveof node of
               None \<Rightarrow> Some s
             | Some m \<Rightarrow> do {
                 (_, s) \<leftarrow> clusterNodeRemoveSlave m n s;
                 if n \<noteq> myself s then upd_node n (set_flags CLUSTER_NODE_MIGRATE_TO) s else Some s });
       s \<leftarrow> upd_node n (\<lambda>x. (set_flags CLUSTER_NODE_MASTER (clear_flags CLUSTER_NODE_SLAVE x))\<lparr>slaveof := None\<rparr>) s;
       Some (clusterDoBeforeSleep (CLUSTER_TODO_SAVE_CONFIG OR CLUSTER_TODO_UPDATE_STATE) s) } }"

definition resetManualFailover :: "env \<Rightarrow> server \<Rightarrow> server" where
  "resetManualFailover e s =
     (if mf_end s \<noteq> 0 \<and> clients_paused e then emit UnpauseClients s else s)
       \<lparr>mf_end := 0, mf_can_start := False, mf_slave := None, mf_master_offset := 0\<rparr>"

definition clusterSetMaster :: "env \<Rightarrow> nat \<Rightarrow> server \<Rightarrow> server option" where
  "clusterSetMaster e n s = do {
     me \<leftarrow> heap s (myself s);
     if n = myself s \<or> numslots me \<noteq> 0 then None
     else do {
       s \<leftarrow> (if nodeIsMaster me then do {
               s \<leftarrow> upd_node (myself s) (\<lambda>x. set_flags CLUSTER_NODE_SLAVE
                      (clear_flags (CLUSTER_NODE_MASTER OR CLUSTER_NODE_MIGRATE_TO) x)) s;
               Some (clusterCloseAllSlots s) }
             else case slaveof me of
               Some m \<Rightarrow> map_option snd (clusterNodeRemoveSlave m (myself s) s)
             | None \<Rightarrow> Some s);
       s \<leftarrow> upd_node (myself s) (\<lambda>x. x\<lparr>slaveof := Some n\<rparr>) s;
       (_, s) \<leftarrow> clusterNodeAddSlave n (myself s) s;
       node \<leftarrow> heap s n;
       let s = emit (ReplicationSetMaster (ip node) (port node)) s;
       Some (resetManualFailover e s) } }"

abbreviation TODO_ALL :: "32 word" where
  "TODO_ALL \<equiv> CLUSTER_TODO_SAVE_CONFIG OR CLUSTER_TODO_UPDATE_STATE OR CLUSTER_TODO_FSYNC_CONFIG"

text \<open>
  One slot of the loop of \<open>clusterUpdateSlotsConfigWith\<close>; besides the state it carries the dirty slots and whether
  \<open>newmaster\<close> was set.
\<close>

definition update_slot :: "nat \<Rightarrow> 64 word \<Rightarrow> buf \<Rightarrow> nat option \<Rightarrow> nat \<Rightarrow> server \<times> nat list \<times> bool \<Rightarrow>
    (server \<times> nat list \<times> bool) option" where
  "update_slot sender senderConfigEpoch claimed curmaster j = (\<lambda>(s, dirty, newmaster). do {
     b \<leftarrow> bitmapTestBit claimed j;
     owner \<leftarrow> nth_opt (cl_slots s) j;
     importing \<leftarrow> nth_opt (importing_slots_from s) j;
     if \<not> b \<or> owner = Some sender \<or> importing \<noteq> None then Some (s, dirty, newmaster)
     else do {
       rebind \<leftarrow> (case owner of
                    None \<Rightarrow> Some True
                  | Some p \<Rightarrow> do { n \<leftarrow> heap s p; Some (configEpoch n < senderConfigEpoch) });
       if \<not> rebind then Some (s, dirty, newmaster)
       else do {
         keys \<leftarrow> nth_opt (slots_keys_count s) j;
         let dirty = (if owner = Some (myself s) \<and> keys \<noteq> 0 \<and> sender \<noteq> myself s then dirty @ [j] else dirty);
         let newmaster = (newmaster \<or> owner = curmaster);
         (_, s) \<leftarrow> clusterDelSlot j s;
         (_, s) \<leftarrow> clusterAddSlot sender j s;
         Some (clusterDoBeforeSleep TODO_ALL s, dirty, newmaster) } } })"

text \<open>
  Keys of the slot are deleted until its counter is zero, which every deletion decrements; the keys are not part of this
  state.
\<close>

definition delKeysInSlot :: "nat \<Rightarrow> server \<Rightarrow> server" where
  "delKeysInSlot j s = s\<lparr>slots_keys_count := (slots_keys_count s)[j := 0]\<rparr>"

definition clusterUpdateSlotsConfigWith :: "env \<Rightarrow> nat \<Rightarrow> 64 word \<Rightarrow> buf \<Rightarrow> server \<Rightarrow> server option" where
  "clusterUpdateSlotsConfigWith e sender senderConfigEpoch claimed s = do {
     me \<leftarrow> heap s (myself s);
     let curmaster = (if nodeIsMaster me then Some (myself s) else slaveof me);
     if sender = myself s then Some s
     else do {
       (s, dirty, newmaster) \<leftarrow> for_slots (update_slot sender senderConfigEpoch claimed curmaster) (s, [], False);
       if has_flag (cluster_module_flags e) CLUSTER_MODULE_FLAG_NO_REDIRECTION then Some s
       else do {
         demoted \<leftarrow> (if newmaster then do {
                       c \<leftarrow> curmaster;
                       m \<leftarrow> heap s c;
                       Some (numslots m = 0) }
                     else Some False);
         if demoted then do {
           s \<leftarrow> clusterSetMaster e sender s;
           Some (clusterDoBeforeSleep TODO_ALL s) }
         else Some (fold delKeysInSlot dirty s) } } }"

end
