(* ===== verification/Cluster_Failover.thy ===== *)
theory Cluster_Failover
  imports Cluster_Bus
begin

text \<open>
  Elections and failover of \<^verbatim>\<open>cluster.c\<close>: the state of the cluster as one node sees it, the vote of a master, the election of
  a replica, manual failover, the handler of a received message, the timer, and the commands that change slots and roles.
\<close>

section \<open>The state of the cluster\<close>

fun slot_unserved :: "server \<Rightarrow> nat option list \<Rightarrow> bool option" where
  "slot_unserved s [] = Some False"
| "slot_unserved s (None # l) = Some True"
| "slot_unserved s (Some p # l) = do {
     n \<leftarrow> heap s p;
     if nodeFailed n then Some True else slot_unserved s l }"

fun count_masters :: "server \<Rightarrow> (buf \<times> nat) list \<Rightarrow> (int \<times> int) option" where
  "count_masters s [] = Some (0, 0)"
| "count_masters s ((_, p) # es) = do {
     node \<leftarrow> heap s p;
     (size, reachable) \<leftarrow> count_masters s es;
     Some (if nodeIsMaster node \<and> numslots node \<noteq> 0
           then (size + 1, if \<not> has_flag (flags node) FAIL_OR_PFAIL then reachable + 1 else reachable)
           else (size, reachable)) }"

definition clusterUpdateState :: "env \<Rightarrow> server \<Rightarrow> server option" where
  "clusterUpdateState e s = do {
     let s = s\<lparr>todo_before_sleep := todo_before_sleep s AND NOT CLUSTER_TODO_UPDATE_STATE,
               first_call_time := (if first_call_time s = 0 then mstime e else first_call_time s)\<rparr>;
     me \<leftarrow> heap s (myself s);
     if nodeIsMaster me \<and> cl_state s = CLUSTER_FAIL \<and> mstime e - first_call_time s < 2000 then Some s
     else do {
       unserved \<leftarrow> (if cluster_require_full_coverage e then slot_unserved s (cl_slots s) else Some False);
       (size, reachable_masters) \<leftarrow> count_masters s (nodes s);
       let s = s\<lparr>cl_size := size\<rparr>;
       let minority = (reachable_masters < size div 2 + 1);
       let s = (if minority then s\<lparr>among_minority_time := mstime e\<rparr> else s);
       let new_state = (if unserved \<or> minority then CLUSTER_FAIL else CLUSTER_OK);
       if new_state \<noteq> cl_state s then
         let rejoin_delay = cluster_node_timeout e;
             rejoin_delay = (if rejoin_delay > 5000 then 5000 else rejoin_delay);
             rejoin_delay = (if rejoin_delay < 500 then 500 else rejoin_delay)
         in if new_state = CLUSTER_OK \<and> nodeIsMaster me \<and> mstime e - among_minority_time s < rejoin_delay
            then Some s
            else Some (s\<lparr>cl_state := new_state\<rparr>)
       else Some s } }"

section \<open>Votes\<close>

text \<open>Whether the claimed slots are all served by masters of an epoch that is not newer than the one of the request.\<close>

fun claims_ok :: "server \<Rightarrow> buf \<Rightarrow> 64 word \<Rightarrow> nat list \<Rightarrow> bool option" where
  "claims_ok s claimed_slots requestConfigEpoch [] = Some True"
| "claims_ok s claimed_slots requestConfigEpoch (j # js) = do {
     b \<leftarrow> bitmapTestBit claimed_slots j;
     owner \<leftarrow> nth_opt (cl_slots s) j;
     case (b, owner) of
       (True, Some p) \<Rightarrow> do {
         n \<leftarrow> heap s p;
         if configEpoch n \<le> requestConfigEpoch then claims_ok s claimed_slots requestConfigEpoch js
         else Some False }
     | _ \<Rightarrow> claims_ok s claimed_slots requestConfigEpoch js }"

definition clusterSendFailoverAuthIfNeeded :: "env \<Rightarrow> nat \<Rightarrow> clusterMsg \<Rightarrow> server \<Rightarrow> server option" where
  "clusterSendFailoverAuthIfNeeded e node request s = do {
     n \<leftarrow> heap s node;
     me \<leftarrow> heap s (myself s);
     let force_ack = has_flag (m_mflags request) CLUSTERMSG_FLAG0_FORCEACK;
     if nodeIsSlave me \<or> numslots me = 0 then Some s
     else if m_currentEpoch request < currentEpoch s then Some s
     else if lastVoteEpoch s = currentEpoch s then Some s
     else case slaveof n of
       None \<Rightarrow> Some s
     | Some master \<Rightarrow> do {
         m \<leftarrow> heap s master;
         if nodeIsMaster n \<or> (\<not> nodeFailed m \<and> \<not> force_ack) then Some s
         else if mstime e - voted_time m < cluster_node_timeout e * 2 then Some s
         else do {
           ok \<leftarrow> claims_ok s (m_myslots request) (m_configEpoch request) [0..<CLUSTER_SLOTS];
           if \<not> ok then Some s
           else do {
             let s = s\<lparr>lastVoteEpoch := currentEpoch s\<rparr>;
             s \<leftarrow> upd_node master (\<lambda>x. x\<lparr>voted_time := mstime e\<rparr>) s;
             let s = clusterDoBeforeSleep (CLUSTER_TODO_SAVE_CONFIG OR CLUSTER_TODO_FSYNC_CONFIG) s;
             clusterSendFailoverAuth e node s } } } }"

section \<open>The election of a replica\<close>

fun better_slaves :: "server \<Rightarrow> int \<Rightarrow> nat list \<Rightarrow> int option" where
  "better_slaves s myoffset [] = Some 0"
| "better_slaves s myoffset (p # ps) = do {
     n \<leftarrow> heap s p;
     k \<leftarrow> better_slaves s myoffset ps;
     Some ((if p \<noteq> myself s \<and> \<not> nodeCantFailover n \<and> repl_offset n > myoffset then 1 else 0) + k) }"

definition clusterGetSlaveRank :: "env \<Rightarrow> server \<Rightarrow> int option" where
  "clusterGetSlaveRank e s = do {
     me \<leftarrow> heap s (myself s);
     if \<not> nodeIsSlave me then None
     else case slaveof me of
       None \<Rightarrow> Some 0
     | Some master \<Rightarrow> do { m \<leftarrow> heap s master; better_slaves s (slave_offset e) (slaves m) } }"

text \<open>
  What the function writes to the log is not modelled; \<open>lastlog_time\<close> is the static variable of the function.
\<close>

definition clusterLogCantFailover :: "env \<Rightarrow> cant_failover \<Rightarrow> server \<Rightarrow> server option" where
  "clusterLogCantFailover e reason s =
     (if reason = cant_failover_reason s \<and> unixtime e - lastlog_time s < 60 * 5 then Some s
      else do {
        let s = s\<lparr>cant_failover_reason := reason\<rparr>;
        me \<leftarrow> heap s (myself s);
        recent \<leftarrow> (case slaveof me of
                     None \<Rightarrow> Some False
                   | Some master \<Rightarrow> do {
                       m \<leftarrow> heap s master;
                       Some (nodeFailed m \<and> mstime e - fail_time m < cluster_node_timeout e + 5000) });
        if recent then Some s else Some (s\<lparr>lastlog_time := unixtime e\<rparr>) })"

definition clusterFailoverReplaceYourMaster :: "env \<Rightarrow> server \<Rightarrow> server option" where
  "clusterFailoverReplaceYourMaster e s = do {
     me \<leftarrow> heap s (myself s);
     case slaveof me of
       None \<Rightarrow> Some s
     | Some oldmaster \<Rightarrow>
         if nodeIsMaster me then Some s
         else do {
           s \<leftarrow> clusterSetNodeAsMaster (myself s) s;
           let s = emit ReplicationUnsetMaster s;
           s \<leftarrow> for_slots (\<lambda>j s. do {
                  b \<leftarrow> clusterNodeGetSlotBit oldmaster j s;
                  if b then do {
                    (_, s) \<leftarrow> clusterDelSlot j s;
                    (_, s) \<leftarrow> clusterAddSlot (myself s) j s;
                    Some s }
                  else Some s }) s;
           s \<leftarrow> clusterUpdateState e s;
           let s = emit (SaveConfig True) s;
           s \<leftarrow> clusterBroadcastPong e False s;
           Some (resetManualFailover e s) } }"

definition schedule_election :: "env \<Rightarrow> server \<Rightarrow> server option" where
  "schedule_election e s = do {
     rank \<leftarrow> clusterGetSlaveRank e s;
     let s = s\<lparr>failover_auth_time := mstime e + 500 + int (random_value e mod 500) + rank * 1000,
               failover_auth_count := 0, failover_auth_sent := False, failover_auth_rank := rank\<rparr>;
     let s = (if mf_end s \<noteq> 0
              then clusterDoBeforeSleep CLUSTER_TODO_HANDLE_FAILOVER
                     (s\<lparr>failover_auth_time := mstime e, failover_auth_rank := 0\<rparr>)
              else s);
     clusterBroadcastPong e True s }"

definition update_rank :: "env \<Rightarrow> server \<Rightarrow> server option" where
  "update_rank e s =
     (if \<not> failover_auth_sent s \<and> mf_end s = 0 then do {
        newrank \<leftarrow> clusterGetSlaveRank e s;
        Some (if newrank > failover_auth_rank s
              then s\<lparr>failover_auth_time := failover_auth_time s + (newrank - failover_auth_rank s) * 1000,
                     failover_auth_rank := newrank\<rparr>
              else s) }
      else Some s)"

text \<open>The part of the function that follows the check of the preconditions and of the age of the data.\<close>

definition run_election :: "env \<Rightarrow> int \<Rightarrow> int \<Rightarrow> server \<Rightarrow> server option" where
  "run_election e auth_age auth_timeout s = do {
     s \<leftarrow> update_rank e s;
     if mstime e < failover_auth_time s then clusterLogCantFailover e CANT_FAILOVER_WAITING_DELAY s
     else if auth_age > auth_timeout then clusterLogCantFailover e CANT_FAILOVER_EXPIRED s
     else if \<not> failover_auth_sent s then do {
       let s = s\<lparr>currentEpoch := currentEpoch s + 1\<rparr>;
       let s = s\<lparr>failover_auth_epoch := currentEpoch s\<rparr>;
       s \<leftarrow> clusterRequestFailoverAuth e s;
       Some (clusterDoBeforeSleep TODO_ALL (s\<lparr>failover_auth_sent := True\<rparr>)) }
     else if failover_auth_count s \<ge> cl_size s div 2 + 1 then do {
       me \<leftarrow> heap s (myself s);
       s \<leftarrow> (if configEpoch me < failover_auth_epoch s
             then upd_node (myself s) (\<lambda>x. x\<lparr>configEpoch := failover_auth_epoch s\<rparr>) s else Some s);
       clusterFailoverReplaceYourMaster e s }
     else clusterLogCantFailover e CANT_FAILOVER_WAITING_VOTES s }"

definition clusterHandleSlaveFailover :: "env \<Rightarrow> server \<Rightarrow> server option" where
  "clusterHandleSlaveFailover e s = do {
     let auth_age = mstime e - failover_auth_time s;
     let manual_failover = (mf_end s \<noteq> 0 \<and> mf_can_start s);
     let s = s\<lparr>todo_before_sleep := todo_before_sleep s AND NOT CLUSTER_TODO_HANDLE_FAILOVER\<rparr>;
     let auth_timeout = (if cluster_node_timeout e * 2 < 2000 then 2000 else cluster_node_timeout e * 2);
     let auth_retry_time = auth_timeout * 2;
     me \<leftarrow> heap s (myself s);
     excused \<leftarrow> (case slaveof me of
                   None \<Rightarrow> Some True
                 | Some master \<Rightarrow> if nodeIsMaster me then Some True else do {
                     m \<leftarrow> heap s master;
                     Some ((\<not> nodeFailed m \<and> \<not> manual_failover) \<or>
                           (cluster_slave_no_failover e \<and> \<not> manual_failover) \<or> numslots m = 0) });
     if excused then Some (s\<lparr>cant_failover_reason := CANT_FAILOVER_NONE\<rparr>)
     else do {
       let data_age = (if repl_connected e then (unixtime e - master_lastinteraction e) * 1000
                       else (unixtime e - repl_down_since e) * 1000);
       let data_age = (if data_age > cluster_node_timeout e then data_age - cluster_node_timeout e else data_age);
       if cluster_slave_validity_factor e \<noteq> 0 \<and>
          data_age > repl_ping_slave_period e * 1000 + cluster_node_timeout e * cluster_slave_validity_factor e \<and>
          \<not> manual_failover
       then clusterLogCantFailover e CANT_FAILOVER_DATA_AGE s
       else if auth_age > auth_retry_time then schedule_election e s
       else run_election e auth_age auth_timeout s } }"

section \<open>Manual failover\<close>

definition manualFailoverCheckTimeout :: "env \<Rightarrow> server \<Rightarrow> server" where
  "manualFailoverCheckTimeout e s =
     (if mf_end s \<noteq> 0 \<and> mf_end s < mstime e then resetManualFailover e s else s)"

definition clusterHandleManualFailover :: "env \<Rightarrow> server \<Rightarrow> server" where
  "clusterHandleManualFailover e s =
     (if mf_end s = 0 then s
      else if mf_can_start s then s
      else if mf_master_offset s = 0 then s
      else if mf_master_offset s = slave_offset e then s\<lparr>mf_can_start := True\<rparr>
      else s)"

section \<open>A received message\<close>

text \<open>The sender is known and not in handshake: its epochs and offset are recorded.\<close>

definition process_header :: "env \<Rightarrow> nat \<Rightarrow> clusterMsg \<Rightarrow> server \<Rightarrow> server option" where
  "process_header e sender msg s = do {
     let s = (if m_currentEpoch msg > currentEpoch s then s\<lparr>currentEpoch := m_currentEpoch msg\<rparr> else s);
     n \<leftarrow> heap s sender;
     s \<leftarrow> (if m_configEpoch msg > configEpoch n then do {
             s \<leftarrow> upd_node sender (\<lambda>x. x\<lparr>configEpoch := m_configEpoch msg\<rparr>) s;
             Some (clusterDoBeforeSleep (CLUSTER_TODO_SAVE_CONFIG OR CLUSTER_TODO_FSYNC_CONFIG) s) }
           else Some s);
     s \<leftarrow> upd_node sender (\<lambda>x. x\<lparr>repl_offset := m_offset msg, repl_offset_time := mstime e\<rparr>) s;
     me \<leftarrow> heap s (myself s);
     Some (if mf_end s \<noteq> 0 \<and> nodeIsSlave me \<and> slaveof me = Some sender \<and>
              has_flag (m_mflags msg) CLUSTERMSG_FLAG0_PAUSED \<and> mf_master_offset s = 0
           then s\<lparr>mf_master_offset := m_offset msg\<rparr> else s) }"

text \<open>Requests: our own address, a new node that introduces itself, and the reply.\<close>

definition process_request :: "env \<Rightarrow> nat option \<Rightarrow> nat option \<Rightarrow> clusterMsg \<Rightarrow> server \<Rightarrow> server option" where
  "process_request e lk sender msg s = do {
     me \<leftarrow> heap s (myself s);
     s \<leftarrow> (if (m_type msg = MEET \<or> ip me = []) \<and> cluster_announce_ip e = None then
             (case sock_name e of
                Some a \<Rightarrow> if a \<noteq> ip me then do {
                    s \<leftarrow> upd_node (myself s) (\<lambda>x. x\<lparr>ip := a\<rparr>) s;
                    Some (clusterDoBeforeSleep CLUSTER_TODO_SAVE_CONFIG s) }
                  else Some s
              | None \<Rightarrow> Some s)
           else Some s);
     s \<leftarrow> (if sender = None \<and> m_type msg = MEET then do {
             (node, s) \<leftarrow> createClusterNode e None CLUSTER_NODE_HANDSHAKE s;
             s \<leftarrow> upd_node node (\<lambda>x. x\<lparr>ip := nodeIp2String e msg, port := m_port msg, cport := m_cport msg\<rparr>) s;
             (_, s) \<leftarrow> clusterAddNode node s;
             clusterProcessGossipSection e msg lk (clusterDoBeforeSleep CLUSTER_TODO_SAVE_CONFIG s) }
           else Some s);
     clusterSendPing e lk PONG s }"

text \<open>
  The node of the link: the end of a handshake, or a reply of a different node. The value is whether the
  function goes on with the message.
\<close>

definition process_link :: "env \<Rightarrow> nat option \<Rightarrow> nat option \<Rightarrow> clusterMsg \<Rightarrow> server \<Rightarrow> (bool \<times> server) option" where
  "process_link e lk sender msg s =
     (case lk of
        None \<Rightarrow> Some (True, s)
      | Some p \<Rightarrow> do {
          n \<leftarrow> heap s p;
          if nodeInHandshake n then
            (case sender of
               Some sp \<Rightarrow> do {
                 (changed, s) \<leftarrow> nodeUpdateAddressIfNeeded e sp lk msg s;
                 let s = (if changed then clusterDoBeforeSleep (CLUSTER_TODO_SAVE_CONFIG OR CLUSTER_TODO_UPDATE_STATE) s else s);
                 s \<leftarrow> clusterDelNode e p s;
                 Some (False, s) }
             | None \<Rightarrow> do {
                 s \<leftarrow> clusterRenameNode p (m_sender msg) s;
                 s \<leftarrow> upd_node p (\<lambda>x. set_flags (m_flags msg AND (CLUSTER_NODE_MASTER OR CLUSTER_NODE_SLAVE))
                        (clear_flags CLUSTER_NODE_HANDSHAKE x)) s;
                 Some (True, clusterDoBeforeSleep CLUSTER_TODO_SAVE_CONFIG s) })
          else if name n \<noteq> m_sender msg then do {
            s \<leftarrow> upd_node p (\<lambda>x. (set_flags CLUSTER_NODE_NOADDR x)\<lparr>ip := [], port := 0, cport := 0\<rparr>) s;
            s \<leftarrow> freeClusterLink lk s;
            Some (False, clusterDoBeforeSleep CLUSTER_TODO_SAVE_CONFIG s) }
          else Some (True, s) })"

definition process_pong :: "env \<Rightarrow> nat option \<Rightarrow> server \<Rightarrow> server option" where
  "process_pong e lk s =
     (case lk of
        None \<Rightarrow> Some s
      | Some p \<Rightarrow> do {
          s \<leftarrow> upd_node p (\<lambda>x. x\<lparr>pong_received := mstime e, ping_sent := 0\<rparr>) s;
          n \<leftarrow> heap s p;
          if nodeTimedOut n then do {
            s \<leftarrow> upd_node p (clear_flags CLUSTER_NODE_PFAIL) s;
            Some (clusterDoBeforeSleep (CLUSTER_TODO_SAVE_CONFIG OR CLUSTER_TODO_UPDATE_STATE) s) }
          else if nodeFailed n then clearNodeFailureIfNeeded e p s
          else Some s })"

definition process_demote :: "nat \<Rightarrow> server \<Rightarrow> server option" where
  "process_demote sender s = do {
     n \<leftarrow> heap s sender;
     if nodeIsMaster n then do {
       s \<leftarrow> clusterDelNodeSlots sender s;
       s \<leftarrow> upd_node sender (\<lambda>x. set_flags CLUSTER_NODE_SLAVE
              (clear_flags (CLUSTER_NODE_MASTER OR CLUSTER_NODE_MIGRATE_TO) x)) s;
       Some (clusterDoBeforeSleep (CLUSTER_TODO_SAVE_CONFIG OR CLUSTER_TODO_UPDATE_STATE) s) }
     else Some s }"

definition reparent :: "nat \<Rightarrow> nat option \<Rightarrow> nat \<Rightarrow> server \<Rightarrow> server option" where
  "reparent sender old m s = do {
     s \<leftarrow> (case old of
             Some m' \<Rightarrow> map_option snd (clusterNodeRemoveSlave m' sender s)
           | None \<Rightarrow> Some s);
     (_, s) \<leftarrow> clusterNodeAddSlave m sender s;
     upd_node sender (\<lambda>x. x\<lparr>slaveof := Some m\<rparr>) s }"

definition process_role :: "nat \<Rightarrow> clusterMsg \<Rightarrow> server \<Rightarrow> server option" where
  "process_role sender msg s =
     (if m_slaveof msg = replicate 40 0 then clusterSetNodeAsMaster sender s
      else do {
        let master = clusterLookupNode (m_slaveof msg) s;
        s \<leftarrow> process_demote sender s;
        n \<leftarrow> heap s sender;
        case master of
          None \<Rightarrow> Some s
        | Some m \<Rightarrow>
            if slaveof n = Some m then Some s
            else do {
              s \<leftarrow> reparent sender (slaveof n) m s;
              Some (clusterDoBeforeSleep CLUSTER_TODO_SAVE_CONFIG s) } })"

text \<open>The first slot that the sender claims and that a node with a newer configuration owns.\<close>

fun stale_claim :: "server \<Rightarrow> nat \<Rightarrow> clusterMsg \<Rightarrow> 64 word \<Rightarrow> nat list \<Rightarrow> nat option option" where
  "stale_claim s sender msg senderConfigEpoch [] = Some None"
| "stale_claim s sender msg senderConfigEpoch (j # js) = do {
     b \<leftarrow> bitmapTestBit (m_myslots msg) j;
     owner \<leftarrow> nth_opt (cl_slots s) j;
     case (b, owner) of
       (True, Some p) \<Rightarrow>
         if p = sender then stale_claim s sender msg senderConfigEpoch js
         else do {
           n \<leftarrow> heap s p;
           if configEpoch n > senderConfigEpoch then Some (Some p)
           else stale_claim s sender msg senderConfigEpoch js }
     | _ \<Rightarrow> stale_claim s sender msg senderConfigEpoch js }"

definition process_slots :: "env \<Rightarrow> nat \<Rightarrow> clusterMsg \<Rightarrow> 64 word \<Rightarrow> server \<Rightarrow> server option" where
  "process_slots e sender msg senderConfigEpoch s = do {
     n \<leftarrow> heap s sender;
     let sender_master = (if nodeIsMaster n then Some sender else slaveof n);
     dirty_slots \<leftarrow> (case sender_master of
                       None \<Rightarrow> Some False
                     | Some p \<Rightarrow> do { m \<leftarrow> heap s p; Some (slots m \<noteq> m_myslots msg) });
     s \<leftarrow> (if nodeIsMaster n \<and> dirty_slots
           then clusterUpdateSlotsConfigWith e sender senderConfigEpoch (m_myslots msg) s else Some s);
     s \<leftarrow> (if dirty_slots then do {
             stale \<leftarrow> stale_claim s sender msg senderConfigEpoch [0..<CLUSTER_SLOTS];
             case stale of Some p \<Rightarrow> clusterSendUpdate e sender p s | None \<Rightarrow> Some s }
           else Some s);
     me \<leftarrow> heap s (myself s);
     n \<leftarrow> heap s sender;
     if nodeIsMaster me \<and> nodeIsMaster n \<and> senderConfigEpoch = configEpoch me
     then clusterHandleConfigEpochCollision sender s else Some s }"

definition process_ping :: "env \<Rightarrow> nat option \<Rightarrow> nat option \<Rightarrow> clusterMsg \<Rightarrow> 64 word \<Rightarrow> server \<Rightarrow> server option" where
  "process_ping e lk sender msg senderConfigEpoch s = do {
     (go_on, s) \<leftarrow> process_link e lk sender msg s;
     if \<not> go_on then Some s
     else do {
       s \<leftarrow> (case sender of
               None \<Rightarrow> Some s
             | Some sp \<Rightarrow> do {
                 s \<leftarrow> upd_node sp (\<lambda>x. set_flags (m_flags msg AND CLUSTER_NODE_NOFAILOVER)
                        (clear_flags CLUSTER_NODE_NOFAILOVER x)) s;
                 n \<leftarrow> heap s sp;
                 if m_type msg = PING \<and> \<not> nodeInHandshake n then do {
                   (changed, s) \<leftarrow> nodeUpdateAddressIfNeeded e sp lk msg s;
                   Some (if changed then clusterDoBeforeSleep (CLUSTER_TODO_SAVE_CONFIG OR CLUSTER_TODO_UPDATE_STATE) s else s) }
                 else Some s });
       s \<leftarrow> (if m_type msg = PONG then process_pong e lk s else Some s);
       case sender of
         None \<Rightarrow> Some s
       | Some sp \<Rightarrow> do {
           s \<leftarrow> process_role sp msg s;
           s \<leftarrow> process_slots e sp msg senderConfigEpoch s;
           clusterProcessGossipSection e msg lk s } } }"

definition process_fail :: "env \<Rightarrow> nat option \<Rightarrow> clusterMsg \<Rightarrow> server \<Rightarrow> server option" where
  "process_fail e sender msg s =
     (case (sender, m_data msg) of
        (Some _, FailData nodename) \<Rightarrow>
          (case clusterLookupNode nodename s of
             None \<Rightarrow> Some s
           | Some failing \<Rightarrow> do {
               n \<leftarrow> heap s failing;
               if has_flag (flags n) (CLUSTER_NODE_FAIL OR CLUSTER_NODE_MYSELF) then Some s
               else do {
                 s \<leftarrow> upd_node failing (\<lambda>x. clear_flags CLUSTER_NODE_PFAIL
                        ((set_flags CLUSTER_NODE_FAIL x)\<lparr>fail_time := mstime e\<rparr>)) s;
                 Some (clusterDoBeforeSleep (CLUSTER_TODO_SAVE_CONFIG OR CLUSTER_TODO_UPDATE_STATE) s) } })
      | _ \<Rightarrow> Some s)"

definition process_ack :: "nat \<Rightarrow> 64 word \<Rightarrow> server \<Rightarrow> server option" where
  "process_ack sender senderCurrentEpoch s = do {
     n \<leftarrow> heap s sender;
     Some (if nodeIsMaster n \<and> numslots n > 0 \<and> senderCurrentEpoch \<ge> failover_auth_epoch s
           then clusterDoBeforeSleep CLUSTER_TODO_HANDLE_FAILOVER
                  (s\<lparr>failover_auth_count := failover_auth_count s + 1\<rparr>)
           else s) }"

definition process_mfstart :: "env \<Rightarrow> nat \<Rightarrow> server \<Rightarrow> server option" where
  "process_mfstart e sender s = do {
     n \<leftarrow> heap s sender;
     if slaveof n \<noteq> Some (myself s) then Some s
     else Some (emit (PauseClients (mstime e + 5000 * 2))
                 ((resetManualFailover e s)\<lparr>mf_end := mstime e + 5000, mf_slave := Some sender\<rparr>)) }"

definition process_update :: "env \<Rightarrow> clusterMsg \<Rightarrow> server \<Rightarrow> server option" where
  "process_update e msg s =
     (case m_data msg of
        UpdateData reportedConfigEpoch nodename claimed \<Rightarrow>
          (case clusterLookupNode nodename s of
             None \<Rightarrow> Some s
           | Some p \<Rightarrow> do {
               n \<leftarrow> heap s p;
               if configEpoch n \<ge> reportedConfigEpoch then Some s
               else do {
                 s \<leftarrow> (if nodeIsSlave n then clusterSetNodeAsMaster p s else Some s);
                 s \<leftarrow> upd_node p (\<lambda>x. x\<lparr>configEpoch := reportedConfigEpoch\<rparr>) s;
                 clusterUpdateSlotsConfigWith e p reportedConfigEpoch claimed
                   (clusterDoBeforeSleep (CLUSTER_TODO_SAVE_CONFIG OR CLUSTER_TODO_FSYNC_CONFIG) s) } })
      | _ \<Rightarrow> Some s)"

definition clusterProcessPacket :: "env \<Rightarrow> nat option \<Rightarrow> clusterMsg \<Rightarrow> server \<Rightarrow> server option" where
  "clusterProcessPacket e lk msg s = do {
     let sender = clusterLookupNode (m_sender msg) s;
     known \<leftarrow> (case sender of
                 None \<Rightarrow> Some False
               | Some sp \<Rightarrow> do { n \<leftarrow> heap s sp; Some (\<not> nodeInHandshake n) });
     s \<leftarrow> (case sender of Some sp \<Rightarrow> if known then process_header e sp msg s else Some s | None \<Rightarrow> Some s);
     let senderCurrentEpoch = (if known then m_currentEpoch msg else 0);
     let senderConfigEpoch = (if known then m_configEpoch msg else 0);
     s \<leftarrow> (if m_type msg = PING \<or> m_type msg = MEET then process_request e lk sender msg s else Some s);
     case m_type msg of
       FAIL \<Rightarrow> process_fail e sender msg s
     | PUBLISH \<Rightarrow> Some (case m_data msg of
         PublishData channel message \<Rightarrow> if subscribers e then emit (PubsubPublish channel message) s else s
       | _ \<Rightarrow> s)
     | FAILOVER_AUTH_REQUEST \<Rightarrow>
         (case sender of None \<Rightarrow> Some s | Some sp \<Rightarrow> clusterSendFailoverAuthIfNeeded e sp msg s)
     | FAILOVER_AUTH_ACK \<Rightarrow> (case sender of None \<Rightarrow> Some s | Some sp \<Rightarrow> process_ack sp senderCurrentEpoch s)
     | MFSTART \<Rightarrow> (case sender of None \<Rightarrow> Some s | Some sp \<Rightarrow> process_mfstart e sp s)
     | UPDATE \<Rightarrow> (case sender of None \<Rightarrow> Some s | Some _ \<Rightarrow> process_update e msg s)
     | MODULE \<Rightarrow> Some (case (sender, m_data msg) of
         (Some _, ModuleData i t payload) \<Rightarrow> emit (ModuleReceivers (m_sender msg) i t payload) s
       | _ \<Rightarrow> s)
     | _ \<Rightarrow> process_ping e lk sender msg senderConfigEpoch s }"

end
