(* ===== verification/Cluster_Inv.thy ===== *)
theory Cluster_Inv
  imports Cluster_Failover
begin

text \<open>
  The invariant of the state of a cluster node: the table of nodes, the slot table and the links between masters and
  replicas agree with each other and never point to a node that was freed.
\<close>

section \<open>Loops, flags and bitmaps\<close>

lemma each_inv:
  assumes "\<And>x s. x \<in> set xs \<Longrightarrow> P s \<Longrightarrow> \<exists>s'. f x s = Some s' \<and> P s'" "P s"
  shows "\<exists>s'. each f xs s = Some s' \<and> P s'"
  using assms
proof (induction xs arbitrary: s)
  case (Cons x xs)
  obtain s' where "f x s = Some s'" "P s'"
    using Cons.prems by fastforce
  thus ?case
    using Cons by simp
qed simp

lemma each_append: "each f (xs @ ys) s = do { s \<leftarrow> each f xs s; each f ys s }"
  by (induction xs arbitrary: s) (auto simp: Option.bind_assoc)

text \<open>The loop over the slots, with an invariant that depends on the slot reached.\<close>

lemma for_slots_inv:
  assumes "\<And>j s. j < CLUSTER_SLOTS \<Longrightarrow> P j s \<Longrightarrow> \<exists>s'. f j s = Some s' \<and> P (Suc j) s'" "P 0 s"
  shows "\<exists>s'. for_slots f s = Some s' \<and> P CLUSTER_SLOTS s'"
proof -
  have "\<exists>s'. each f [0..<k] s = Some s' \<and> P k s'" if "k \<le> CLUSTER_SLOTS" for k
    using that
  proof (induction k)
    case (Suc k)
    then obtain s' where s': "each f [0..<k] s = Some s'" "P k s'"
      by auto
    then obtain s'' where "f k s' = Some s''" "P (Suc k) s''"
      using assms(1) [of k s'] Suc.prems by auto
    thus ?case
      using s' by (simp add: each_append)
  qed (use assms(2) in simp)
  thus ?thesis
    by blast
qed


lemma has_flag_exp: "has_flag w (2 ^ k) = bit w k" for w :: "'a::len word"
  by (simp add: has_flag_def and_exp_eq_0_iff_not_bit)

lemma role_bits:
  "nodeIsMaster n = bit (flags n) 0" "nodeIsSlave n = bit (flags n) 1" "nodeInHandshake n = bit (flags n) 5"
  using has_flag_exp [of "flags n" 0] has_flag_exp [of "flags n" 1] has_flag_exp [of "flags n" 5]
  by (simp_all add: nodeIsMaster_def nodeIsSlave_def nodeInHandshake_def)

lemma set_flags_sel [simp]:
  "name (set_flags f n) = name n" "slots (set_flags f n) = slots n" "numslots (set_flags f n) = numslots n"
  "slaves (set_flags f n) = slaves n" "slaveof (set_flags f n) = slaveof n" "configEpoch (set_flags f n) = configEpoch n"
  "link (set_flags f n) = link n" "flags (set_flags f n) = flags n OR f"
  by (simp_all add: set_flags_def)

lemma clear_flags_sel [simp]:
  "name (clear_flags f n) = name n" "slots (clear_flags f n) = slots n" "numslots (clear_flags f n) = numslots n"
  "slaves (clear_flags f n) = slaves n" "slaveof (clear_flags f n) = slaveof n" "configEpoch (clear_flags f n) = configEpoch n"
  "link (clear_flags f n) = link n" "flags (clear_flags f n) = flags n AND NOT f"
  by (simp_all add: clear_flags_def)

definition bm_bit :: "buf \<Rightarrow> nat \<Rightarrow> bool" where
  "bm_bit bm j = bit (bm ! (j div 8)) (j mod 8)"

lemma bitmapTestBit_bm: "j div 8 < length bm \<Longrightarrow> bitmapTestBit bm j = Some (bm_bit bm j)"
  by (simp add: bitmapTestBit_def bm_bit_def buf_simps and_exp_eq_0_iff_not_bit push_bit_eq_mult)

lemma bitmapSetBit_bm:
  assumes "j div 8 < length bm"
  shows "\<exists>bm'. bitmapSetBit bm j = Some bm' \<and> length bm' = length bm \<and>
    (\<forall>i. i div 8 < length bm \<longrightarrow> bm_bit bm' i = (i = j \<or> bm_bit bm i))"
proof -
  have "i = j" if "i div 8 = j div 8" "i mod 8 = j mod 8" for i
    using that by (metis div_mult_mod_eq)
  thus ?thesis
    using assms
    by (auto simp: bitmapSetBit_def bm_bit_def buf_simps nth_list_update bit_or_iff bit_exp_iff possible_bit_word)
qed

lemma bitmapClearBit_bm:
  assumes "j div 8 < length bm"
  shows "\<exists>bm'. bitmapClearBit bm j = Some bm' \<and> length bm' = length bm \<and>
    (\<forall>i. i div 8 < length bm \<longrightarrow> bm_bit bm' i = (i \<noteq> j \<and> bm_bit bm i))"
proof -
  have "i = j" if "i div 8 = j div 8" "i mod 8 = j mod 8" for i
    using that by (metis div_mult_mod_eq)
  thus ?thesis
    using assms
    by (auto simp: bitmapClearBit_def bm_bit_def buf_simps nth_list_update bit_and_iff bit_not_iff bit_exp_iff possible_bit_word)
qed

section \<open>The invariant\<close>

text \<open>What the invariant says about the state is a matter of the following view of it.\<close>

definition node_view :: "clusterNode \<Rightarrow> buf \<times> nat list \<times> nat option \<times> buf \<times> int \<times> bool \<times> bool \<times> bool" where
  "node_view n = (name n, slaves n, slaveof n, slots n, numslots n, nodeIsMaster n, nodeIsSlave n, nodeInHandshake n)"

definition cl_view :: "server \<Rightarrow> nat \<times> (buf \<times> nat) list \<times> nat option list \<times> nat option list \<times> nat option list \<times>
    nat \<times> (nat \<times> buf) list \<times> (nat \<Rightarrow> (buf \<times> nat list \<times> nat option \<times> buf \<times> int \<times> bool \<times> bool \<times> bool) option)" where
  "cl_view s = (myself s, nodes s, cl_slots s, importing_slots_from s, migrating_slots_to s, length (slots_keys_count s),
     upcoming_nodes s, \<lambda>p. map_option node_view (heap s p))"

definition owned :: "nat option list \<Rightarrow> nat \<Rightarrow> nat set" where
  "owned table p = {j. j < CLUSTER_SLOTS \<and> table ! j = Some p}"

definition slots_ok :: "server \<Rightarrow> bool" where
  "slots_ok s \<longleftrightarrow> length (cl_slots s) = CLUSTER_SLOTS \<and>
     (\<forall>j p. j < CLUSTER_SLOTS \<longrightarrow> cl_slots s ! j = Some p \<longrightarrow> heap s p \<noteq> None) \<and>
     (\<forall>p n. heap s p = Some n \<longrightarrow> length (slots n) = 2048 \<and>
        (\<forall>j < CLUSTER_SLOTS. bm_bit (slots n) j \<longleftrightarrow> cl_slots s ! j = Some p) \<and>
        numslots n = int (card (owned (cl_slots s) p)))"

definition table_ok :: "server \<Rightarrow> bool" where
  "table_ok s \<longleftrightarrow>
     (\<forall>nm p. (nm, p) \<in> set (nodes s) \<longrightarrow> (\<exists>n. heap s p = Some n \<and> name n = nm)) \<and> distinct (map fst (nodes s)) \<and>
     length (importing_slots_from s) = CLUSTER_SLOTS \<and> length (migrating_slots_to s) = CLUSTER_SLOTS \<and>
     length (slots_keys_count s) = CLUSTER_SLOTS \<and>
     (\<forall>p. Some p \<in> set (importing_slots_from s) \<union> set (migrating_slots_to s) \<longrightarrow> heap s p \<noteq> None) \<and>
     distinct (map fst (upcoming_nodes s)) \<and> (\<forall>x \<in> set (upcoming_nodes s). heap s (fst x) = None)"

definition graph_ok :: "server \<Rightarrow> bool" where
  "graph_ok s \<longleftrightarrow> (\<forall>p n. heap s p = Some n \<longrightarrow>
     distinct (slaves n) \<and>
     (\<forall>q \<in> set (slaves n). \<exists>qn. heap s q = Some qn \<and> slaveof qn = Some p) \<and>
     (\<forall>m. slaveof n = Some m \<longrightarrow> nodeIsSlave n \<and> (\<exists>mn. heap s m = Some mn \<and> p \<in> set (slaves mn))) \<and>
     (if nodeInHandshake n then \<not> nodeIsMaster n \<and> \<not> nodeIsSlave n \<and> slaves n = [] else nodeIsMaster n \<noteq> nodeIsSlave n))"

definition me_ok :: "server \<Rightarrow> bool" where
  "me_ok s \<longleftrightarrow> (\<exists>me. heap s (myself s) = Some me \<and> \<not> nodeInHandshake me \<and>
     (nodeIsMaster me \<or> slaveof me \<noteq> None \<and> numslots me = 0))"

definition cluster_ok :: "server \<Rightarrow> bool" where
  "cluster_ok s \<longleftrightarrow> slots_ok s \<and> table_ok s \<and> graph_ok s \<and> me_ok s"

lemma cl_viewD:
  assumes "cl_view s' = cl_view s"
  shows "myself s' = myself s" "nodes s' = nodes s" "cl_slots s' = cl_slots s" "importing_slots_from s' = importing_slots_from s"
    "migrating_slots_to s' = migrating_slots_to s" "length (slots_keys_count s') = length (slots_keys_count s)"
    "upcoming_nodes s' = upcoming_nodes s" "map_option node_view (heap s' p) = map_option node_view (heap s p)"
  using assms by (auto simp: cl_view_def dest: fun_cong)

lemma cl_view_heap:
  assumes "cl_view s' = cl_view s" "heap s' p = Some n'"
  obtains n where "heap s p = Some n" "name n' = name n" "slaves n' = slaves n" "slaveof n' = slaveof n" "slots n' = slots n"
    "numslots n' = numslots n" "nodeIsMaster n' = nodeIsMaster n" "nodeIsSlave n' = nodeIsSlave n"
    "nodeInHandshake n' = nodeInHandshake n"
  using cl_viewD(8) [OF assms(1), of p] assms(2) by (cases "heap s p") (auto simp: node_view_def)

lemma cl_view_alloc: "cl_view s' = cl_view s \<Longrightarrow> (heap s' p = None) = (heap s p = None)"
  using cl_viewD(8) [of s' s p] by (cases "heap s' p"; cases "heap s p") auto

lemma graph_ok_mono:
  assumes ok: "graph_ok s"
    and node: "\<And>p n'. heap s' p = Some n' \<Longrightarrow> \<exists>n. heap s p = Some n \<and> slaves n' = slaves n \<and> slaveof n' = slaveof n \<and>
      nodeIsMaster n' = nodeIsMaster n \<and> nodeIsSlave n' = nodeIsSlave n \<and> nodeInHandshake n' = nodeInHandshake n"
    and bwd: "\<And>p n. heap s p = Some n \<Longrightarrow> \<exists>n'. heap s' p = Some n' \<and> slaves n' = slaves n \<and> slaveof n' = slaveof n"
  shows "graph_ok s'"
  unfolding graph_ok_def
proof (intro allI impI)
  fix p n' assume "heap s' p = Some n'"
  from node [OF this] obtain n where n: "heap s p = Some n" "slaves n' = slaves n" "slaveof n' = slaveof n"
    "nodeIsMaster n' = nodeIsMaster n" "nodeIsSlave n' = nodeIsSlave n" "nodeInHandshake n' = nodeInHandshake n"
    by blast
  have g: "distinct (slaves n)" "\<forall>q \<in> set (slaves n). \<exists>qn. heap s q = Some qn \<and> slaveof qn = Some p"
    "\<forall>m. slaveof n = Some m \<longrightarrow> nodeIsSlave n \<and> (\<exists>mn. heap s m = Some mn \<and> p \<in> set (slaves mn))"
    "if nodeInHandshake n then \<not> nodeIsMaster n \<and> \<not> nodeIsSlave n \<and> slaves n = [] else nodeIsMaster n \<noteq> nodeIsSlave n"
    using ok n(1) unfolding graph_ok_def by blast+
  have "\<exists>qn. heap s' q = Some qn \<and> slaveof qn = Some p" if "q \<in> set (slaves n)" for q
    using g(2) that bwd by fastforce
  moreover have "\<exists>mn. heap s' m = Some mn \<and> p \<in> set (slaves mn)" if "slaveof n = Some m" for m
    using g(3) that bwd by fastforce
  ultimately show "distinct (slaves n') \<and> (\<forall>q \<in> set (slaves n'). \<exists>qn. heap s' q = Some qn \<and> slaveof qn = Some p) \<and>
    (\<forall>m. slaveof n' = Some m \<longrightarrow> nodeIsSlave n' \<and> (\<exists>mn. heap s' m = Some mn \<and> p \<in> set (slaves mn))) \<and>
    (if nodeInHandshake n' then \<not> nodeIsMaster n' \<and> \<not> nodeIsSlave n' \<and> slaves n' = [] else nodeIsMaster n' \<noteq> nodeIsSlave n')"
    using g(1,3,4) n by auto
qed

lemma table_ok_mono:
  assumes ok: "table_ok s"
    and same: "nodes s' = nodes s" "importing_slots_from s' = importing_slots_from s" "migrating_slots_to s' = migrating_slots_to s"
      "length (slots_keys_count s') = length (slots_keys_count s)" "upcoming_nodes s' = upcoming_nodes s"
    and alloc: "\<And>p. (heap s' p = None) = (heap s p = None)"
    and bwd: "\<And>p n. heap s p = Some n \<Longrightarrow> \<exists>n'. heap s' p = Some n' \<and> name n' = name n"
  shows "table_ok s'"
proof -
  have "\<exists>n. heap s' p = Some n \<and> name n = nm" if "(nm, p) \<in> set (nodes s)" for nm p
    using ok that bwd unfolding table_ok_def by fastforce
  thus ?thesis
    using ok unfolding table_ok_def same alloc by blast
qed

lemma cluster_ok_view:
  assumes "cluster_ok s" "cl_view s' = cl_view s"
  shows "cluster_ok s'"
proof -
  note v = cl_viewD [OF assms(2)] and a = cl_view_alloc [OF assms(2)]
  note s' = cl_view_heap [OF assms(2)] and s = cl_view_heap [OF assms(2) [symmetric]]
  have slots: "\<exists>n. heap s p = Some n \<and> slots n' = slots n \<and> numslots n' = numslots n" if "heap s' p = Some n'" for p n'
    using s' [OF that] by metis
  have "slots_ok s'"
    using assms(1) slots unfolding cluster_ok_def slots_ok_def v(3) a by fastforce
  moreover have "table_ok s'"
    by (rule table_ok_mono [of s]) (use assms(1) v a s in \<open>auto simp: cluster_ok_def, metis\<close>)
  moreover have "graph_ok s'"
    by (rule graph_ok_mono [of s]) (use assms(1) in \<open>simp add: cluster_ok_def\<close>, metis s', metis s)
  moreover have "me_ok s'"
    using assms(1) unfolding cluster_ok_def me_ok_def v(1) by (metis s)
  ultimately show ?thesis
    by (simp add: cluster_ok_def)
qed

lemma upd_node_Some: "heap s p = Some n \<Longrightarrow> upd_node p f s = Some (s\<lparr>heap := (heap s)(p \<mapsto> f n)\<rparr>)"
  by (simp add: upd_node_def)

lemma upd_view:
  assumes "heap s p = Some n" "node_view (f n) = node_view n"
  shows "\<exists>s'. upd_node p f s = Some s' \<and> cl_view s' = cl_view s \<and> heap s' p = Some (f n)"
  using assms by (auto simp: upd_node_Some cl_view_def)

section \<open>The slot table\<close>

lemma finite_owned [simp]: "finite (owned table p)"
  by (simp add: owned_def)

lemma owned_update:
  "length table = CLUSTER_SLOTS \<Longrightarrow> j < CLUSTER_SLOTS \<Longrightarrow>
    owned (table[j := v]) p = (if v = Some p then insert j (owned table p) else owned table p - {j})"
  by (auto simp: owned_def nth_list_update)

text \<open>What assigning a slot leaves alone.\<close>

definition rest_view :: "server \<Rightarrow> nat \<times> (buf \<times> nat) list \<times> nat option list \<times> nat option list \<times> nat list \<times> (nat \<times> buf) list \<times>
    (nat \<Rightarrow> (buf \<times> nat list \<times> nat option \<times> 64 word \<times> bool \<times> bool \<times> bool) option)" where
  "rest_view s = (myself s, nodes s, importing_slots_from s, migrating_slots_to s, slots_keys_count s,
     upcoming_nodes s, \<lambda>p. map_option (\<lambda>n. (name n, slaves n, slaveof n, configEpoch n, nodeIsMaster n, nodeIsSlave n, nodeInHandshake n)) (heap s p))"

lemma rest_viewD:
  assumes "rest_view s' = rest_view s"
  shows "myself s' = myself s" "nodes s' = nodes s" "importing_slots_from s' = importing_slots_from s"
    "migrating_slots_to s' = migrating_slots_to s" "slots_keys_count s' = slots_keys_count s"
    "upcoming_nodes s' = upcoming_nodes s"
    "map_option (\<lambda>n. (name n, slaves n, slaveof n, configEpoch n, nodeIsMaster n, nodeIsSlave n, nodeInHandshake n)) (heap s' p) =
     map_option (\<lambda>n. (name n, slaves n, slaveof n, configEpoch n, nodeIsMaster n, nodeIsSlave n, nodeInHandshake n)) (heap s p)"
  using assms by (auto simp: rest_view_def dest: fun_cong)

lemma rest_view_heap:
  assumes "rest_view s' = rest_view s" "heap s' p = Some n'"
  obtains n where "heap s p = Some n" "name n' = name n" "slaves n' = slaves n" "slaveof n' = slaveof n"
    "configEpoch n' = configEpoch n" "nodeIsMaster n' = nodeIsMaster n" "nodeIsSlave n' = nodeIsSlave n"
    "nodeInHandshake n' = nodeInHandshake n"
  using rest_viewD(7) [OF assms(1), of p] assms(2) by (cases "heap s p") auto

lemma rest_view_alloc: "rest_view s' = rest_view s \<Longrightarrow> (heap s' p = None) = (heap s p = None)"
  using rest_viewD(7) [of s' s p] by (cases "heap s' p"; cases "heap s p") auto

lemma table_ok_rest:
  assumes "table_ok s" "rest_view s' = rest_view s"
  shows "table_ok s'"
  by (rule table_ok_mono [OF assms(1)])
    (use rest_viewD [OF assms(2)] rest_view_alloc [OF assms(2)] in simp_all, metis rest_view_heap [OF assms(2) [symmetric]])

lemma graph_ok_rest:
  assumes "graph_ok s" "rest_view s' = rest_view s"
  shows "graph_ok s'"
  by (rule graph_ok_mono [OF assms(1)]) (metis rest_view_heap [OF assms(2)], metis rest_view_heap [OF assms(2) [symmetric]])

lemma div_8_slots: "j < CLUSTER_SLOTS \<Longrightarrow> j div 8 < 2048"
  by simp

lemma slots_bitmap:
  assumes "length bm = 2048" "j < CLUSTER_SLOTS"
  shows "\<exists>bm'. bitmapSetBit bm j = Some bm' \<and> length bm' = 2048 \<and> (\<forall>i < CLUSTER_SLOTS. bm_bit bm' i = (i = j \<or> bm_bit bm i))"
    and "\<exists>bm'. bitmapClearBit bm j = Some bm' \<and> length bm' = 2048 \<and> (\<forall>i < CLUSTER_SLOTS. bm_bit bm' i = (i \<noteq> j \<and> bm_bit bm i))"
    and "bitmapTestBit bm j = Some (bm_bit bm j)"
  using bitmapSetBit_bm [of j bm] bitmapClearBit_bm [of j bm] bitmapTestBit_bm [of j bm] assms div_8_slots by auto

text \<open>A node whose bitmap and counter are brought up to date with a change of the slot table.\<close>

lemma slots_ok_update:
  assumes ok: "slots_ok s" and j: "j < CLUSTER_SLOTS" and n: "heap s p = Some n"
    and table: "cl_slots s' = (cl_slots s)[j := v]" and heap: "heap s' = (heap s)(p \<mapsto> n')"
    and bits: "length (slots n') = 2048" "\<And>i. i < CLUSTER_SLOTS \<Longrightarrow> bm_bit (slots n') i = (if i = j then v = Some p else bm_bit (slots n) i)"
    and num: "numslots n' = int (card (owned ((cl_slots s)[j := v]) p))"
    and others: "\<And>q. q \<noteq> p \<Longrightarrow> v \<noteq> Some q \<and> cl_slots s ! j \<noteq> Some q"
  shows "slots_ok s'"
proof -
  have len: "length (cl_slots s) = CLUSTER_SLOTS"
    using ok by (simp add: slots_ok_def)
  have "owned ((cl_slots s)[j := v]) q = owned (cl_slots s) q" if "q \<noteq> p" for q
    using others [OF that] len j by (auto simp: owned_def nth_list_update split: if_splits)
  thus ?thesis
    using ok j n bits num others len unfolding slots_ok_def table heap
    by (auto simp: nth_list_update split: if_splits)
qed

lemma clusterDelSlot_ok:
  assumes ok: "slots_ok s" and j: "j < CLUSTER_SLOTS"
  shows "\<exists>s'. clusterDelSlot j s = Some (cl_slots s ! j \<noteq> None, s') \<and> cl_slots s' = (cl_slots s)[j := None] \<and>
    slots_ok s' \<and> rest_view s' = rest_view s"
proof (cases "cl_slots s ! j")
  case None
  hence "(cl_slots s)[j := None] = cl_slots s"
    by (metis list_update_id)
  thus ?thesis
    using assms None by (auto simp: clusterDelSlot_def buf_simps slots_ok_def)
next
  case (Some p)
  have len: "length (cl_slots s) = CLUSTER_SLOTS"
    using ok by (simp add: slots_ok_def)
  obtain n where n: "heap s p = Some n" "length (slots n) = 2048" "bm_bit (slots n) j"
    "numslots n = int (card (owned (cl_slots s) p))"
    using ok j Some unfolding slots_ok_def by (metis not_Some_eq)
  obtain bm where bm: "bitmapClearBit (slots n) j = Some bm" "length bm = 2048"
    "\<And>i. i < CLUSTER_SLOTS \<Longrightarrow> bm_bit bm i = (i \<noteq> j \<and> bm_bit (slots n) i)"
    using slots_bitmap(2) [OF n(2) j] by blast
  define n' where "n' = n\<lparr>slots := bm, numslots := numslots n - 1\<rparr>"
  define s' where "s' = set_slot j None (s\<lparr>heap := (heap s)(p \<mapsto> n')\<rparr>)"
  have "clusterDelSlot j s = Some (True, s')"
    using n bm Some j len
    by (simp add: clusterDelSlot_def clusterNodeClearSlotBit_def buf_simps slots_bitmap(3) upd_node_Some s'_def n'_def)
  moreover have "slots_ok s'"
  proof (rule slots_ok_update [OF ok j n(1)])
    have "j \<in> owned (cl_slots s) p"
      using Some j by (simp add: owned_def)
    thus "numslots n' = int (card (owned ((cl_slots s)[j := None]) p))"
      using n(4) len j card_gt_0_iff [of "owned (cl_slots s) p"] by (auto simp: n'_def owned_update int_ops)
  qed (use bm Some in \<open>auto simp: s'_def set_slot_def n'_def\<close>)
  moreover have "rest_view s' = rest_view s"
    using n(1) by (auto simp: rest_view_def s'_def set_slot_def n'_def role_bits)
  ultimately show ?thesis
    using Some by (auto simp: s'_def set_slot_def)
qed

lemma masters_slaves_Some:
  "(\<And>nm p. (nm, p) \<in> set es \<Longrightarrow> heap s p \<noteq> None) \<Longrightarrow> masters_slaves s es \<noteq> None"
  by (induction es) fastforce+

lemma clusterAddSlot_ok:
  assumes ok: "slots_ok s" "table_ok s" and j: "j < CLUSTER_SLOTS" and p: "heap s p = Some n"
  shows "\<exists>s'. clusterAddSlot p j s = Some (cl_slots s ! j = None, s') \<and>
    cl_slots s' = (if cl_slots s ! j = None then (cl_slots s)[j := Some p] else cl_slots s) \<and>
    slots_ok s' \<and> rest_view s' = rest_view s"
proof (cases "cl_slots s ! j")
  case (Some q)
  thus ?thesis
    using ok(1) j by (auto simp: clusterAddSlot_def buf_simps slots_ok_def)
next
  case None
  have len: "length (cl_slots s) = CLUSTER_SLOTS"
    using ok by (simp add: slots_ok_def)
  have n: "length (slots n) = 2048" "\<not> bm_bit (slots n) j" "numslots n = int (card (owned (cl_slots s) p))"
    using ok(1) p j None unfolding slots_ok_def by auto
  obtain bm where bm: "bitmapSetBit (slots n) j = Some bm" "length bm = 2048"
    "\<And>i. i < CLUSTER_SLOTS \<Longrightarrow> bm_bit bm i = (i = j \<or> bm_bit (slots n) i)"
    using slots_bitmap(1) [OF n(1) j] by blast
  define n1 where "n1 = n\<lparr>slots := bm, numslots := numslots n + 1\<rparr>"
  have entries: "heap s q \<noteq> None" if "(nm, q) \<in> set (nodes s)" for nm q
    using ok(2) that unfolding table_ok_def by fastforce
  define s1 where "s1 = s\<lparr>heap := (heap s)(p \<mapsto> n1)\<rparr>"
  have "masters_slaves s1 (nodes s1) \<noteq> None"
    using entries by (intro masters_slaves_Some) (auto simp: s1_def)
  then obtain h where h: "clusterMastersHaveSlaves s1 = Some h"
    by (auto simp: clusterMastersHaveSlaves_def)
  define n' where "n' = (if numslots n = 0 \<and> h then set_flags CLUSTER_NODE_MIGRATE_TO n1 else n1)"
  define s' where "s' = set_slot j (Some p) (s\<lparr>heap := (heap s)(p \<mapsto> n')\<rparr>)"
  have "clusterAddSlot p j s = Some (True, s')"
    using n bm None j len p h
    by (auto simp: clusterAddSlot_def clusterNodeSetSlotBit_def buf_simps slots_bitmap(3) upd_node_Some s'_def n'_def n1_def s1_def)
  moreover have "slots_ok s'"
  proof (rule slots_ok_update [OF ok(1) j p])
    show "numslots n' = int (card (owned ((cl_slots s)[j := Some p]) p))"
      using n(3) len j None by (auto simp: n'_def n1_def owned_update) (auto simp: owned_def)
  qed (use bm None in \<open>auto simp: s'_def set_slot_def n'_def n1_def\<close>)
  moreover have "rest_view s' = rest_view s"
    using p by (auto simp: rest_view_def s'_def set_slot_def n'_def n1_def role_bits bit_or_iff)
  ultimately show ?thesis
    using None by (auto simp: s'_def set_slot_def)
qed

lemma view_simps [simp]:
  "cl_view (clusterDoBeforeSleep f s) = cl_view s" "rest_view (clusterDoBeforeSleep f s) = rest_view s"
  "cl_slots (clusterDoBeforeSleep f s) = cl_slots s" "heap (clusterDoBeforeSleep f s) = heap s"
  "myself (clusterDoBeforeSleep f s) = myself s" "nodes (clusterDoBeforeSleep f s) = nodes s"
  "slots_ok (clusterDoBeforeSleep f s) = slots_ok s"
  "cl_view (emit x s) = cl_view s" "heap (emit x s) = heap s" "myself (emit x s) = myself s" "nodes (emit x s) = nodes s"
  by (simp_all add: clusterDoBeforeSleep_def emit_def cl_view_def rest_view_def slots_ok_def)

lemma rest_view_refl_trans: "rest_view s2 = rest_view s1 \<Longrightarrow> rest_view s1 = rest_view s \<Longrightarrow> rest_view s2 = rest_view s"
  by simp

lemma me_ok_slots:
  assumes me: "me_ok s" and ok: "slots_ok s" "slots_ok s'" and rest: "rest_view s' = rest_view s"
    and own: "(\<exists>me. heap s (myself s) = Some me \<and> nodeIsMaster me) \<or> owned (cl_slots s') (myself s) \<subseteq> owned (cl_slots s) (myself s)"
  shows "me_ok s'"
proof -
  obtain me where me: "heap s (myself s) = Some me" "\<not> nodeInHandshake me" "nodeIsMaster me \<or> slaveof me \<noteq> None \<and> numslots me = 0"
    using me by (auto simp: me_ok_def)
  obtain me' where me': "heap s' (myself s) = Some me'" "slaveof me = slaveof me'" "nodeIsMaster me = nodeIsMaster me'"
    "nodeInHandshake me = nodeInHandshake me'"
    using rest_view_heap [OF rest [symmetric] me(1)] by metis
  have num: "numslots me = int (card (owned (cl_slots s) (myself s)))" "numslots me' = int (card (owned (cl_slots s') (myself s)))"
    using ok me(1) me'(1) by (auto simp: slots_ok_def)
  have "numslots me' = 0" if "\<not> nodeIsMaster me"
  proof -
    have "owned (cl_slots s) (myself s) = {}"
      using me(3) num(1) that by simp
    thus ?thesis
      using own me(1) num(2) that by auto
  qed
  thus ?thesis
    using me me' rest_viewD(1) [OF rest] by (auto simp: me_ok_def)
qed

lemma cluster_ok_slots:
  assumes "cluster_ok s" "slots_ok s'" "rest_view s' = rest_view s"
    and "(\<exists>me. heap s (myself s) = Some me \<and> nodeIsMaster me) \<or> owned (cl_slots s') (myself s) \<subseteq> owned (cl_slots s) (myself s)"
  shows "cluster_ok s'"
  using assms table_ok_rest graph_ok_rest me_ok_slots unfolding cluster_ok_def by blast

text \<open>
  A loop over the slots that gives each slot a new owner: after \<open>k\<close> rounds the first \<open>k\<close> slots have it.
\<close>

definition slot_loop :: "server \<Rightarrow> (nat \<Rightarrow> nat option) \<Rightarrow> nat \<Rightarrow> server \<Rightarrow> bool" where
  "slot_loop s g k s' \<longleftrightarrow> slots_ok s' \<and> rest_view s' = rest_view s \<and>
     (\<forall>i < CLUSTER_SLOTS. cl_slots s' ! i = (if i < k then g i else cl_slots s ! i))"

lemma slot_loop_0: "slots_ok s \<Longrightarrow> slot_loop s g 0 s"
  by (simp add: slot_loop_def)

lemma slot_loop_keep:
  "slot_loop s g j s' \<Longrightarrow> j < CLUSTER_SLOTS \<Longrightarrow> g j = cl_slots s ! j \<Longrightarrow> slot_loop s g (Suc j) s'"
  by (auto simp: slot_loop_def less_Suc_eq)

lemma slot_loop_set:
  assumes "slot_loop s g j s1" "j < CLUSTER_SLOTS" "slots_ok s'" "rest_view s' = rest_view s1" "cl_slots s' = (cl_slots s1)[j := g j]"
  shows "slot_loop s g (Suc j) s'"
proof -
  have "length (cl_slots s1) = CLUSTER_SLOTS"
    using assms(1) by (simp add: slot_loop_def slots_ok_def)
  thus ?thesis
    using assms by (auto simp: slot_loop_def less_Suc_eq nth_list_update)
qed

lemma slot_loopD:
  assumes "slot_loop s g CLUSTER_SLOTS s'"
  shows "slots_ok s'" "rest_view s' = rest_view s" "i < CLUSTER_SLOTS \<Longrightarrow> cl_slots s' ! i = g i"
  using assms by (auto simp: slot_loop_def)

lemma clusterNodeGetSlotBit_owner:
  assumes "slots_ok s" "heap s p = Some n" "j < CLUSTER_SLOTS"
  shows "clusterNodeGetSlotBit p j s = Some (cl_slots s ! j = Some p)"
  using assms by (auto simp: clusterNodeGetSlotBit_def slots_ok_def slots_bitmap(3))

lemma clusterDelNodeSlots_ok:
  assumes "slots_ok s" "heap s p = Some n"
  shows "\<exists>s'. clusterDelNodeSlots p s = Some s' \<and>
    slot_loop s (\<lambda>i. if cl_slots s ! i = Some p then None else cl_slots s ! i) CLUSTER_SLOTS s'"
  unfolding clusterDelNodeSlots_def
proof (rule for_slots_inv)
  let ?g = "\<lambda>i. if cl_slots s ! i = Some p then None else cl_slots s ! i"
  fix j s1 assume j: "j < CLUSTER_SLOTS" and l: "slot_loop s ?g j s1"
  hence s1: "slots_ok s1" "rest_view s1 = rest_view s" "cl_slots s1 ! j = cl_slots s ! j"
    by (auto simp: slot_loop_def)
  obtain n1 where "heap s1 p = Some n1"
    using rest_view_alloc [OF s1(2), of p] assms(2) by auto
  hence bit: "clusterNodeGetSlotBit p j s1 = Some (cl_slots s ! j = Some p)"
    using clusterNodeGetSlotBit_owner [OF s1(1) _ j] s1(3) by simp
  show "\<exists>s'. (do { b \<leftarrow> clusterNodeGetSlotBit p j s1; if b then map_option snd (clusterDelSlot j s1) else Some s1 }) = Some s' \<and>
    slot_loop s ?g (Suc j) s'"
  proof (cases "cl_slots s ! j = Some p")
    case True
    obtain s' where "clusterDelSlot j s1 = Some (cl_slots s1 ! j \<noteq> None, s')" "cl_slots s' = (cl_slots s1)[j := None]"
      "slots_ok s'" "rest_view s' = rest_view s1"
      using clusterDelSlot_ok [OF s1(1) j] by blast
    thus ?thesis
      using True bit slot_loop_set [OF l j, of s'] by auto
  qed (use bit slot_loop_keep [OF l j] in simp)
qed (rule slot_loop_0 [OF assms(1)])

text \<open>A slot taken from its owner, if it has one, and given to another node.\<close>

lemma move_slot_ok:
  assumes "slots_ok s" "table_ok s" "j < CLUSTER_SLOTS" "heap s p = Some n"
  shows "\<exists>b b' s1 s'. clusterDelSlot j s = Some (b, s1) \<and> clusterAddSlot p j s1 = Some (b', s') \<and>
    cl_slots s' = (cl_slots s)[j := Some p] \<and> slots_ok s' \<and> rest_view s' = rest_view s \<and> rest_view s1 = rest_view s"
proof -
  obtain s1 where s1: "clusterDelSlot j s = Some (cl_slots s ! j \<noteq> None, s1)" "cl_slots s1 = (cl_slots s)[j := None]"
    "slots_ok s1" "rest_view s1 = rest_view s"
    using clusterDelSlot_ok [OF assms(1,3)] by blast
  obtain n1 where n1: "heap s1 p = Some n1"
    using rest_view_alloc [OF s1(4), of p] assms(4) by auto
  have free: "cl_slots s1 ! j = None"
    using assms(1,3) s1(2) by (simp add: slots_ok_def)
  obtain s' where "clusterAddSlot p j s1 = Some (cl_slots s1 ! j = None, s')" "cl_slots s' = (cl_slots s1)[j := Some p]"
    "slots_ok s'" "rest_view s' = rest_view s1"
    using clusterAddSlot_ok [OF s1(3) table_ok_rest [OF assms(2) s1(4)] assms(3) n1] free by auto
  moreover from this have "cl_slots s' = (cl_slots s)[j := Some p]" "rest_view s' = rest_view s"
    using s1(2,4) by simp_all
  ultimately show ?thesis
    using s1(1,4) by blast
qed

section \<open>Masters and replicas\<close>

text \<open>
  \<open>s'\<close> is \<open>s\<close> with the node \<open>p\<close> attached to the master \<open>new\<close>, or to none; the role of \<open>p\<close> may change, too.
\<close>

definition relinked :: "nat \<Rightarrow> nat option \<Rightarrow> server \<Rightarrow> server \<Rightarrow> bool" where
  "relinked p new s s' \<longleftrightarrow> (\<forall>q. (heap s' q = None) = (heap s q = None)) \<and>
     (\<forall>q n n'. heap s q = Some n \<longrightarrow> heap s' q = Some n' \<longrightarrow>
        name n' = name n \<and> slots n' = slots n \<and> numslots n' = numslots n \<and> configEpoch n' = configEpoch n \<and>
        distinct (slaves n') \<and> set (slaves n') = (set (slaves n) - {p}) \<union> (if new = Some q then {p} else {}) \<and>
        slaveof n' = (if q = p then new else slaveof n) \<and> nodeInHandshake n' = nodeInHandshake n \<and>
        (q \<noteq> p \<longrightarrow> nodeIsMaster n' = nodeIsMaster n \<and> nodeIsSlave n' = nodeIsSlave n))"

lemma graph_ok_relinked:
  assumes ok: "graph_ok s" and re: "relinked p new s s'" and p: "heap s' p = Some n'" "\<not> nodeInHandshake n'"
    and role: "nodeIsMaster n' \<noteq> nodeIsSlave n'" "new \<noteq> None \<Longrightarrow> nodeIsSlave n'"
    and new: "\<And>m. new = Some m \<Longrightarrow> \<exists>mn. heap s m = Some mn \<and> \<not> nodeInHandshake mn"
  shows "graph_ok s'"
  unfolding graph_ok_def
proof (intro allI impI)
  have al: "(heap s' q = None) = (heap s q = None)" for q
    using re by (simp add: relinked_def)
  have r: "distinct (slaves n') \<and> set (slaves n') = (set (slaves n) - {p}) \<union> (if new = Some q then {p} else {}) \<and>
      slaveof n' = (if q = p then new else slaveof n) \<and> nodeInHandshake n' = nodeInHandshake n \<and>
      (q \<noteq> p \<longrightarrow> nodeIsMaster n' = nodeIsMaster n \<and> nodeIsSlave n' = nodeIsSlave n)"
    if "heap s q = Some n" "heap s' q = Some n'" for q n n'
    using re that unfolding relinked_def by blast
  fix q x' assume x': "heap s' q = Some x'"
  then obtain x where x: "heap s q = Some x"
    using al [of q] by (cases "heap s q") auto
  have g: "distinct (slaves x)" "\<forall>y \<in> set (slaves x). \<exists>yn. heap s y = Some yn \<and> slaveof yn = Some q"
    "\<forall>m. slaveof x = Some m \<longrightarrow> nodeIsSlave x \<and> (\<exists>mn. heap s m = Some mn \<and> q \<in> set (slaves mn))"
    "if nodeInHandshake x then \<not> nodeIsMaster x \<and> \<not> nodeIsSlave x \<and> slaves x = [] else nodeIsMaster x \<noteq> nodeIsSlave x"
    using ok x unfolding graph_ok_def by blast+
  have rx: "distinct (slaves x')" "set (slaves x') = (set (slaves x) - {p}) \<union> (if new = Some q then {p} else {})"
    "slaveof x' = (if q = p then new else slaveof x)" "nodeInHandshake x' = nodeInHandshake x"
    "q \<noteq> p \<longrightarrow> nodeIsMaster x' = nodeIsMaster x \<and> nodeIsSlave x' = nodeIsSlave x"
    using r [OF x x'] by auto
  have alive: "\<exists>y'. heap s' y = Some y' \<and> slaveof y' = (if y = p then new else slaveof yn) \<and>
      set (slaves y') = (set (slaves yn) - {p}) \<union> (if new = Some y then {p} else {})" if yn: "heap s y = Some yn" for y yn
  proof -
    obtain y' where "heap s' y = Some y'"
      using al [of y] yn by (cases "heap s' y") auto
    thus ?thesis
      using r [OF yn] by blast
  qed
  have "\<exists>yn. heap s' y = Some yn \<and> slaveof yn = Some q" if "y \<in> set (slaves x')" for y
  proof (cases "y = p")
    case True
    hence "new = Some q"
      using that rx(2) by (auto split: if_splits)
    moreover obtain n where "heap s p = Some n"
      using al [of p] p(1) by (cases "heap s p") auto
    ultimately show ?thesis
      using True p(1) r [of p n n'] by auto
  next
    case False
    hence "y \<in> set (slaves x)"
      using that rx(2) by (auto split: if_splits)
    then obtain yn where "heap s y = Some yn" "slaveof yn = Some q"
      using g(2) by blast
    thus ?thesis
      using alive [of y yn] False by auto
  qed
  moreover have "nodeIsSlave x' \<and> (\<exists>mn. heap s' m = Some mn \<and> q \<in> set (slaves mn))" if "slaveof x' = Some m" for m
  proof (cases "q = p")
    case True
    hence "new = Some m"
      using that rx(3) by simp
    moreover obtain mn where "heap s m = Some mn"
      using new [OF \<open>new = Some m\<close>] by blast
    ultimately show ?thesis
      using True alive [of m mn] x' p role(2) by auto
  next
    case False
    hence "slaveof x = Some m"
      using that rx(3) by simp
    then obtain mn where "nodeIsSlave x" "heap s m = Some mn" "q \<in> set (slaves mn)"
      using g(3) by blast
    thus ?thesis
      using False alive [of m mn] rx(5) by auto
  qed
  moreover have "slaves x' = []" if h: "nodeInHandshake x'"
  proof -
    have "new \<noteq> Some q"
      using new h x rx(4) by auto
    thus ?thesis
      using g(4) h rx(2,4) by auto
  qed
  moreover have "if nodeInHandshake x' then \<not> nodeIsMaster x' \<and> \<not> nodeIsSlave x' else nodeIsMaster x' \<noteq> nodeIsSlave x'"
    using g(4) rx(4,5) p role(1) x' by (cases "q = p") (auto split: if_splits)
  ultimately show "distinct (slaves x') \<and> (\<forall>y \<in> set (slaves x'). \<exists>yn. heap s' y = Some yn \<and> slaveof yn = Some q) \<and>
    (\<forall>m. slaveof x' = Some m \<longrightarrow> nodeIsSlave x' \<and> (\<exists>mn. heap s' m = Some mn \<and> q \<in> set (slaves mn))) \<and>
    (if nodeInHandshake x' then \<not> nodeIsMaster x' \<and> \<not> nodeIsSlave x' \<and> slaves x' = [] else nodeIsMaster x' \<noteq> nodeIsSlave x')"
    using rx(1) by (auto split: if_splits)
qed

end
