(* ===== verification/Cluster_Roles.thy ===== *)
theory Cluster_Roles
  imports Cluster_Inv
begin

text \<open>
  The operations of \<^verbatim>\<open>cluster.c\<close> that change roles and owners of slots keep the invariant.
\<close>

section \<open>Changes of the role\<close>

definition tables :: "server \<Rightarrow> nat \<times> (buf \<times> nat) list \<times> nat option list \<times> nat option list \<times> nat option list \<times> nat list \<times> (nat \<times> buf) list" where
  "tables s = (myself s, nodes s, cl_slots s, importing_slots_from s, migrating_slots_to s, slots_keys_count s, upcoming_nodes s)"

lemma tables_simps [simp]:
  "tables (s\<lparr>heap := h\<rparr>) = tables s" "tables (clusterDoBeforeSleep f s) = tables s" "tables (emit x s) = tables s"
  by (simp_all add: tables_def clusterDoBeforeSleep_def emit_def)

lemma tablesD:
  assumes "tables s' = tables s"
  shows "myself s' = myself s" "nodes s' = nodes s" "cl_slots s' = cl_slots s" "importing_slots_from s' = importing_slots_from s"
    "migrating_slots_to s' = migrating_slots_to s" "slots_keys_count s' = slots_keys_count s" "upcoming_nodes s' = upcoming_nodes s"
  using assms by (auto simp: tables_def)

lemma relinkedD:
  assumes "relinked p new s s'"
  shows "(heap s' q = None) = (heap s q = None)"
    "heap s' q = Some n' \<Longrightarrow> \<exists>n. heap s q = Some n \<and> name n' = name n \<and> slots n' = slots n \<and> numslots n' = numslots n \<and>
       configEpoch n' = configEpoch n \<and> slaveof n' = (if q = p then new else slaveof n) \<and> nodeInHandshake n' = nodeInHandshake n \<and>
       (q \<noteq> p \<longrightarrow> nodeIsMaster n' = nodeIsMaster n \<and> nodeIsSlave n' = nodeIsSlave n)"
    "heap s q = Some n \<Longrightarrow> \<exists>n'. heap s' q = Some n' \<and> name n' = name n \<and> slots n' = slots n \<and> numslots n' = numslots n \<and>
       configEpoch n' = configEpoch n \<and> slaveof n' = (if q = p then new else slaveof n) \<and> nodeInHandshake n' = nodeInHandshake n \<and>
       (q \<noteq> p \<longrightarrow> nodeIsMaster n' = nodeIsMaster n \<and> nodeIsSlave n' = nodeIsSlave n)"
proof -
  show al: "(heap s' q = None) = (heap s q = None)" for q
    using assms by (simp add: relinked_def)
  have r: "name n' = name n \<and> slots n' = slots n \<and> numslots n' = numslots n \<and>
       configEpoch n' = configEpoch n \<and> slaveof n' = (if q = p then new else slaveof n) \<and> nodeInHandshake n' = nodeInHandshake n \<and>
       (q \<noteq> p \<longrightarrow> nodeIsMaster n' = nodeIsMaster n \<and> nodeIsSlave n' = nodeIsSlave n)"
    if "heap s q = Some n" "heap s' q = Some n'" for q n n'
    using assms that unfolding relinked_def by blast
  show "\<exists>n. heap s q = Some n \<and> name n' = name n \<and> slots n' = slots n \<and> numslots n' = numslots n \<and>
       configEpoch n' = configEpoch n \<and> slaveof n' = (if q = p then new else slaveof n) \<and> nodeInHandshake n' = nodeInHandshake n \<and>
       (q \<noteq> p \<longrightarrow> nodeIsMaster n' = nodeIsMaster n \<and> nodeIsSlave n' = nodeIsSlave n)" if n': "heap s' q = Some n'"
  proof -
    obtain n where n: "heap s q = Some n"
      using al [of q] n' by (cases "heap s q") auto
    show ?thesis
      using n r [OF n n'] by blast
  qed
  show "\<exists>n'. heap s' q = Some n' \<and> name n' = name n \<and> slots n' = slots n \<and> numslots n' = numslots n \<and>
       configEpoch n' = configEpoch n \<and> slaveof n' = (if q = p then new else slaveof n) \<and> nodeInHandshake n' = nodeInHandshake n \<and>
       (q \<noteq> p \<longrightarrow> nodeIsMaster n' = nodeIsMaster n \<and> nodeIsSlave n' = nodeIsSlave n)" if n: "heap s q = Some n"
  proof -
    obtain n' where n': "heap s' q = Some n'"
      using al [of q] n by (cases "heap s' q") auto
    show ?thesis
      using n' r [OF n n'] by blast
  qed
qed

lemma slots_ok_relinked:
  assumes "slots_ok s" "relinked p new s s'" "cl_slots s' = cl_slots s"
  shows "slots_ok s'"
  unfolding slots_ok_def assms(3)
proof (intro conjI allI impI)
  fix q n' assume "heap s' q = Some n'"
  then obtain n where "heap s q = Some n" "slots n' = slots n" "numslots n' = numslots n"
    using relinkedD(2) [OF assms(2)] by blast
  thus "length (slots n') = 2048" "numslots n' = int (card (owned (cl_slots s) q))"
    "j < CLUSTER_SLOTS \<Longrightarrow> bm_bit (slots n') j \<longleftrightarrow> cl_slots s ! j = Some q" for j
    using assms(1) by (auto simp: slots_ok_def)
qed (use assms(1) relinkedD(1) [OF assms(2)] in \<open>auto simp: slots_ok_def\<close>)

lemma table_ok_relinked:
  assumes "table_ok s" "relinked p new s s'" "tables s' = tables s"
  shows "table_ok s'"
  by (rule table_ok_mono [OF assms(1)])
    (use tablesD [OF assms(3)] relinkedD(1) [OF assms(2)] relinkedD(3) [OF assms(2)] in \<open>auto, blast\<close>)

lemma remove_slave:
  assumes "heap s m = Some mn"
  shows "\<exists>b f. clusterNodeRemoveSlave m p s = Some (b, s\<lparr>heap := (heap s)(m \<mapsto> mn\<lparr>slaves := remove1 p (slaves mn), flags := f\<rparr>)\<rparr>) \<and>
    (\<forall>k. k \<noteq> 8 \<longrightarrow> bit f k = bit (flags mn) k)"
proof (cases "p \<in> set (slaves mn)")
  case True
  have bits: "k \<noteq> 8 \<longrightarrow> bit (flags mn AND NOT CLUSTER_NODE_MIGRATE_TO) k = bit (flags mn) k" for k
    using bit_exp_iff [of 8 k, where 'a = "32 word"] by (auto simp: bit_simps dest: bit_imp_le_length)
  let ?l = "remove1 p (slaves mn)"
  show ?thesis
  proof (cases "?l = []")
    case l: True
    have "clusterNodeRemoveSlave m p s = Some (True, s\<lparr>heap := (heap s)(m \<mapsto> mn\<lparr>slaves := ?l, flags := flags mn AND NOT CLUSTER_NODE_MIGRATE_TO\<rparr>)\<rparr>)"
      using assms True l by (simp add: clusterNodeRemoveSlave_def upd_node_def clear_flags_def Let_def)
    thus ?thesis
      using bits by blast
  next
    case False
    have "clusterNodeRemoveSlave m p s = Some (True, s\<lparr>heap := (heap s)(m \<mapsto> mn\<lparr>slaves := ?l, flags := flags mn\<rparr>)\<rparr>)"
      using assms True False by (simp add: clusterNodeRemoveSlave_def upd_node_def Let_def)
    thus ?thesis
      by blast
  qed
next
  case False
  have "clusterNodeRemoveSlave m p s = Some (False, s\<lparr>heap := (heap s)(m \<mapsto> mn\<lparr>slaves := remove1 p (slaves mn), flags := flags mn\<rparr>)\<rparr>)"
    using assms False by (simp add: clusterNodeRemoveSlave_def remove1_idem fun_upd_idem)
  thus ?thesis
    by blast
qed

lemma add_slave:
  assumes "heap s m = Some mn"
  shows "\<exists>b f. clusterNodeAddSlave m p s = Some (b, s\<lparr>heap := (heap s)(m \<mapsto>
      mn\<lparr>slaves := (if p \<in> set (slaves mn) then slaves mn else slaves mn @ [p]), flags := f\<rparr>)\<rparr>) \<and>
    (\<forall>k. k \<noteq> 8 \<longrightarrow> bit f k = bit (flags mn) k)"
proof (cases "p \<in> set (slaves mn)")
  case True
  have "clusterNodeAddSlave m p s = Some (False, s\<lparr>heap := (heap s)(m \<mapsto> mn\<lparr>slaves := slaves mn, flags := flags mn\<rparr>)\<rparr>)"
    using assms True by (simp add: clusterNodeAddSlave_def fun_upd_idem)
  thus ?thesis
    using True by (intro exI [of _ False] exI [of _ "flags mn"]) simp
next
  case False
  have bits: "k \<noteq> 8 \<longrightarrow> bit (flags mn OR CLUSTER_NODE_MIGRATE_TO) k = bit (flags mn) k" for k
    using bit_exp_iff [of 8 k, where 'a = "32 word"] by (auto simp: bit_simps)
  have "clusterNodeAddSlave m p s = Some (True, s\<lparr>heap := (heap s)(m \<mapsto>
      mn\<lparr>slaves := slaves mn @ [p], flags := flags mn OR CLUSTER_NODE_MIGRATE_TO\<rparr>)\<rparr>)"
    using assms False by (simp add: clusterNodeAddSlave_def upd_node_def set_flags_def)
  thus ?thesis
    using False bits by auto
qed

lemma relinkedI:
  assumes "\<And>q. (heap s' q = None) = (heap s q = None)"
    and "\<And>q n n'. heap s q = Some n \<Longrightarrow> heap s' q = Some n' \<Longrightarrow>
      name n' = name n \<and> slots n' = slots n \<and> numslots n' = numslots n \<and> configEpoch n' = configEpoch n \<and>
      distinct (slaves n') \<and> set (slaves n') = (set (slaves n) - {p}) \<union> (if new = Some q then {p} else {}) \<and>
      slaveof n' = (if q = p then new else slaveof n) \<and>
      bit (flags n') 5 = bit (flags n) 5 \<and>
      (q \<noteq> p \<longrightarrow> bit (flags n') 0 = bit (flags n) 0 \<and> bit (flags n') 1 = bit (flags n) 1)"
  shows "relinked p new s s'"
  using assms unfolding relinked_def role_bits by blast

lemma graph_okD:
  assumes "graph_ok s" "heap s p = Some n"
  shows "distinct (slaves n)" "q \<in> set (slaves n) \<Longrightarrow> \<exists>qn. heap s q = Some qn \<and> slaveof qn = Some p"
    "slaveof n = Some m \<Longrightarrow> nodeIsSlave n \<and> (\<exists>mn. heap s m = Some mn \<and> p \<in> set (slaves mn))"
    "nodeInHandshake n \<Longrightarrow> \<not> nodeIsMaster n \<and> \<not> nodeIsSlave n \<and> slaves n = [] \<and> slaveof n = None"
    "\<not> nodeInHandshake n \<Longrightarrow> nodeIsMaster n \<noteq> nodeIsSlave n"
    "nodeIsMaster n \<Longrightarrow> slaveof n = None"
proof -
  have "distinct (slaves n) \<and>
     (\<forall>q \<in> set (slaves n). \<exists>qn. heap s q = Some qn \<and> slaveof qn = Some p) \<and>
     (\<forall>m. slaveof n = Some m \<longrightarrow> nodeIsSlave n \<and> (\<exists>mn. heap s m = Some mn \<and> p \<in> set (slaves mn))) \<and>
     (if nodeInHandshake n then \<not> nodeIsMaster n \<and> \<not> nodeIsSlave n \<and> slaves n = [] else nodeIsMaster n \<noteq> nodeIsSlave n)"
    using assms unfolding graph_ok_def by blast
  thus "distinct (slaves n)" "q \<in> set (slaves n) \<Longrightarrow> \<exists>qn. heap s q = Some qn \<and> slaveof qn = Some p"
    "slaveof n = Some m \<Longrightarrow> nodeIsSlave n \<and> (\<exists>mn. heap s m = Some mn \<and> p \<in> set (slaves mn))"
    "nodeInHandshake n \<Longrightarrow> \<not> nodeIsMaster n \<and> \<not> nodeIsSlave n \<and> slaves n = [] \<and> slaveof n = None"
    "\<not> nodeInHandshake n \<Longrightarrow> nodeIsMaster n \<noteq> nodeIsSlave n"
    "nodeIsMaster n \<Longrightarrow> slaveof n = None"
    by (auto split: if_splits)
qed

text \<open>Only the master of a node lists it as a replica.\<close>

lemma slave_of_one:
  assumes "graph_ok s" "heap s q = Some x" "p \<in> set (slaves x)" "heap s p = Some n"
  shows "slaveof n = Some q"
  using graph_okD(2) [OF assms(1-3)] assms(4) by auto

lemma set_master_relinked:
  assumes ok: "graph_ok s" and p: "heap s p = Some n" "\<not> nodeInHandshake n" "\<not> nodeIsMaster n"
  shows "\<exists>s' n'. clusterSetNodeAsMaster p s = Some s' \<and> relinked p None s s' \<and> tables s' = tables s \<and>
    heap s' p = Some n' \<and> nodeIsMaster n' \<and> \<not> nodeIsSlave n'"
proof (cases "slaveof n")
  case None
  define n' where "n' = (set_flags CLUSTER_NODE_MASTER (clear_flags CLUSTER_NODE_SLAVE n))\<lparr>slaveof := None\<rparr>"
  define s' where "s' = clusterDoBeforeSleep (CLUSTER_TODO_SAVE_CONFIG OR CLUSTER_TODO_UPDATE_STATE) (s\<lparr>heap := (heap s)(p \<mapsto> n')\<rparr>)"
  have "clusterSetNodeAsMaster p s = Some s'"
    using p None by (simp add: clusterSetNodeAsMaster_def upd_node_def n'_def s'_def)
  moreover have "relinked p None s s'"
  proof (rule relinkedI)
    fix q x x' assume x: "heap s q = Some x" and x': "heap s' q = Some x'"
    have "p \<notin> set (slaves x)"
      using slave_of_one [OF ok x] p(1) None by auto
    thus "name x' = name x \<and> slots x' = slots x \<and> numslots x' = numslots x \<and> configEpoch x' = configEpoch x \<and>
      distinct (slaves x') \<and> set (slaves x') = (set (slaves x) - {p}) \<union> (if None = Some q then {p} else {}) \<and>
      slaveof x' = (if q = p then None else slaveof x) \<and> bit (flags x') 5 = bit (flags x) 5 \<and>
      (q \<noteq> p \<longrightarrow> bit (flags x') 0 = bit (flags x) 0 \<and> bit (flags x') 1 = bit (flags x) 1)"
      using x x' graph_okD(1) [OF ok x] p(1)
      by (auto simp: s'_def n'_def bit_simps split: if_splits)
  qed (use p in \<open>simp add: s'_def\<close>)
  moreover have "heap s' p = Some n'" "nodeIsMaster n'" "\<not> nodeIsSlave n'" "tables s' = tables s"
    by (auto simp: s'_def n'_def role_bits bit_simps)
  ultimately show ?thesis
    by blast
next
  case (Some m)
  then obtain mn where mn: "heap s m = Some mn" "p \<in> set (slaves mn)"
    using graph_okD(3) [OF ok p(1)] by blast
  obtain b f where f: "clusterNodeRemoveSlave m p s =
      Some (b, s\<lparr>heap := (heap s)(m \<mapsto> mn\<lparr>slaves := remove1 p (slaves mn), flags := f\<rparr>)\<rparr>)"
    "\<And>k. k \<noteq> 8 \<Longrightarrow> bit f k = bit (flags mn) k"
    using remove_slave [OF mn(1)] by blast
  define n1 where "n1 = (if m = p then mn\<lparr>slaves := remove1 p (slaves mn), flags := f\<rparr> else n)"
  define n2 where "n2 = (if p \<noteq> myself s then set_flags CLUSTER_NODE_MIGRATE_TO n1 else n1)"
  define n' where "n' = (set_flags CLUSTER_NODE_MASTER (clear_flags CLUSTER_NODE_SLAVE n2))\<lparr>slaveof := None\<rparr>"
  define s' where "s' = clusterDoBeforeSleep (CLUSTER_TODO_SAVE_CONFIG OR CLUSTER_TODO_UPDATE_STATE)
      (s\<lparr>heap := (heap s)(m \<mapsto> mn\<lparr>slaves := remove1 p (slaves mn), flags := f\<rparr>, p \<mapsto> n')\<rparr>)"
  have "clusterSetNodeAsMaster p s = Some s'"
    using p Some f(1) mn(1)
    by (auto simp: clusterSetNodeAsMaster_def upd_node_def n'_def n1_def n2_def s'_def)
  moreover have "relinked p None s s'"
  proof (rule relinkedI)
    fix q x x' assume x: "heap s q = Some x" and x': "heap s' q = Some x'"
    have "p \<notin> set (slaves x) \<or> q = m"
      using slave_of_one [OF ok x] p(1) Some by auto
    thus "name x' = name x \<and> slots x' = slots x \<and> numslots x' = numslots x \<and> configEpoch x' = configEpoch x \<and>
      distinct (slaves x') \<and> set (slaves x') = (set (slaves x) - {p}) \<union> (if None = Some q then {p} else {}) \<and>
      slaveof x' = (if q = p then None else slaveof x) \<and> bit (flags x') 5 = bit (flags x) 5 \<and>
      (q \<noteq> p \<longrightarrow> bit (flags x') 0 = bit (flags x) 0 \<and> bit (flags x') 1 = bit (flags x) 1)"
      using x x' graph_okD(1) [OF ok x] graph_okD(1) [OF ok mn(1)] p(1) mn f(2)
      by (auto simp: s'_def n'_def n1_def n2_def bit_simps split: if_splits)
  qed (use p mn in \<open>simp add: s'_def\<close>)
  moreover have "heap s' p = Some n'" "nodeIsMaster n'" "\<not> nodeIsSlave n'" "tables s' = tables s"
    by (auto simp: s'_def n'_def role_bits bit_simps)
  ultimately show ?thesis
    by blast
qed

text \<open>What the handlers rely on from one step to the next: the table of nodes and who is in handshake.\<close>

definition stable :: "server \<Rightarrow> server \<Rightarrow> bool" where
  "stable s s' \<longleftrightarrow> myself s' = myself s \<and> nodes s' = nodes s \<and>
     (\<forall>q n. heap s q = Some n \<longrightarrow> (\<exists>n'. heap s' q = Some n' \<and> nodeInHandshake n' = nodeInHandshake n))"

lemma stable_refl [simp]: "stable s s"
  by (simp add: stable_def)

lemma stable_trans: "stable s1 s2 \<Longrightarrow> stable s2 s3 \<Longrightarrow> stable s1 s3"
  unfolding stable_def by metis

lemma stableD:
  assumes "stable s s'" "heap s q = Some n"
  obtains n' where "heap s' q = Some n'" "nodeInHandshake n' = nodeInHandshake n"
  using assms unfolding stable_def by blast

lemma stable_view: "cl_view s' = cl_view s \<Longrightarrow> stable s s'"
  unfolding stable_def using cl_viewD [of s' s] by (metis cl_view_heap)

lemma stable_rest: "rest_view s' = rest_view s \<Longrightarrow> stable s s'"
  unfolding stable_def using rest_viewD [of s' s] by (metis rest_view_heap)

lemma stable_relinked: "relinked p new s s' \<Longrightarrow> myself s' = myself s \<Longrightarrow> nodes s' = nodes s \<Longrightarrow> stable s s'"
  unfolding stable_def using relinkedD(3) [of p new s s'] by blast

lemma me_ok_relinked:
  assumes "me_ok s" "relinked p new s s'" "myself s' = myself s" "p \<noteq> myself s"
  shows "me_ok s'"
proof -
  obtain me where "heap s (myself s) = Some me" "\<not> nodeInHandshake me" "nodeIsMaster me \<or> slaveof me \<noteq> None \<and> numslots me = 0"
    using assms(1) by (auto simp: me_ok_def)
  thus ?thesis
    using relinkedD(3) [OF assms(2)] assms(3,4) unfolding me_ok_def by metis
qed

lemma clusterSetNodeAsMaster_ok:
  assumes ok: "cluster_ok s" and p: "heap s p = Some n" "\<not> nodeInHandshake n"
  shows "\<exists>s'. clusterSetNodeAsMaster p s = Some s' \<and> cluster_ok s' \<and> stable s s' \<and> tables s' = tables s"
proof (cases "nodeIsMaster n")
  case True
  thus ?thesis
    using p ok by (simp add: clusterSetNodeAsMaster_def)
next
  case False
  have g: "graph_ok s" "slots_ok s" "table_ok s" "me_ok s"
    using ok by (simp_all add: cluster_ok_def)
  obtain s' n' where s': "clusterSetNodeAsMaster p s = Some s'" "relinked p None s s'" "tables s' = tables s"
    "heap s' p = Some n'" "nodeIsMaster n'" "\<not> nodeIsSlave n'"
    using set_master_relinked [OF g(1) p False] by blast
  have hs: "\<not> nodeInHandshake n'"
    using relinkedD(2) [OF s'(2,4)] p by auto
  have "graph_ok s'"
    using graph_ok_relinked [OF g(1) s'(2,4) hs] s'(5,6) by simp
  moreover have "me_ok s'"
  proof (cases "p = myself s")
    case True
    thus ?thesis
      using s'(4,5) hs tablesD(1) [OF s'(3)] by (auto simp: me_ok_def)
  qed (use me_ok_relinked [OF g(4) s'(2)] tablesD(1) [OF s'(3)] in simp)
  ultimately have "cluster_ok s'"
    using slots_ok_relinked [OF g(2) s'(2)] table_ok_relinked [OF g(3) s'(2,3)] tablesD(3) [OF s'(3)] by (simp add: cluster_ok_def)
  thus ?thesis
    using s'(1,3) stable_relinked [OF s'(2)] tablesD(1,2) [OF s'(3)] by blast
qed

lemma resetManualFailover_sel [simp]:
  "cl_view (resetManualFailover e s) = cl_view s" "heap (resetManualFailover e s) = heap s"
  by (simp_all add: resetManualFailover_def cl_view_def emit_def)

text \<open>The state in which \<open>clusterSetMaster\<close> attaches this node to its new master.\<close>

lemma detach_myself:
  assumes ok: "cluster_ok s" and me: "heap s (myself s) = Some me"
  shows "\<exists>s1 me1. (if nodeIsMaster me then do {
        s \<leftarrow> upd_node (myself s) (\<lambda>x. set_flags CLUSTER_NODE_SLAVE (clear_flags (CLUSTER_NODE_MASTER OR CLUSTER_NODE_MIGRATE_TO) x)) s;
        Some (clusterCloseAllSlots s) }
      else case slaveof me of Some m \<Rightarrow> map_option snd (clusterNodeRemoveSlave m (myself s) s) | None \<Rightarrow> Some s) = Some s1 \<and>
    myself s1 = myself s \<and> nodes s1 = nodes s \<and> cl_slots s1 = cl_slots s \<and> slots_keys_count s1 = slots_keys_count s \<and>
    upcoming_nodes s1 = upcoming_nodes s \<and> length (importing_slots_from s1) = CLUSTER_SLOTS \<and> length (migrating_slots_to s1) = CLUSTER_SLOTS \<and>
    set (importing_slots_from s1) \<subseteq> insert None (set (importing_slots_from s)) \<and>
    set (migrating_slots_to s1) \<subseteq> insert None (set (migrating_slots_to s)) \<and>
    (\<forall>q. (heap s1 q = None) = (heap s q = None)) \<and> heap s1 (myself s) = Some me1 \<and> nodeIsSlave me1 \<and> \<not> nodeIsMaster me1 \<and>
    (\<forall>q x x1. heap s q = Some x \<longrightarrow> heap s1 q = Some x1 \<longrightarrow>
       name x1 = name x \<and> slots x1 = slots x \<and> numslots x1 = numslots x \<and> configEpoch x1 = configEpoch x \<and>
       distinct (slaves x1) \<and> set (slaves x1) = set (slaves x) - {myself s} \<and>
       (q \<noteq> myself s \<longrightarrow> slaveof x1 = slaveof x) \<and> nodeInHandshake x1 = nodeInHandshake x \<and>
       (q \<noteq> myself s \<longrightarrow> nodeIsMaster x1 = nodeIsMaster x \<and> nodeIsSlave x1 = nodeIsSlave x))"
    (is "\<exists>s1 me1. ?det = Some s1 \<and> ?P s1 me1")
proof -
  have g: "graph_ok s" "table_ok s" "me_ok s"
    using ok by (simp_all add: cluster_ok_def)
  have hs: "\<not> nodeInHandshake me"
    using g(3) me by (auto simp: me_ok_def)
  show ?thesis
  proof (cases "nodeIsMaster me")
    case True
    define me1 where "me1 = set_flags CLUSTER_NODE_SLAVE (clear_flags (CLUSTER_NODE_MASTER OR CLUSTER_NODE_MIGRATE_TO) me)"
    define s1 where "s1 = clusterCloseAllSlots (s\<lparr>heap := (heap s)(myself s \<mapsto> me1)\<rparr>)"
    have "?det = Some s1"
      using True me by (simp add: upd_node_def s1_def me1_def)
    moreover have "distinct (slaves x) \<and> myself s \<notin> set (slaves x)" if "heap s q = Some x" for q x
      using graph_okD(1) [OF g(1) that] slave_of_one [OF g(1) that _ me] graph_okD(6) [OF g(1) me True] by auto
    hence "?P s1 me1"
      using me by (auto simp: s1_def clusterCloseAllSlots_def me1_def role_bits bit_simps split: if_splits)
    ultimately show ?thesis
      by blast
  next
    case False
    then obtain m where m: "slaveof me = Some m" "nodeIsSlave me"
      using g(3) me graph_okD(5) [OF g(1) me hs] by (auto simp: me_ok_def)
    then obtain mn where mn: "heap s m = Some mn"
      using graph_okD(3) [OF g(1) me m(1)] by blast
    obtain b f where f: "clusterNodeRemoveSlave m (myself s) s =
        Some (b, s\<lparr>heap := (heap s)(m \<mapsto> mn\<lparr>slaves := remove1 (myself s) (slaves mn), flags := f\<rparr>)\<rparr>)"
      "\<And>k. k \<noteq> 8 \<Longrightarrow> bit f k = bit (flags mn) k"
      using remove_slave [OF mn] by blast
    define s1 where "s1 = s\<lparr>heap := (heap s)(m \<mapsto> mn\<lparr>slaves := remove1 (myself s) (slaves mn), flags := f\<rparr>)\<rparr>"
    define me1 where "me1 = (if m = myself s then mn\<lparr>slaves := remove1 (myself s) (slaves mn), flags := f\<rparr> else me)"
    have "?det = Some s1"
      using False m f(1) by (simp add: s1_def)
    moreover have "name x1 = name x \<and> slots x1 = slots x \<and> numslots x1 = numslots x \<and> configEpoch x1 = configEpoch x \<and>
       distinct (slaves x1) \<and> set (slaves x1) = set (slaves x) - {myself s} \<and>
       (q \<noteq> myself s \<longrightarrow> slaveof x1 = slaveof x) \<and> nodeInHandshake x1 = nodeInHandshake x \<and>
       (q \<noteq> myself s \<longrightarrow> nodeIsMaster x1 = nodeIsMaster x \<and> nodeIsSlave x1 = nodeIsSlave x)"
      if x: "heap s q = Some x" and x1: "heap s1 q = Some x1" for q x x1
    proof (cases "q = m")
      case True
      hence "x = mn" "x1 = mn\<lparr>slaves := remove1 (myself s) (slaves mn), flags := f\<rparr>"
        using x x1 mn by (simp_all add: s1_def)
      thus ?thesis
        using graph_okD(1) [OF g(1) mn] f(2) [of 0] f(2) [of 1] f(2) [of 5] by (simp add: role_bits)
    next
      case False
      hence "x1 = x" "myself s \<notin> set (slaves x)"
        using x x1 slave_of_one [OF g(1) x _ me] m(1) by (auto simp: s1_def)
      thus ?thesis
        using graph_okD(1) [OF g(1) x] by simp
    qed
    moreover have "length (importing_slots_from s) = CLUSTER_SLOTS" "length (migrating_slots_to s) = CLUSTER_SLOTS"
      using g(2) by (simp_all add: table_ok_def)
    moreover have "heap s1 (myself s) = Some me1" "nodeIsSlave me1" "\<not> nodeIsMaster me1"
      using me mn m False f(2) [of 0] f(2) [of 1] by (auto simp: s1_def me1_def role_bits)
    moreover have "(heap s1 q = None) = (heap s q = None)" for q
      using mn by (simp add: s1_def)
    ultimately have "?det = Some s1 \<and> ?P s1 me1"
      by (intro conjI allI impI) (auto simp: s1_def)
    thus ?thesis
      by blast
  qed
qed

lemma table_ok_closed:
  assumes ok: "table_ok s" and "nodes s' = nodes s" "slots_keys_count s' = slots_keys_count s" "upcoming_nodes s' = upcoming_nodes s"
    and "length (importing_slots_from s') = CLUSTER_SLOTS" "length (migrating_slots_to s') = CLUSTER_SLOTS"
    and sub: "set (importing_slots_from s') \<subseteq> insert None (set (importing_slots_from s))"
      "set (migrating_slots_to s') \<subseteq> insert None (set (migrating_slots_to s))"
    and re: "relinked p new s s'"
  shows "table_ok s'"
proof -
  have "\<exists>n. heap s' q = Some n \<and> name n = nm" if "(nm, q) \<in> set (nodes s)" for nm q
    using ok that relinkedD(3) [OF re, of q] unfolding table_ok_def by fastforce
  moreover have "heap s' q \<noteq> None" if "Some q \<in> set (importing_slots_from s') \<union> set (migrating_slots_to s')" for q
  proof -
    have "Some q \<in> set (importing_slots_from s) \<union> set (migrating_slots_to s)"
      using that sub by auto
    hence "heap s q \<noteq> None"
      using ok unfolding table_ok_def by blast
    thus ?thesis
      using relinkedD(1) [OF re, of q] by simp
  qed
  moreover have "\<forall>x \<in> set (upcoming_nodes s). heap s' (fst x) = None" "distinct (map fst (nodes s))"
    "length (slots_keys_count s) = CLUSTER_SLOTS" "distinct (map fst (upcoming_nodes s))"
    using ok relinkedD(1) [OF re] unfolding table_ok_def by blast+
  ultimately show ?thesis
    using assms(2-6) unfolding table_ok_def by simp
qed

lemma clusterSetMaster_ok:
  assumes ok: "cluster_ok s" and n: "heap s n = Some nn" "\<not> nodeInHandshake nn" "n \<noteq> myself s"
    and me: "heap s (myself s) = Some me" "numslots me = 0"
  shows "\<exists>s'. clusterSetMaster e n s = Some s' \<and> cluster_ok s' \<and> stable s s' \<and> cl_slots s' = cl_slots s"
proof -
  have g: "graph_ok s" "table_ok s" "me_ok s" "slots_ok s"
    using ok by (simp_all add: cluster_ok_def)
  obtain s1 me1 where det: "(if nodeIsMaster me then do {
        s \<leftarrow> upd_node (myself s) (\<lambda>x. set_flags CLUSTER_NODE_SLAVE (clear_flags (CLUSTER_NODE_MASTER OR CLUSTER_NODE_MIGRATE_TO) x)) s;
        Some (clusterCloseAllSlots s) }
      else case slaveof me of Some m \<Rightarrow> map_option snd (clusterNodeRemoveSlave m (myself s) s) | None \<Rightarrow> Some s) = Some s1"
    and tab: "myself s1 = myself s" "nodes s1 = nodes s" "cl_slots s1 = cl_slots s" "slots_keys_count s1 = slots_keys_count s"
      "upcoming_nodes s1 = upcoming_nodes s" "length (importing_slots_from s1) = CLUSTER_SLOTS" "length (migrating_slots_to s1) = CLUSTER_SLOTS"
      "set (importing_slots_from s1) \<subseteq> insert None (set (importing_slots_from s))"
      "set (migrating_slots_to s1) \<subseteq> insert None (set (migrating_slots_to s))"
    and al: "\<And>q. (heap s1 q = None) = (heap s q = None)"
    and me1: "heap s1 (myself s) = Some me1" "nodeIsSlave me1" "\<not> nodeIsMaster me1"
    and other: "\<And>q x x1. heap s q = Some x \<Longrightarrow> heap s1 q = Some x1 \<Longrightarrow>
       name x1 = name x \<and> slots x1 = slots x \<and> numslots x1 = numslots x \<and> configEpoch x1 = configEpoch x \<and>
       distinct (slaves x1) \<and> set (slaves x1) = set (slaves x) - {myself s} \<and>
       (q \<noteq> myself s \<longrightarrow> slaveof x1 = slaveof x) \<and> nodeInHandshake x1 = nodeInHandshake x \<and>
       (q \<noteq> myself s \<longrightarrow> nodeIsMaster x1 = nodeIsMaster x \<and> nodeIsSlave x1 = nodeIsSlave x)"
    using detach_myself [OF ok me(1)] by blast
  obtain nn1 where nn1: "heap s1 n = Some nn1"
    using al [of n] n(1) by (cases "heap s1 n") auto
  define me2 where "me2 = me1\<lparr>slaveof := Some n\<rparr>"
  define s2 where "s2 = s1\<lparr>heap := (heap s1)(myself s \<mapsto> me2)\<rparr>"
  have "heap s2 n = Some nn1"
    using nn1 n(3) by (simp add: s2_def)
  from add_slave [OF this, of "myself s"] obtain b f where f: "clusterNodeAddSlave n (myself s) s2 = Some (b, s2\<lparr>heap := (heap s2)(n \<mapsto>
      nn1\<lparr>slaves := (if myself s \<in> set (slaves nn1) then slaves nn1 else slaves nn1 @ [myself s]), flags := f\<rparr>)\<rparr>)"
    and bits: "\<forall>k. k \<noteq> 8 \<longrightarrow> bit f k = bit (flags nn1) k"
    by blast
  define nn3 where "nn3 = nn1\<lparr>slaves := (if myself s \<in> set (slaves nn1) then slaves nn1 else slaves nn1 @ [myself s]), flags := f\<rparr>"
  define s3 where "s3 = s2\<lparr>heap := (heap s2)(n \<mapsto> nn3)\<rparr>"
  define s' where "s' = resetManualFailover e (emit (ReplicationSetMaster (ip nn3) (port nn3)) s3)"
  have "clusterSetMaster e n s = Some s'"
    using me n(3) det f me1 tab(1)
    by (simp add: clusterSetMaster_def upd_node_def s'_def s3_def nn3_def s2_def me2_def)
  moreover have re: "relinked (myself s) (Some n) s s3"
  proof (rule relinkedI)
    fix q
    show "(heap s3 q = None) = (heap s q = None)"
      using al [of q] me1(1) nn1 by (cases "q = n"; cases "q = myself s") (simp_all add: s3_def s2_def)
  next
    fix q x x' assume x: "heap s q = Some x" and x': "heap s3 q = Some x'"
    obtain x1 where x1: "heap s1 q = Some x1"
      using al [of q] x by (cases "heap s1 q") auto
    show "name x' = name x \<and> slots x' = slots x \<and> numslots x' = numslots x \<and> configEpoch x' = configEpoch x \<and>
      distinct (slaves x') \<and> set (slaves x') = (set (slaves x) - {myself s}) \<union> (if Some n = Some q then {myself s} else {}) \<and>
      slaveof x' = (if q = myself s then Some n else slaveof x) \<and> bit (flags x') 5 = bit (flags x) 5 \<and>
      (q \<noteq> myself s \<longrightarrow> bit (flags x') 0 = bit (flags x) 0 \<and> bit (flags x') 1 = bit (flags x) 1)"
    proof (cases "q = n")
      case True
      thus ?thesis
        using other [OF x x1, unfolded role_bits] x' x1 nn1 n(3) bits by (auto simp: s3_def nn3_def)
    next
      case q: False
      show ?thesis
      proof (cases "q = myself s")
        case True
        hence "x1 = me1" "x' = me1\<lparr>slaveof := Some n\<rparr>"
          using q x' x1 me1(1) by (simp_all add: s3_def s2_def me2_def)
        thus ?thesis
          using other [OF x x1, unfolded role_bits] True q by simp
      next
        case False
        hence "x' = x1"
          using q x' x1 by (simp add: s3_def s2_def)
        thus ?thesis
          using other [OF x x1, unfolded role_bits] False q by simp
      qed
    qed
  qed
  moreover have s3: "myself s3 = myself s" "nodes s3 = nodes s" "cl_slots s3 = cl_slots s"
    using tab by (simp_all add: s3_def s2_def)
  have "cluster_ok s3"
  proof -
    have me3: "heap s3 (myself s) = Some me2"
      using n(3) by (simp add: s3_def s2_def)
    hence hs: "\<not> nodeInHandshake me2" "numslots me2 = 0"
      using relinkedD(2) [OF re me3] g(3) me by (auto simp: me_ok_def)
    have "nodeIsSlave me2" "\<not> nodeIsMaster me2"
      using me1 by (simp_all add: me2_def role_bits)
    hence "graph_ok s3" "me_ok s3"
      using graph_ok_relinked [OF g(1) re me3 hs(1)] n hs me3 s3(1) by (auto simp: me_ok_def me2_def)
    moreover have "table_ok s3"
      by (rule table_ok_closed [OF g(2) _ _ _ _ _ _ _ re]) (use tab in \<open>auto simp: s3_def s2_def\<close>)
    ultimately show ?thesis
      using slots_ok_relinked [OF g(4) re s3(3)] by (simp add: cluster_ok_def)
  qed
  moreover have "cl_view s' = cl_view s3"
    by (simp add: s'_def)
  ultimately show ?thesis
    using cluster_ok_view stable_view stable_trans stable_relinked [OF re s3(1,2)] cl_viewD(3) s3(3) by metis
qed

end
