(* ===== verification/Cluster_Config.thy ===== *)
theory Cluster_Config
  imports Cluster_Roles
begin

text \<open>
  The slot configuration that other nodes claim: which slots change their owner, and that the update keeps the invariant.
\<close>

section \<open>Rebinding slots\<close>

text \<open>The owner of slot \<open>j\<close> after the claim of \<open>sender\<close>.\<close>

definition rebinds :: "server \<Rightarrow> nat \<Rightarrow> 64 word \<Rightarrow> buf \<Rightarrow> nat \<Rightarrow> bool" where
  "rebinds s sender epoch claimed j \<longleftrightarrow> bm_bit claimed j \<and> importing_slots_from s ! j = None \<and>
     (case cl_slots s ! j of
        None \<Rightarrow> True
      | Some p \<Rightarrow> p \<noteq> sender \<and> (\<exists>n. heap s p = Some n \<and> configEpoch n < epoch))"

definition claimed_owner :: "server \<Rightarrow> nat \<Rightarrow> 64 word \<Rightarrow> buf \<Rightarrow> nat \<Rightarrow> nat option" where
  "claimed_owner s sender epoch claimed j = (if rebinds s sender epoch claimed j then Some sender else cl_slots s ! j)"

lemma rebinds_rest:
  assumes "rest_view s1 = rest_view s" "cl_slots s1 ! j = cl_slots s ! j"
  shows "rebinds s1 sender epoch claimed j = rebinds s sender epoch claimed j"
proof -
  have "(\<exists>n. heap s1 p = Some n \<and> configEpoch n < epoch) = (\<exists>n. heap s p = Some n \<and> configEpoch n < epoch)" for p
    using rest_viewD(7) [OF assms(1), of p] by (cases "heap s1 p"; cases "heap s p") auto
  thus ?thesis
    using assms(2) rest_viewD(3) [OF assms(1)] by (simp add: rebinds_def split: option.splits)
qed

lemma update_slot_step:
  assumes ok: "slots_ok s1" "table_ok s1" and j: "j < CLUSTER_SLOTS" and snd: "heap s1 sender = Some sn"
    and bm: "length claimed = 2048"
  shows "\<exists>s' dirty' nm'. update_slot sender epoch claimed curmaster j (s1, dirty, nm) = Some (s', dirty', nm') \<and>
    slots_ok s' \<and> rest_view s' = rest_view s1 \<and>
    cl_slots s' = (if rebinds s1 sender epoch claimed j then (cl_slots s1)[j := Some sender] else cl_slots s1) \<and>
    (nm' \<longleftrightarrow> nm \<or> rebinds s1 sender epoch claimed j \<and> cl_slots s1 ! j = curmaster)"
proof -
  have len: "length (cl_slots s1) = CLUSTER_SLOTS" "length (importing_slots_from s1) = CLUSTER_SLOTS"
    "length (slots_keys_count s1) = CLUSTER_SLOTS"
    using ok by (simp_all add: slots_ok_def table_ok_def)
  obtain c where c: "(case cl_slots s1 ! j of None \<Rightarrow> Some True
      | Some p \<Rightarrow> do { n \<leftarrow> heap s1 p; Some (configEpoch n < epoch) }) = Some c"
    "rebinds s1 sender epoch claimed j \<longleftrightarrow>
       bm_bit claimed j \<and> importing_slots_from s1 ! j = None \<and> cl_slots s1 ! j \<noteq> Some sender \<and> c"
  proof (cases "cl_slots s1 ! j")
    case None
    thus ?thesis
      using that [of True] by (simp add: rebinds_def)
  next
    case (Some p)
    then obtain n where "heap s1 p = Some n"
      using ok(1) j unfolding slots_ok_def by blast
    thus ?thesis
      using that [of "configEpoch n < epoch"] Some by (auto simp: rebinds_def)
  qed
  show ?thesis
  proof (cases "rebinds s1 sender epoch claimed j")
    case True
    obtain b b' s2 s' where mv: "clusterDelSlot j s1 = Some (b, s2)" "clusterAddSlot sender j s2 = Some (b', s')"
      "cl_slots s' = (cl_slots s1)[j := Some sender]" "slots_ok s'" "rest_view s' = rest_view s1"
      using move_slot_ok [OF ok j snd] by blast
    show ?thesis
      using True c mv j len by (auto simp: update_slot_def buf_simps slots_bitmap(3) [OF bm j] Let_def)
  next
    case False
    thus ?thesis
      using c ok(1) j len
      by (cases "bm_bit claimed j \<and> importing_slots_from s1 ! j = None \<and> cl_slots s1 ! j \<noteq> Some sender")
        (auto simp: update_slot_def buf_simps slots_bitmap(3) [OF bm j])
  qed
qed

lemma update_loop:
  assumes ok: "slots_ok s" "table_ok s" and snd: "heap s sender = Some sn" and bm: "length claimed = 2048"
  shows "\<exists>s' dirty nm. for_slots (update_slot sender epoch claimed curmaster) (s, [], False) = Some (s', dirty, nm) \<and>
    slot_loop s (claimed_owner s sender epoch claimed) CLUSTER_SLOTS s' \<and>
    (nm \<longleftrightarrow> (\<exists>j < CLUSTER_SLOTS. rebinds s sender epoch claimed j \<and> cl_slots s ! j = curmaster))"
proof -
  let ?P = "\<lambda>k (s', dirty :: nat list, nm). slot_loop s (claimed_owner s sender epoch claimed) k s' \<and>
    (nm \<longleftrightarrow> (\<exists>j < k. rebinds s sender epoch claimed j \<and> cl_slots s ! j = curmaster))"
  have "\<exists>x. for_slots (update_slot sender epoch claimed curmaster) (s, [], False) = Some x \<and> ?P CLUSTER_SLOTS x"
  proof (rule for_slots_inv)
    fix j x assume j: "j < CLUSTER_SLOTS" and P: "?P j x"
    obtain s1 dirty nm where x: "x = (s1, dirty, nm)"
      by (cases x)
    have l: "slot_loop s (claimed_owner s sender epoch claimed) j s1"
      and nm: "nm \<longleftrightarrow> (\<exists>j' < j. rebinds s sender epoch claimed j' \<and> cl_slots s ! j' = curmaster)"
      using P x by auto
    have s1: "slots_ok s1" "rest_view s1 = rest_view s" "cl_slots s1 ! j = cl_slots s ! j"
      using l j by (auto simp: slot_loop_def)
    obtain sn1 where sn1: "heap s1 sender = Some sn1"
      using rest_view_alloc [OF s1(2), of sender] snd by auto
    note r = rebinds_rest [OF s1(2,3), of sender epoch claimed]
    obtain s' dirty' nm' where st: "update_slot sender epoch claimed curmaster j (s1, dirty, nm) = Some (s', dirty', nm')"
      "slots_ok s'" "rest_view s' = rest_view s1"
      "cl_slots s' = (if rebinds s sender epoch claimed j then (cl_slots s1)[j := Some sender] else cl_slots s1)"
      "nm' \<longleftrightarrow> nm \<or> rebinds s sender epoch claimed j \<and> cl_slots s ! j = curmaster"
      using update_slot_step [OF s1(1) table_ok_rest [OF ok(2) s1(2)] j sn1 bm, of epoch curmaster dirty nm] r s1(3) by auto
    have "cl_slots s' = (cl_slots s1)[j := claimed_owner s sender epoch claimed j]"
      using st(4) s1(3) list_update_id [of "cl_slots s1" j] by (auto simp: claimed_owner_def)
    hence "slot_loop s (claimed_owner s sender epoch claimed) (Suc j) s'"
      using slot_loop_set [OF l j st(2,3)] by simp
    thus "\<exists>y. update_slot sender epoch claimed curmaster j x = Some y \<and> ?P (Suc j) y"
      using st(1,5) nm x by (auto simp: less_Suc_eq)
  qed (simp add: slot_loop_0 [OF ok(1)])
  thus ?thesis
    by auto
qed


lemma fold_delKeys_view: "cl_view (fold delKeysInSlot d s) = cl_view s" "cl_slots (fold delKeysInSlot d s) = cl_slots s"
  by (induction d arbitrary: s) (simp_all add: delKeysInSlot_def cl_view_def)

lemma clusterUpdateSlotsConfigWith_ok:
  assumes ok: "cluster_ok s" and snd: "heap s sender = Some sn" "\<not> nodeInHandshake sn" and bm: "length claimed = 2048"
  shows "\<exists>s'. clusterUpdateSlotsConfigWith e sender epoch claimed s = Some s' \<and> cluster_ok s' \<and> stable s s' \<and>
    (sender \<noteq> myself s \<longrightarrow> (\<forall>j < CLUSTER_SLOTS. cl_slots s' ! j = claimed_owner s sender epoch claimed j))"
proof -
  have g: "slots_ok s" "table_ok s" "me_ok s"
    using ok by (simp_all add: cluster_ok_def)
  obtain me where me: "heap s (myself s) = Some me" "\<not> nodeInHandshake me" "nodeIsMaster me \<or> slaveof me \<noteq> None \<and> numslots me = 0"
    using g(3) by (auto simp: me_ok_def)
  show ?thesis
  proof (cases "sender = myself s")
    case True
    thus ?thesis
      using ok me(1) by (simp add: clusterUpdateSlotsConfigWith_def)
  next
    case other: False
    define curmaster where "curmaster = (if nodeIsMaster me then Some (myself s) else slaveof me)"
    obtain s1 dirty nm where l: "for_slots (update_slot sender epoch claimed curmaster) (s, [], False) = Some (s1, dirty, nm)"
      "slot_loop s (claimed_owner s sender epoch claimed) CLUSTER_SLOTS s1"
      using update_loop [OF g(1,2) snd(1) bm] by blast
    note s1 = slot_loopD [OF l(2)]
    have own: "owned (cl_slots s1) (myself s) \<subseteq> owned (cl_slots s) (myself s)"
      using s1(3) other by (auto simp: owned_def claimed_owner_def split: if_splits)
    have ok1: "cluster_ok s1" "stable s s1"
      using cluster_ok_slots [OF ok s1(1,2)] own stable_rest [OF s1(2)] by simp_all
    obtain sn1 where sn1: "heap s1 sender = Some sn1" "\<not> nodeInHandshake sn1"
      using stableD [OF ok1(2) snd(1)] snd(2) by metis
    have "\<exists>s2. (if has_flag (cluster_module_flags e) CLUSTER_MODULE_FLAG_NO_REDIRECTION then Some s1
        else do {
          demoted \<leftarrow> (if nm then do { c \<leftarrow> curmaster; m \<leftarrow> heap s1 c; Some (numslots m = 0) } else Some False);
          if demoted then do { s \<leftarrow> clusterSetMaster e sender s1; Some (clusterDoBeforeSleep TODO_ALL s) }
          else Some (fold delKeysInSlot dirty s1) }) = Some s2 \<and> cluster_ok s2 \<and> stable s1 s2 \<and> cl_slots s2 = cl_slots s1"
    proof -
      have del: "cluster_ok (fold delKeysInSlot dirty s1)" "stable s1 (fold delKeysInSlot dirty s1)"
        "cl_slots (fold delKeysInSlot dirty s1) = cl_slots s1"
        using cluster_ok_view [OF ok1(1)] stable_view fold_delKeys_view by blast+
      obtain me1 where me1: "heap s1 (myself s1) = Some me1" "nodeIsMaster me1 = nodeIsMaster me" "slaveof me1 = slaveof me"
        using rest_view_heap [OF s1(2) [symmetric] me(1)] rest_viewD(1) [OF s1(2)] by metis
      obtain c cn where c: "curmaster = Some c" "heap s1 c = Some cn" "numslots cn = 0 \<Longrightarrow> numslots me1 = 0"
      proof (cases "nodeIsMaster me")
        case True
        thus ?thesis
          using that [of "myself s1" me1] me1(1) rest_viewD(1) [OF s1(2)] by (simp add: curmaster_def)
      next
        case False
        then obtain m where m: "slaveof me = Some m"
          using me(3) by auto
        then obtain mn where "heap s m = Some mn"
          using graph_okD(3) [OF _ me(1) m] ok by (auto simp: cluster_ok_def)
        then obtain cn where "heap s1 m = Some cn"
          using stableD [OF ok1(2)] by metis
        moreover have "numslots me1 = 0"
          using ok1(1) me1(1,2) False by (auto simp: cluster_ok_def me_ok_def)
        ultimately show ?thesis
          using that [of m cn] m False by (simp add: curmaster_def)
      qed
      show ?thesis
      proof (cases "\<not> has_flag (cluster_module_flags e) CLUSTER_MODULE_FLAG_NO_REDIRECTION \<and> nm \<and> numslots cn = 0")
        case True
        obtain s2 where "clusterSetMaster e sender s1 = Some s2" "cluster_ok s2" "stable s1 s2" "cl_slots s2 = cl_slots s1"
          using clusterSetMaster_ok [OF ok1(1) sn1 _ me1(1)] c(3) True other rest_viewD(1) [OF s1(2)] by metis
        thus ?thesis
          using True c cluster_ok_view [of s2] stable_trans [of s1 s2] stable_view
          by (intro exI [of _ "clusterDoBeforeSleep TODO_ALL s2"]) simp
      next
        case False
        thus ?thesis
          using c del ok1(1) by auto
      qed
    qed
    then obtain s2 where s2: "cluster_ok s2" "stable s1 s2" "cl_slots s2 = cl_slots s1"
      "(if has_flag (cluster_module_flags e) CLUSTER_MODULE_FLAG_NO_REDIRECTION then Some s1
        else do {
          demoted \<leftarrow> (if nm then do { c \<leftarrow> curmaster; m \<leftarrow> heap s1 c; Some (numslots m = 0) } else Some False);
          if demoted then do { s \<leftarrow> clusterSetMaster e sender s1; Some (clusterDoBeforeSleep TODO_ALL s) }
          else Some (fold delKeysInSlot dirty s1) }) = Some s2"
      by blast
    have "clusterUpdateSlotsConfigWith e sender epoch claimed s =
      (if has_flag (cluster_module_flags e) CLUSTER_MODULE_FLAG_NO_REDIRECTION then Some s1
        else do {
          demoted \<leftarrow> (if nm then do { c \<leftarrow> curmaster; m \<leftarrow> heap s1 c; Some (numslots m = 0) } else Some False);
          if demoted then do { s \<leftarrow> clusterSetMaster e sender s1; Some (clusterDoBeforeSleep TODO_ALL s) }
          else Some (fold delKeysInSlot dirty s1) })"
      unfolding clusterUpdateSlotsConfigWith_def me(1) Option.bind.bind_lunit Let_def curmaster_def [symmetric] l(1)
      using other by simp
    hence "clusterUpdateSlotsConfigWith e sender epoch claimed s = Some s2"
      using s2(4) by simp
    thus ?thesis
      using s2 s1(3) stable_trans [OF ok1(2) s2(2)] by auto
  qed
qed

section \<open>An example\<close>

text \<open>A cluster of the master \<open>1\<close>, seen from the node \<open>0\<close>, that is a master too; no slot is assigned yet.\<close>

definition example_node :: "buf \<Rightarrow> 32 word \<Rightarrow> clusterNode" where
  "example_node nm fl = \<lparr>ctime = 0, name = nm, flags = fl, configEpoch = 0, slots = replicate 2048 0, numslots = 0,
     slaves = [], slaveof = None, ping_sent = 0, pong_received = 0, fail_time = 0, voted_time = 0, repl_offset_time = 0,
     orphaned_time = 0, repl_offset = 0, ip = [], port = 0, cport = 0, link = Some 0, fail_reports = []\<rparr>"

definition example_server :: server where
  "example_server = \<lparr>myself = 0, currentEpoch = 0, cl_state = CLUSTER_OK, cl_size = 0,
     nodes = [(replicate 40 0x61, 0), (replicate 40 0x62, 1)], nodes_black_list = [],
     migrating_slots_to = replicate CLUSTER_SLOTS None, importing_slots_from = replicate CLUSTER_SLOTS None,
     cl_slots = replicate CLUSTER_SLOTS None, slots_keys_count = replicate CLUSTER_SLOTS 0,
     failover_auth_time = 0, failover_auth_count = 0, failover_auth_sent = False, failover_auth_rank = 0,
     failover_auth_epoch = 0, cant_failover_reason = CANT_FAILOVER_NONE, mf_end = 0, mf_slave = None,
     mf_master_offset = 0, mf_can_start = False, lastVoteEpoch = 0, todo_before_sleep = 0, stats_pfail_nodes = 0,
     heap = [0 \<mapsto> example_node (replicate 40 0x61) (CLUSTER_NODE_MASTER OR CLUSTER_NODE_MYSELF),
             1 \<mapsto> example_node (replicate 40 0x62) CLUSTER_NODE_MASTER],
     upcoming_nodes = [(2, replicate 40 0x63), (3, replicate 40 0x64)],
     among_minority_time = 0, first_call_time = 0, lastlog_time = 0, effects = []\<rparr>"

definition example_env :: env where
  "example_env = \<lparr>mstime = 1000000, unixtime = 1000, random_value = 0, random_key = (\<lambda>i. i), slave_offset = 0,
     master_repl_offset = 0, repl_connected = False, master_lastinteraction = 0, repl_down_since = 0, has_masterhost = False,
     clients_paused = False, subscribers = False, db_empty = True, sock_name = None, peer_name = [], inet_norm = Some,
     connects = (\<lambda>_. True), server_port = 6379, cluster_announce_ip = None, cluster_announce_port = 0,
     cluster_announce_bus_port = 0, cluster_node_timeout = 15000, cluster_slave_no_failover = False,
     cluster_slave_validity_factor = 10, cluster_migration_barrier = 1, cluster_require_full_coverage = True,
     cluster_module_flags = 0, repl_ping_slave_period = 10\<rparr>"

lemma example_heap: "heap example_server p = Some n \<longleftrightarrow>
    p = 0 \<and> n = example_node (replicate 40 0x61) (CLUSTER_NODE_MASTER OR CLUSTER_NODE_MYSELF) \<or>
    p = 1 \<and> n = example_node (replicate 40 0x62) CLUSTER_NODE_MASTER"
  unfolding example_server_def by auto

lemma example_heap_None: "p > 1 \<Longrightarrow> heap example_server p = None"
  by (simp add: example_server_def)

lemma example_node_simps [simp]:
  "slots (example_node nm fl) = replicate 2048 0" "numslots (example_node nm fl) = 0" "slaves (example_node nm fl) = []"
  "slaveof (example_node nm fl) = None" "name (example_node nm fl) = nm" "configEpoch (example_node nm fl) = 0"
  "nodeIsMaster (example_node nm CLUSTER_NODE_MASTER)" "\<not> nodeIsSlave (example_node nm CLUSTER_NODE_MASTER)"
  "\<not> nodeInHandshake (example_node nm CLUSTER_NODE_MASTER)"
  "nodeIsMaster (example_node nm 17)"
  "\<not> nodeIsSlave (example_node nm 17)"
  "\<not> nodeInHandshake (example_node nm 17)"
  by (simp_all add: example_node_def nodeIsMaster_def nodeIsSlave_def nodeInHandshake_def has_flag_def)

lemma bm_bit_zero: "j < CLUSTER_SLOTS \<Longrightarrow> \<not> bm_bit (replicate 2048 0) j"
  by (simp add: bm_bit_def less_mult_imp_div_less)

lemma bm_bit_ones:
  assumes "j < CLUSTER_SLOTS"
  shows "bm_bit (replicate 2048 0xFF) j"
proof -
  have ones: "(0xFF :: byte) = -1"
    by simp
  show ?thesis
    unfolding ones using assms by (simp add: bm_bit_def less_mult_imp_div_less)
qed

lemma example_cluster_ok: "cluster_ok example_server"
proof -
  have s: "cl_slots example_server = replicate CLUSTER_SLOTS None" "myself example_server = 0"
    "nodes example_server = [(replicate 40 0x61, 0), (replicate 40 0x62, 1)]"
    "importing_slots_from example_server = replicate CLUSTER_SLOTS None"
    "migrating_slots_to example_server = replicate CLUSTER_SLOTS None"
    "slots_keys_count example_server = replicate CLUSTER_SLOTS 0"
    "upcoming_nodes example_server = [(2, replicate 40 0x63), (3, replicate 40 0x64)]"
    by (simp_all only: example_server_def server.simps)
  have "slots_ok example_server"
    unfolding slots_ok_def s(1) by (auto simp: example_heap owned_def bm_bit_zero)
  moreover have "table_ok example_server"
    unfolding table_ok_def s by (auto simp: example_heap example_heap_None)
  moreover have "graph_ok example_server"
    unfolding graph_ok_def by (auto simp: example_heap)
  moreover have "me_ok example_server"
    unfolding me_ok_def s(2) by (auto simp: example_heap)
  ultimately show ?thesis
    by (simp add: cluster_ok_def)
qed

section \<open>The claim of a master\<close>

text \<open>C38: When a node that is not this one claims slots with a configuration epoch, then in every state that fulfils the
  invariant \<^verbatim>\<open>clusterUpdateSlotsConfigWith\<close> returns, without following a dangling pointer and without a failed assertion,
  and afterwards every one of the 16384 slots belongs to the claiming node if it claims the slot, the slot is not being imported
  here and its present owner has a smaller configuration epoch (or there is none), and to its previous owner otherwise; the
  invariant holds again: bitmaps and counters of all nodes agree with the table of slots, the lists of replicas with the pointers
  to the masters, and this node, if its last slot is taken, is a replica without slots.\<close>

theorem clusterUpdateSlotsConfigWith_owner:
  assumes "cluster_ok s" "heap s sender = Some n" "\<not> nodeInHandshake n" "length claimed = 2048" "sender \<noteq> myself s"
  shows "\<exists>s'. clusterUpdateSlotsConfigWith e sender epoch claimed s = Some s' \<and> cluster_ok s' \<and>
    (\<forall>j < CLUSTER_SLOTS. cl_slots s' ! j = claimed_owner s sender epoch claimed j)"
  using clusterUpdateSlotsConfigWith_ok [OF assms(1-4)] assms(5) by metis

theorem clusterUpdateSlotsConfigWith_owner_witness:
  "\<exists>s'. clusterUpdateSlotsConfigWith example_env 1 7 (replicate 2048 0xFF) example_server = Some s' \<and> cluster_ok s' \<and>
    cl_slots s' ! 16383 = Some 1"
proof -
  have h: "heap example_server 1 = Some (example_node (replicate 40 0x62) CLUSTER_NODE_MASTER)"
    by (simp add: example_heap)
  have "\<exists>s'. clusterUpdateSlotsConfigWith example_env 1 7 (replicate 2048 0xFF) example_server = Some s' \<and> cluster_ok s' \<and>
    (\<forall>j < CLUSTER_SLOTS. cl_slots s' ! j = claimed_owner example_server 1 7 (replicate 2048 0xFF) j)"
    by (rule clusterUpdateSlotsConfigWith_owner [OF example_cluster_ok h]) (simp_all add: example_server_def)
  moreover have "claimed_owner example_server 1 7 (replicate 2048 0xFF) 16383 = Some 1"
    using bm_bit_ones [of 16383] by (simp add: claimed_owner_def rebinds_def example_server_def)
  ultimately show ?thesis
    by force
qed

end
