(* ===== verification/Spec2Isabelle.thy ===== *)
theory Spec2Isabelle
  imports Intset Dict_Types Util_Num Util_Glob Lzf_Correct Adlist_Correct Dict_Scan Dict_Iter Sds_Args Sds_Fmt Manager_Correct Crc_Correct
    Cluster_Config
begin

text \<open>
  A verification development for the Redis server (version 5.0.7) that is vendored under
  \<^verbatim>\<open>src/redis-stable\<close>.

  \<^bold>\<open>How the code is modelled.\<close> Every C function is a HOL function in the option
  monad: \<open>None\<close> stands for undefined behaviour (an access outside an allocation, a
  failed assertion, a loop that does not end), so that a theorem \<open>f x = Some y\<close> says
  that the call returns and reads and writes inside its memory. Byte arrays are lists of
  8-bit words with checked access; integers keep the width of the C type
  where it matters. A \<open>host\<close> gives the byte order and the contents of fresh memory.

  \<^bold>\<open>Theories.\<close>
  \<^item> \<open>Redis_Prelude\<close>: hosts, checked buffers, integers as bytes, shared lemmas.
  \<^item> \<open>Endianconv\<close> (\<^verbatim>\<open>endianconv.c\<close>): byte order conversion.
  \<^item> \<open>Int_Set_Spec\<close>, \<open>Intset\<close> (\<^verbatim>\<open>intset.c\<close>): the contract of sets of integers, and the sorted
    arrays of 2, 4 or 8 byte integers that fulfil it.
  \<^item> \<open>Siphash\<close> (\<^verbatim>\<open>siphash.c\<close>): the hash functions.
  \<^item> \<open>Kv_Spec\<close>: the contract of keyed stores.
  \<^item> \<open>Dict\<close>, \<open>Dict_Correct\<close>, \<open>Dict_Ops\<close>, \<open>Dict_Map\<close>, \<open>Dict_Types\<close> (\<^verbatim>\<open>dict.c\<close>, \<^verbatim>\<open>server.c\<close>): hash tables with
    incremental rehashing, their invariant, and that they fulfil the contract.

  \<^bold>\<open>Not modelled.\<close> Input and output, the event loop, processes and threads.
\<close>

end
